(* ===== verification/Prelude.thy ===== *)
theory Prelude
  imports Main "HOL-Library.Word" "HOL-Library.AList" "HOL-Library.Multiset"
begin

text \<open>
  Shared vocabulary of the development: bytes and strings, the C integer conversions the
  server uses, clock values, association lists standing for the C++ maps, and the
  collections of rewrite rules the component theories feed and use.

  \<^item> \<^verbatim>\<open>std::string\<close> and \<^verbatim>\<open>std::string_view\<close> are \<open>string\<close>, a list of \<open>char\<close>, each a byte.
  \<^item> \<^verbatim>\<open>int\<close> values are mathematical integers with the 32-bit range written out where the code
    converts; \<^verbatim>\<open>size_t\<close> values are naturals.
  \<^item> \<^verbatim>\<open>steady_clock\<close> points and durations are integers counting nanoseconds.
  \<^item> \<^verbatim>\<open>std::map\<close> and \<^verbatim>\<open>std::unordered_map\<close> are association lists with distinct keys; the list
    order is the iteration order.
\<close>

named_theorems pool_inv_intros "preservation of the inference pool invariant"
named_theorems reply_simps "fields of the responses the handlers build"

type_synonym byte = "8 word"
type_synonym u16 = "16 word"
type_synonym u32 = "32 word"
type_synonym bytes = "8 word list"
type_synonym time_point = int
type_synonym headers = "(string \<times> string) list"

subsection \<open>C integers\<close>

definition INT_MAX :: int where
  "INT_MAX = 2147483647"

definition INT_MIN :: int where
  "INT_MIN = - 2147483648"

text \<open>\<^verbatim>\<open>static_cast<int>\<close> of a \<^verbatim>\<open>size_t\<close>, and \<^verbatim>\<open>static_cast<size_t>\<close> of an \<^verbatim>\<open>int\<close>.\<close>

definition size_to_int :: "nat \<Rightarrow> int" where
  "size_to_int n = sint (word_of_nat n :: 32 word)"

definition int_to_size :: "int \<Rightarrow> nat" where
  "int_to_size i = nat (i mod 2 ^ 64)"

text \<open>Division truncating towards zero, as \<^verbatim>\<open>duration_cast\<close> does.\<close>

definition trunc_div :: "int \<Rightarrow> int \<Rightarrow> int" where
  "trunc_div a b = sgn a * sgn b * (\<bar>a\<bar> div \<bar>b\<bar>)"

definition ns_per_sec :: int where
  "ns_per_sec = 1000000000"

definition to_seconds :: "int \<Rightarrow> int" where
  "to_seconds d = trunc_div d ns_per_sec"

lemma size_to_int_small: "n < 2147483648 \<Longrightarrow> size_to_int n = int n"
  unfolding size_to_int_def
  by (simp add: signed_of_nat signed_take_bit_int_eq_self_iff)

lemma int_to_size_nonneg: "0 \<le> i \<Longrightarrow> i \<le> INT_MAX \<Longrightarrow> int_to_size i = nat i"
  by (simp add: int_to_size_def INT_MAX_def)

lemma trunc_div_nonneg: "0 \<le> a \<Longrightarrow> 0 < b \<Longrightarrow> trunc_div a b = a div b"
  by (cases "a = 0") (simp_all add: trunc_div_def)

lemma to_seconds_nonneg: "0 \<le> d \<Longrightarrow> to_seconds d = d div ns_per_sec"
  by (simp add: to_seconds_def ns_per_sec_def trunc_div_nonneg)

lemma to_seconds_neg: "d \<le> 0 \<Longrightarrow> to_seconds d \<le> 0"
  by (cases "d = 0") (simp_all add: to_seconds_def trunc_div_def ns_per_sec_def)

lemma to_seconds_ge_iff:
  assumes "0 < n"
  shows "n \<le> to_seconds d \<longleftrightarrow> n * ns_per_sec \<le> d"
proof (cases "0 \<le> d")
  case True
  have "n \<le> d div ns_per_sec \<longleftrightarrow> n * ns_per_sec \<le> d"
    by (simp add: ns_per_sec_def) linarith
  with True show ?thesis by (simp add: to_seconds_nonneg)
next
  case False
  then have "to_seconds d \<le> 0" by (simp add: to_seconds_neg)
  moreover have "d < n * ns_per_sec" using False assms
    by (smt (verit) mult_pos_pos ns_per_sec_def)
  ultimately show ?thesis using assms by linarith
qed

subsection \<open>Characters and strings\<close>

definition isspace :: "char \<Rightarrow> bool" where
  "isspace c \<longleftrightarrow> (let n = (of_char c :: nat) in n = 32 \<or> (9 \<le> n \<and> n \<le> 13))"

definition tolower :: "char \<Rightarrow> char" where
  "tolower c = (let n = (of_char c :: nat) in
     if 65 \<le> n \<and> n \<le> 90 then char_of (n + 32) else c)"

text \<open>\<^verbatim>\<open>static_cast<uint8_t>\<close> of a character is \<open>of_char\<close> at the byte type; it loses nothing.\<close>

lemma of_char_less_256: "(of_char c :: nat) < 256"
  by (metis mod_less_divisor of_char_mod_256 zero_less_numeral)

lemma unat_of_char_byte: "unat (of_char c :: byte) = of_char c"
proof -
  have "(of_char c :: byte) = word_of_nat (of_char c)"
    by (simp add: of_nat_of_char)
  then show ?thesis using of_char_less_256 [of c]
    by (simp add: unat_of_nat)
qed

lemma of_char_byte_eq_iff [simp]: "(of_char c :: byte) = of_char d \<longleftrightarrow> c = d"
  by (metis of_char_eq_iff unat_of_char_byte)

text \<open>The em dash of the message texts, three bytes of UTF-8.\<close>

definition em_dash :: string where
  "em_dash = [CHR 0xE2, CHR 0x80, CHR 0x94]"

definition quoted :: "string \<Rightarrow> string" where
  "quoted s = CHR 0x27 # s @ [CHR 0x27]"

text \<open>\<^verbatim>\<open>s.find(p) != npos\<close>.\<close>

fun contains :: "string \<Rightarrow> string \<Rightarrow> bool" where
  "contains p [] = (p = [])"
| "contains p (c # s) = (take (length p) (c # s) = p \<or> contains p s)"

lemma contains_iff: "contains p s \<longleftrightarrow> (\<exists>u v. s = u @ p @ v)"
proof (induction s)
  case Nil
  then show ?case by auto
next
  case (Cons c s)
  have *: "take (length p) (c # s) = p \<longleftrightarrow> (\<exists>v. c # s = p @ v)"
    by (metis append_eq_conv_conj)
  show ?case
  proof
    assume "contains p (c # s)"
    then consider v where "c # s = p @ v" | "contains p s"
      using * by auto
    then show "\<exists>u v. c # s = u @ p @ v"
    proof cases
      case 1
      then have "c # s = [] @ p @ v" by simp
      then show ?thesis by blast
    next
      case 2
      then obtain u v where "s = u @ p @ v" using Cons.IH by blast
      then have "c # s = (c # u) @ p @ v" by simp
      then show ?thesis by blast
    qed
  next
    assume "\<exists>u v. c # s = u @ p @ v"
    then obtain u v where uv: "c # s = u @ p @ v" by blast
    show "contains p (c # s)"
    proof (cases u)
      case Nil
      with uv have "\<exists>v. c # s = p @ v" by auto
      with * have "take (length p) (c # s) = p" by blast
      then show ?thesis by simp
    next
      case (Cons a u')
      with uv have "s = u' @ p @ v" by simp
      with Cons.IH show ?thesis by auto
    qed
  qed
qed

text \<open>Decimal output, as \<^verbatim>\<open>std::to_string\<close> prints an integer.\<close>

definition digit_char :: "nat \<Rightarrow> char" where
  "digit_char d = char_of (48 + d)"

fun nat_to_string :: "nat \<Rightarrow> string" where
  "nat_to_string n =
     (if n < 10 then [digit_char n]
      else nat_to_string (n div 10) @ [digit_char (n mod 10)])"

declare nat_to_string.simps [simp del]

definition int_to_string :: "int \<Rightarrow> string" where
  "int_to_string i = (if i < 0 then CHR ''-'' # nat_to_string (nat (- i))
                      else nat_to_string (nat i))"

lemma of_char_digit [simp]: "d < 10 \<Longrightarrow> (of_char (digit_char d) :: nat) = 48 + d"
  by (simp add: digit_char_def)

lemma nat_to_string_nonempty [simp]: "nat_to_string n \<noteq> []"
  by (subst nat_to_string.simps) simp

lemma int_to_string_nonempty [simp]: "int_to_string i \<noteq> []"
  by (simp add: int_to_string_def)

lemma length_filter_mono:
  "(\<And>x. x \<in> set xs \<Longrightarrow> P x \<Longrightarrow> Q x) \<Longrightarrow> length (filter P xs) \<le> length (filter Q xs)"
  by (induction xs) auto

lemma size_filter_mset_map: "size {#y \<in># mset (map f xs). P y#} = length (filter (\<lambda>x. P (f x)) xs)"
  by (induction xs) auto

text \<open>Replacing an element of a list, seen through its multiset.\<close>

lemma mset_replace:
  assumes "i < length xs"
  shows "\<exists>M. mset xs = add_mset (xs ! i) M \<and> (\<forall>y. mset (xs[i := y]) = add_mset y M)"
  using assms by (intro exI [of _ "mset xs - {#xs ! i#}"]) (simp add: mset_update)

subsection \<open>Maps as association lists\<close>

text \<open>\<open>m.find(k)\<close>, \<open>m[k] = v\<close>, \<open>m.erase(k)\<close> and \<open>m.size()\<close> over the entries of a C++ map.\<close>

abbreviation lookup :: "('k \<times> 'v) list \<Rightarrow> 'k \<Rightarrow> 'v option" where
  "lookup m k \<equiv> map_of m k"

abbreviation put :: "'k \<Rightarrow> 'v \<Rightarrow> ('k \<times> 'v) list \<Rightarrow> ('k \<times> 'v) list" where
  "put k v m \<equiv> AList.update k v m"

abbreviation erase :: "'k \<Rightarrow> ('k \<times> 'v) list \<Rightarrow> ('k \<times> 'v) list" where
  "erase k m \<equiv> AList.delete k m"

definition distinct_keys :: "('k \<times> 'v) list \<Rightarrow> bool" where
  "distinct_keys m \<longleftrightarrow> distinct (map fst m)"

lemma distinct_keys_Nil [simp]: "distinct_keys []"
  by (simp add: distinct_keys_def)

lemma distinct_keys_put [simp]: "distinct_keys m \<Longrightarrow> distinct_keys (put k v m)"
  by (simp add: distinct_keys_def distinct_update)

lemma distinct_keys_erase [simp]: "distinct_keys m \<Longrightarrow> distinct_keys (erase k m)"
  by (simp add: distinct_keys_def distinct_delete)

lemma distinct_keys_filter [simp]: "distinct_keys m \<Longrightarrow> distinct_keys (filter P m)"
  by (induction m) (auto simp: distinct_keys_def)

lemma lookup_put: "lookup (put k v m) = (lookup m)(k \<mapsto> v)"
  by (rule update_conv')

lemma lookup_erase: "lookup (erase k m) = (lookup m)(k := None)"
  by (rule delete_conv')

lemma length_put: "distinct_keys m \<Longrightarrow>
    length (put k v m) = (if lookup m k = None then Suc (length m) else length m)"
  by (induction m) (auto simp: distinct_keys_def)

lemma lookup_perm:
  assumes "mset xs = mset ys" and "distinct_keys ys"
  shows "lookup xs = lookup ys"
proof -
  have d: "distinct (map fst xs)"
    using assms by (metis distinct_keys_def mset_eq_imp_distinct_iff mset_map)
  have "set xs = set ys" using assms(1) by (rule mset_eq_setD)
  then show ?thesis using d assms(2)
    by (metis distinct_keys_def map_of_inject_set)
qed

lemma distinct_keys_perm: "mset xs = mset ys \<Longrightarrow> distinct_keys xs = distinct_keys ys"
  unfolding distinct_keys_def by (metis mset_eq_imp_distinct_iff mset_map)

lemma lookup_filter:
  assumes "distinct_keys m"
  shows "lookup (filter P m) k =
    (case lookup m k of None \<Rightarrow> None | Some v \<Rightarrow> if P (k, v) then Some v else None)"
  using assms
proof (induction m)
  case Nil
  then show ?case by simp
next
  case (Cons e m)
  obtain a b where e: "e = (a, b)" by (cases e)
  from Cons.prems e have d: "distinct_keys m" and a: "lookup m a = None"
    by (auto simp: distinct_keys_def map_of_eq_None_iff)
  show ?case using Cons.IH [OF d] a e by (auto split: option.splits)
qed

end
