(* ===== verification/Auth.thy ===== *)
theory Auth
  imports Prelude
begin

text \<open>
  Authentication: \<^verbatim>\<open>include/tts/auth.hpp\<close> (the constant-time comparison, the client address
  taken from the forwarding header, the list of internal endpoints) and
  \<^verbatim>\<open>src/server/auth.cpp\<close> (the bearer token check). The rate limiters of the same header
  are in the theory RateLimit.
\<close>

unbundle bit_operations_syntax

subsection \<open>Constant-time comparison\<close>

text \<open>
  The accumulator is one byte: it starts as the low byte of the exclusive or of the two
  64-bit lengths and collects the differences of the bytes both strings have.
\<close>

fun ct_accumulate :: "byte \<Rightarrow> string \<Rightarrow> string \<Rightarrow> byte" where
  "ct_accumulate r (x # xs) (y # ys) = ct_accumulate (r OR (of_char x XOR of_char y)) xs ys"
| "ct_accumulate r _ _ = r"

definition length_difference :: "string \<Rightarrow> string \<Rightarrow> byte" where
  "length_difference a b =
     ucast ((word_of_nat (length a) :: 64 word) XOR word_of_nat (length b))"

definition constant_time_equals :: "string \<Rightarrow> string \<Rightarrow> bool" where
  "constant_time_equals a b = (ct_accumulate (length_difference a b) a b = 0)"

subsection \<open>Client address\<close>

text \<open>\<open>rfind_comma\<close> is \<^verbatim>\<open>rfind(',')\<close>: the index of the last comma, if there is one.\<close>

fun rfind_comma :: "string \<Rightarrow> nat option" where
  "rfind_comma [] = None"
| "rfind_comma (c # s) =
     (case rfind_comma s of
        Some i \<Rightarrow> Some (Suc i)
      | None \<Rightarrow> if c = CHR '','' then Some 0 else None)"

definition is_ows :: "char \<Rightarrow> bool" where
  "is_ows c \<longleftrightarrow> c = CHR '' '' \<or> c = CHR 0x09"

definition trim_ows :: "string \<Rightarrow> string" where
  "trim_ows s = rev (dropWhile is_ows (rev (dropWhile is_ows s)))"

text \<open>The hop loop: each turn cuts the text at its last comma; \<open>None\<close> is the early return.\<close>

fun skip_hops :: "nat \<Rightarrow> string \<Rightarrow> string option" where
  "skip_hops 0 s = Some s"
| "skip_hops (Suc n) s =
     (case rfind_comma s of None \<Rightarrow> None | Some pos \<Rightarrow> skip_hops n (take pos s))"

definition extract_client_ip :: "string \<Rightarrow> string \<Rightarrow> bool \<Rightarrow> int \<Rightarrow> string" where
  "extract_client_ip forwarded_for remote_addr trust_proxy trusted_hops =
     (if \<not> trust_proxy \<or> forwarded_for = [] then remote_addr
      else case skip_hops (nat (trusted_hops - 1)) forwarded_for of
        None \<Rightarrow> remote_addr
      | Some remaining \<Rightarrow>
          let ip = (case rfind_comma remaining of
                      Some pos \<Rightarrow> drop (Suc pos) remaining
                    | None \<Rightarrow> remaining);
              ip = trim_ows ip
          in if ip = [] then remote_addr else ip)"

subsection \<open>Bearer tokens\<close>

record AuthResult =
  authenticated :: bool
  rate_limited :: bool
  retry_after_seconds :: int
  auth_error_code :: string
  auth_error_message :: string

definition default_AuthResult :: AuthResult where
  "default_AuthResult = \<lparr>authenticated = False, rate_limited = False,
     retry_after_seconds = 0, auth_error_code = [], auth_error_message = []\<rparr>"

definition bearer_prefix :: string where
  "bearer_prefix = ''Bearer ''"

definition check_bearer_auth :: "string \<Rightarrow> string \<Rightarrow> AuthResult" where
  "check_bearer_auth auth_header api_key =
     (let result = default_AuthResult in
      if auth_header = [] then
        result\<lparr>auth_error_code := ''invalid_api_key'',
          auth_error_message :=
            ''Missing Authorization header. Use: Authorization: Bearer <api_key>''\<rparr>
      else if length auth_header \<le> length bearer_prefix
          \<or> take (length bearer_prefix) auth_header \<noteq> bearer_prefix then
        result\<lparr>auth_error_code := ''invalid_api_key'',
          auth_error_message :=
            ''Invalid Authorization header format. Use: Authorization: Bearer <api_key>''\<rparr>
      else let token = drop (length bearer_prefix) auth_header in
        if \<not> constant_time_equals token api_key then
          result\<lparr>auth_error_code := ''invalid_api_key'',
            auth_error_message := ''Invalid API key provided.''\<rparr>
        else result\<lparr>authenticated := True\<rparr>)"

definition is_internal_endpoint :: "string \<Rightarrow> bool" where
  "is_internal_endpoint path \<longleftrightarrow> path = ''/health'' \<or> path = ''/ready'' \<or> path = ''/metrics''"

subsection \<open>Lemmas: the comparison\<close>

lemma ct_accumulate_zero:
  "ct_accumulate r a b = 0 \<longleftrightarrow>
     r = 0 \<and> take (min (length a) (length b)) a = take (min (length a) (length b)) b"
proof (induction r a b rule: ct_accumulate.induct)
  case (1 r x xs y ys)
  have "(of_char x :: byte) XOR of_char y = 0 \<longleftrightarrow> x = y"
    by (metis bit.xor_cancel_right bit.xor_left_self of_char_byte_eq_iff xor.comm_neutral)
  with 1 show ?case by (auto simp: or_eq_0_iff)
qed auto

lemma length_difference_zero:
  "length_difference a b = 0 \<longleftrightarrow> length a mod 256 = length b mod 256"
proof -
  let ?x = "take_bit 8 (length a)" and ?y = "take_bit 8 (length b)"
  have "unat (length_difference a b) = ?x XOR ?y"
    unfolding length_difference_def
    by (simp add: unsigned_ucast_eq unsigned_xor_eq unsigned_of_nat)
  then have "length_difference a b = 0 \<longleftrightarrow> ?x XOR ?y = 0"
    by (metis unat_eq_zero)
  also have "\<dots> \<longleftrightarrow> ?x = ?y"
    by (auto simp: bit_eq_iff bit_simps)
  finally show ?thesis by (simp add: take_bit_eq_mod)
qed

lemma constant_time_equals_iff:
  "constant_time_equals a b \<longleftrightarrow>
     length a mod 256 = length b mod 256
     \<and> take (min (length a) (length b)) a = take (min (length a) (length b)) b"
  by (simp add: constant_time_equals_def ct_accumulate_zero length_difference_zero)

lemma constant_time_equals_same_length:
  assumes "length a = length b"
  shows "constant_time_equals a b \<longleftrightarrow> a = b"
  using assms by (simp add: constant_time_equals_iff)

lemma constant_time_equals_refl [simp]: "constant_time_equals a a"
  by (simp add: constant_time_equals_iff)

subsection \<open>Lemmas: the forwarding header\<close>

text \<open>The reference reading of the header: its comma-separated entries.\<close>

fun split_commas :: "string \<Rightarrow> string list" where
  "split_commas [] = [[]]"
| "split_commas (c # s) =
     (if c = CHR '','' then [] # split_commas s
      else case split_commas s of [] \<Rightarrow> [] | e # es \<Rightarrow> (c # e) # es)"

lemma split_commas_nonempty [simp]: "split_commas s \<noteq> []"
  by (induction s) (auto split: list.splits)

lemma split_commas_no_comma: "CHR '','' \<notin> set s \<Longrightarrow> split_commas s = [s]"
  by (induction s) auto

lemma split_commas_append:
  "split_commas (u @ CHR '','' # v) = split_commas u @ split_commas v"
  by (induction u) (auto split: list.splits)

lemma rfind_comma_None: "rfind_comma s = None \<longleftrightarrow> CHR '','' \<notin> set s"
  by (induction s) (auto split: option.splits if_splits)

lemma rfind_comma_Some:
  "rfind_comma s = Some p \<Longrightarrow>
     s = take p s @ CHR '','' # drop (Suc p) s \<and> CHR '','' \<notin> set (drop (Suc p) s)"
proof (induction s arbitrary: p)
  case Nil
  then show ?case by simp
next
  case (Cons c s)
  then show ?case
    by (auto split: option.splits if_splits simp: rfind_comma_None)
qed

lemma split_commas_rfind:
  assumes "rfind_comma s = Some p"
  shows "split_commas s = split_commas (take p s) @ [drop (Suc p) s]"
  using rfind_comma_Some [OF assms]
  by (metis split_commas_append split_commas_no_comma)

lemma skip_hops_None: "length (split_commas s) \<le> n \<Longrightarrow> skip_hops n s = None"
proof (induction n arbitrary: s)
  case 0
  then show ?case by simp
next
  case (Suc n)
  show ?case
  proof (cases "rfind_comma s")
    case None
    then show ?thesis by simp
  next
    case (Some p)
    with Suc.prems have "length (split_commas (take p s)) \<le> n"
      by (simp add: split_commas_rfind)
    with Some Suc.IH show ?thesis by simp
  qed
qed

lemma skip_hops_Some:
  assumes "n < length (split_commas s)"
  shows "\<exists>r. skip_hops n s = Some r
     \<and> split_commas r = take (length (split_commas s) - n) (split_commas s)"
  using assms
proof (induction n arbitrary: s)
  case 0
  then show ?case by simp
next
  case (Suc n)
  show ?case
  proof (cases "rfind_comma s")
    case None
    then have "split_commas s = [s]" by (simp add: rfind_comma_None split_commas_no_comma)
    with Suc.prems show ?thesis by simp
  next
    case (Some p)
    then have sp: "split_commas s = split_commas (take p s) @ [drop (Suc p) s]"
      by (rule split_commas_rfind)
    with Suc.prems have "n < length (split_commas (take p s))" by simp
    from Suc.IH [OF this] obtain r where
      "skip_hops n (take p s) = Some r"
      "split_commas r = take (length (split_commas (take p s)) - n) (split_commas (take p s))"
      by blast
    with Some sp show ?thesis by simp
  qed
qed

lemma last_entry:
  "(case rfind_comma s of Some pos \<Rightarrow> drop (Suc pos) s | None \<Rightarrow> s) = last (split_commas s)"
proof (cases "rfind_comma s")
  case None
  then have "split_commas s = [s]" by (simp add: rfind_comma_None split_commas_no_comma)
  with None show ?thesis by simp
next
  case (Some pos)
  then show ?thesis by (simp add: split_commas_rfind)
qed

lemma extract_client_ip_entries:
  assumes "1 \<le> h" and "fwd \<noteq> []"
  shows "extract_client_ip fwd r True h =
    (let es = split_commas fwd; n = nat h in
     if n \<le> length es \<and> trim_ows (es ! (length es - n)) \<noteq> []
     then trim_ows (es ! (length es - n)) else r)"
proof -
  let ?es = "split_commas fwd" and ?n = "nat h"
  have m: "nat (h - 1) = ?n - 1" and pos: "1 \<le> ?n" using assms(1) by auto
  show ?thesis
  proof (cases "?n \<le> length ?es")
    case False
    then have "length ?es \<le> ?n - 1" by simp
    then have "skip_hops (?n - 1) fwd = None" by (rule skip_hops_None)
    with False assms(2) m show ?thesis by (simp add: extract_client_ip_def)
  next
    case True
    with pos have "?n - 1 < length ?es" by simp
    then obtain r' where r': "skip_hops (?n - 1) fwd = Some r'"
      "split_commas r' = take (length ?es - (?n - 1)) ?es"
      using skip_hops_Some by blast
    have "length ?es - (?n - 1) = Suc (length ?es - ?n)" using True pos by simp
    moreover have "length ?es - ?n < length ?es" using True pos by simp
    ultimately have "last (split_commas r') = ?es ! (length ?es - ?n)"
      using r'(2) by (simp add: take_Suc_conv_app_nth)
    with r'(1) True assms(2) m show ?thesis
      by (simp add: extract_client_ip_def last_entry Let_def)
  qed
qed

lemma check_bearer_auth_accepts:
  "authenticated (check_bearer_auth h key) \<longleftrightarrow>
     (\<exists>token. h = bearer_prefix @ token \<and> token \<noteq> [] \<and> constant_time_equals token key)"
proof -
  have *: "length bearer_prefix < length h \<and> take (length bearer_prefix) h = bearer_prefix
      \<longleftrightarrow> (\<exists>token. h = bearer_prefix @ token \<and> token \<noteq> [])"
    by (metis append_take_drop_id append_eq_conv_conj drop_eq_Nil2 not_le)
  show ?thesis
  proof (cases "\<exists>token. h = bearer_prefix @ token \<and> token \<noteq> []")
    case True
    then obtain token where t: "h = bearer_prefix @ token" "token \<noteq> []" by blast
    then have "h \<noteq> []" by simp
    with t show ?thesis
      by (simp add: check_bearer_auth_def default_AuthResult_def Let_def)
  next
    case False
    with * have "length h \<le> length bearer_prefix \<or> take (length bearer_prefix) h \<noteq> bearer_prefix"
      by auto
    then have "\<not> authenticated (check_bearer_auth h key)"
      by (simp add: check_bearer_auth_def default_AuthResult_def Let_def)
    with False show ?thesis by blast
  qed
qed

lemma check_bearer_auth_rejects:
  "\<not> authenticated (check_bearer_auth h key) \<Longrightarrow>
     auth_error_code (check_bearer_auth h key) = ''invalid_api_key''
     \<and> auth_error_message (check_bearer_auth h key) \<noteq> []"
  by (simp add: check_bearer_auth_def default_AuthResult_def Let_def split: if_splits)

subsection \<open>Properties\<close>

text \<open>C23. Which \<^verbatim>\<open>Authorization\<close> headers are let in, exactly: those that spell \<open>Bearer \<close>, then
  a non-empty token whose length agrees with the key's length modulo 256 and which agrees with
  the key on the bytes both have; every other header gets the error code
  \<^verbatim>\<open>invalid_api_key\<close> and a message. For keys and tokens shorter than 256 bytes this is
  equality with the key.\<close>

theorem bearer_auth_exact:
  "(authenticated (check_bearer_auth h key) \<longleftrightarrow>
     (\<exists>token. h = ''Bearer '' @ token \<and> token \<noteq> []
        \<and> length token mod 256 = length key mod 256
        \<and> take (min (length token) (length key)) token
            = take (min (length token) (length key)) key))
   \<and> (authenticated (check_bearer_auth h key)
      \<or> auth_error_code (check_bearer_auth h key) = ''invalid_api_key''
        \<and> auth_error_message (check_bearer_auth h key) \<noteq> [])"
  using check_bearer_auth_rejects [of h key]
  by (auto simp: check_bearer_auth_accepts constant_time_equals_iff bearer_prefix_def)

text \<open>For a key and a token of fewer than 256 bytes the check accepts the token exactly
  when it is the key.\<close>

theorem bearer_auth_short_key:
  assumes "length key < 256" and "length token < 256" and "token \<noteq> []"
  shows "authenticated (check_bearer_auth (''Bearer '' @ token) key) \<longleftrightarrow> token = key"
proof -
  have "authenticated (check_bearer_auth (''Bearer '' @ token) key)
      \<longleftrightarrow> constant_time_equals token key"
    using assms(3) check_bearer_auth_accepts [of "''Bearer '' @ token" key]
    by (simp add: bearer_prefix_def)
  also have "\<dots> \<longleftrightarrow> token = key"
    using assms(1,2) by (auto simp: constant_time_equals_iff)
  finally show ?thesis .
qed

theorem bearer_auth_short_key_witness:
  "authenticated (check_bearer_auth (''Bearer '' @ ''s3cret'') ''s3cret'')
   \<and> \<not> authenticated (check_bearer_auth (''Bearer '' @ ''guess'') ''s3cret'')"
  using bearer_auth_short_key [of "''s3cret''" "''s3cret''"]
    bearer_auth_short_key [of "''s3cret''" "''guess''"] by simp

text \<open>The length test keeps only the low byte of the difference of the lengths, so a key of
  256 or more bytes is accepted in a shortened form: any non-empty prefix that leaves out a
  multiple of 256 bytes authenticates, for a key of 257 bytes its first byte alone.\<close>

theorem bearer_auth_accepts_shortened_key:
  assumes "token \<noteq> []" and "length rest mod 256 = 0"
  shows "authenticated (check_bearer_auth (''Bearer '' @ token) (token @ rest))"
proof -
  have "constant_time_equals token (token @ rest)"
    using assms(2) by (auto simp: constant_time_equals_iff mod_0_imp_dvd)
  with assms(1) show ?thesis
    using check_bearer_auth_accepts [of "''Bearer '' @ token"] by (simp add: bearer_prefix_def)
qed

theorem bearer_auth_accepts_shortened_key_witness:
  "length (''k'' @ replicate 256 (CHR ''x'')) = 257
   \<and> authenticated (check_bearer_auth (''Bearer '' @ ''k'') (''k'' @ replicate 256 (CHR ''x'')))"
  using bearer_auth_accepts_shortened_key [of "''k''" "replicate 256 (CHR ''x'')"] by simp

text \<open>C24. With a trusted proxy the address is the entry of the forwarding header at the
  configured distance from its right end, with blanks trimmed; the socket address is used when
  there are too few entries or the entry is blank.\<close>

theorem client_ip_nth_from_right:
  assumes "1 \<le> hops" and "fwd \<noteq> []"
  shows "extract_client_ip fwd remote True hops =
    (let es = split_commas fwd; n = nat hops in
     if n \<le> length es \<and> trim_ows (es ! (length es - n)) \<noteq> []
     then trim_ows (es ! (length es - n)) else remote)"
  using assms by (rule extract_client_ip_entries)

theorem client_ip_nth_from_right_witness:
  "extract_client_ip ''1.1.1.1, 2.2.2.2, 3.3.3.3'' ''10.0.0.1'' True 2 = ''2.2.2.2''"
  using client_ip_nth_from_right [of 2 "''1.1.1.1, 2.2.2.2, 3.3.3.3''" "''10.0.0.1''"]
  by (simp add: trim_ows_def is_ows_def Let_def numeral_2_eq_2)

text \<open>C25. A client cannot choose the address it is counted under: whatever it writes to the left
  of the entries added by the trusted proxies is ignored, and without proxy trust the header is
  ignored altogether.\<close>

theorem client_ip_not_spoofable:
  assumes "1 \<le> hops" and "nat hops \<le> length (split_commas fwd)" and "fwd \<noteq> []"
  shows "extract_client_ip (forged @ CHR '','' # fwd) remote True hops
           = extract_client_ip fwd remote True hops
         \<and> extract_client_ip forged remote False hops = remote"
proof -
  let ?es = "split_commas fwd" and ?fs = "split_commas forged"
  have "(?fs @ ?es) ! (length ?fs + length ?es - nat hops) = ?es ! (length ?es - nat hops)"
    using assms(1,2) by (auto simp: nth_append intro: arg_cong [where f = "(!) ?es"])
  with assms show ?thesis
    by (simp add: extract_client_ip_entries split_commas_append Let_def)
      (simp add: extract_client_ip_def)
qed

theorem client_ip_not_spoofable_witness:
  "extract_client_ip (''6.6.6.6'' @ CHR '','' # ''1.2.3.4'') ''10.0.0.1'' True 1
     = extract_client_ip ''1.2.3.4'' ''10.0.0.1'' True 1
   \<and> extract_client_ip ''6.6.6.6'' ''10.0.0.1'' False 1 = ''10.0.0.1''"
  using client_ip_not_spoofable [of 1 "''1.2.3.4''" "''6.6.6.6''" "''10.0.0.1''"] by simp

end
