(* ===== verification/WindowCounter.thy ===== *)
theory WindowCounter
  imports Prelude
begin

text \<open>
  The contract the server's limiters share, independent of how they store their counters.
  A counter keeps, for every key, at most one window: how many hits it holds and when it was
  opened. \<open>bump\<close> is the specification of a hit: a key without a live window opens one, a key
  with one counts one more. \<open>windowed_counter\<close> lets an implementation forget windows (the
  authentication limiter evicts entries when its table is full); \<open>exact_counter\<close> does not, and
  adds the decision made at a hit.
\<close>

type_synonym window = "nat \<times> time_point"

definition bump ::
  "'k option \<Rightarrow> time_point \<Rightarrow> ('k \<Rightarrow> window option) \<Rightarrow> 'k \<Rightarrow> window option" where
  "bump hit now v k =
     (if hit = Some k
      then Some (case v k of None \<Rightarrow> (1, now) | Some (c, w) \<Rightarrow> (Suc c, w))
      else v k)"

definition hits_in :: "window option \<Rightarrow> nat" where
  "hits_in v = (case v of None \<Rightarrow> 0 | Some (c, w) \<Rightarrow> c)"

text \<open>The events of a run that the decision procedure lets through.\<close>

fun accepted :: "('e \<Rightarrow> 's \<Rightarrow> bool) \<Rightarrow> ('e \<Rightarrow> 's \<Rightarrow> 's) \<Rightarrow> 'e list \<Rightarrow> 's \<Rightarrow> 'e list" where
  "accepted acc hit [] s = []"
| "accepted acc hit (e # es) s =
     (if acc e s then e # accepted acc hit es (hit e s) else accepted acc hit es (hit e s))"

lemma accepted_append:
  "accepted acc hit (xs @ ys) s = accepted acc hit xs s @ accepted acc hit ys (fold hit xs s)"
  by (induction xs arbitrary: s) auto

lemma accepted_subset: "set (accepted acc hit es s) \<subseteq> set es"
  by (induction es arbitrary: s) auto

text \<open>A log of a run that started at \<open>t\<close> in \<open>s\<close> and has come to \<open>s'\<close> by \<open>u\<close>: some hits in the order of
  their times explain the state, and \<open>ps\<close> are the keys and times of those let through.\<close>

definition logged ::
  "('e \<Rightarrow> 's \<Rightarrow> 's) \<Rightarrow> ('e \<Rightarrow> 'k option) \<Rightarrow> ('e \<Rightarrow> time_point) \<Rightarrow> ('e \<Rightarrow> bool) \<Rightarrow> ('e \<Rightarrow> 's \<Rightarrow> bool)
     \<Rightarrow> time_point \<Rightarrow> 's \<Rightarrow> time_point \<Rightarrow> 's \<Rightarrow> ('k option \<times> time_point) multiset \<Rightarrow> bool" where
  "logged hit key_of time_of well accept t s u s' ps \<longleftrightarrow>
     (\<exists>es. sorted (t # map time_of es) \<and> t \<le> u \<and> (\<forall>e \<in> set es. well e \<and> time_of e \<le> u)
       \<and> s' = fold hit es s \<and> ps = mset (map (\<lambda>e. (key_of e, time_of e)) (accepted accept hit es s)))"

lemma logged_start [simp]: "logged hit key_of time_of well accept t s t s {#}"
  unfolding logged_def by (intro exI [of _ "[]"]) simp

lemma logged_later:
  "logged hit key_of time_of well accept t s u s' ps \<Longrightarrow> u \<le> v \<Longrightarrow> logged hit key_of time_of well accept t s v s' ps"
  unfolding logged_def by (blast intro: order_trans)

lemma logged_hit:
  assumes "logged hit key_of time_of well accept t s u s' ps" and "u \<le> time_of e" and "well e"
  shows "logged hit key_of time_of well accept t s (time_of e) (hit e s')
    (if accept e s' then add_mset (key_of e, time_of e) ps else ps)"
proof -
  obtain es where es: "sorted (t # map time_of es)" "t \<le> u" "\<forall>e \<in> set es. well e \<and> time_of e \<le> u"
    "s' = fold hit es s" "ps = mset (map (\<lambda>e. (key_of e, time_of e)) (accepted accept hit es s))"
    using assms(1) by (auto simp: logged_def)
  have "sorted (t # map time_of (es @ [e]))" using es(1-3) assms(2) by (fastforce simp: sorted_append)
  moreover have "t \<le> time_of e" "\<forall>x \<in> set (es @ [e]). well x \<and> time_of x \<le> time_of e"
    using es(2,3) assms(2,3) by fastforce+
  ultimately show ?thesis unfolding logged_def
    by (intro exI [of _ "es @ [e]"]) (simp add: es(4,5) accepted_append)
qed

locale windowed_counter =
  fixes hit :: "'e \<Rightarrow> 's \<Rightarrow> 's"
    and key_of :: "'e \<Rightarrow> 'k option"
    and time_of :: "'e \<Rightarrow> time_point"
    and well :: "'e \<Rightarrow> bool"
    and invar :: "time_point \<Rightarrow> 's \<Rightarrow> bool"
    and live :: "'s \<Rightarrow> time_point \<Rightarrow> 'k \<Rightarrow> window option"
    and span :: int
  assumes invar_later: "invar t s \<Longrightarrow> t \<le> u \<Longrightarrow> invar u s"
    and invar_hit: "invar t s \<Longrightarrow> t \<le> time_of e \<Longrightarrow> well e \<Longrightarrow> invar (time_of e) (hit e s)"
    and live_later: "invar t s \<Longrightarrow> t \<le> u \<Longrightarrow> live s u k =
      (case live s t k of None \<Rightarrow> None
       | Some (c, w) \<Rightarrow> if u - w \<le> span then Some (c, w) else None)"
    and live_started: "invar t s \<Longrightarrow> live s t k = Some (c, w) \<Longrightarrow> w \<le> t \<and> t - w \<le> span"
    and hit_live: "invar t s \<Longrightarrow> t \<le> time_of e \<Longrightarrow> well e \<Longrightarrow>
      live (hit e s) (time_of e) k
        \<in> {None, bump (key_of e) (time_of e) (live s (time_of e)) k}"
begin

abbreviation count :: "'s \<Rightarrow> time_point \<Rightarrow> 'k \<Rightarrow> nat" where
  "count s u k \<equiv> hits_in (live s u k)"

lemma count_hit:
  assumes "invar t s" and "t \<le> time_of e" and "well e" and "time_of e \<le> u"
  shows "count (hit e s) u k
    \<le> count s u k + (if key_of e = Some k \<and> u - time_of e \<le> span then 1 else 0)"
proof -
  let ?a = "time_of e"
  have inv: "invar ?a (hit e s)" using assms by (blast intro: invar_hit)
  have inva: "invar ?a s" using assms(1,2) by (rule invar_later)
  have later: "live (hit e s) u k = (case live (hit e s) ?a k of None \<Rightarrow> None
      | Some (c, w) \<Rightarrow> if u - w \<le> span then Some (c, w) else None)"
    using inv assms(4) by (rule live_later)
  have later0: "live s u k = (case live s ?a k of None \<Rightarrow> None
      | Some (c, w) \<Rightarrow> if u - w \<le> span then Some (c, w) else None)"
    using inva assms(4) by (rule live_later)
  show ?thesis
  proof (cases "live (hit e s) ?a k")
    case None
    then show ?thesis by (simp add: hits_in_def later)
  next
    case (Some cw)
    with hit_live [OF assms(1-3), of k]
    have b: "Some cw = bump (key_of e) ?a (live s ?a) k" by auto
    show ?thesis
    proof (cases "live s ?a k")
      case None
      with b Some show ?thesis by (auto simp: hits_in_def later bump_def split: if_splits)
    next
      case (Some p)
      obtain c w where p: "p = (c, w)" by (cases p)
      have "w \<le> ?a" using live_started [OF inva] Some p by blast
      with b Some p \<open>live (hit e s) ?a k = Some cw\<close> show ?thesis
        by (auto simp: hits_in_def later later0 bump_def split: if_splits)
    qed
  qed
qed

text \<open>The counter of a key never exceeds the hits of that key inside the last window span.\<close>

lemma counted_hits:
  "\<lbrakk>invar t s; sorted (t # map time_of es); \<forall>e \<in> set es. well e \<and> time_of e \<le> u; t \<le> u\<rbrakk>
    \<Longrightarrow> count (fold hit es s) u k
        \<le> count s u k + length (filter (\<lambda>e. key_of e = Some k \<and> u - time_of e \<le> span) es)"
proof (induction es arbitrary: t s)
  case Nil
  then show ?case by simp
next
  case (Cons e es)
  then have e: "t \<le> time_of e" "well e" "time_of e \<le> u" by auto
  have "count (fold hit es (hit e s)) u k \<le> count (hit e s) u k
      + length (filter (\<lambda>e. key_of e = Some k \<and> u - time_of e \<le> span) es)"
    by (rule Cons.IH [OF invar_hit [OF Cons.prems(1) e(1,2)]]) (use Cons.prems e in auto)
  moreover have "count (hit e s) u k
      \<le> count s u k + (if key_of e = Some k \<and> u - time_of e \<le> span then 1 else 0)"
    using Cons.prems(1) e by (rule count_hit)
  ultimately show ?case by (auto split: if_splits)
qed

lemma invar_fold:
  "\<lbrakk>invar t s; sorted (t # map time_of es); \<forall>e \<in> set es. well e \<and> time_of e \<le> u; t \<le> u\<rbrakk>
    \<Longrightarrow> invar u (fold hit es s)"
proof (induction es arbitrary: t s)
  case Nil
  then show ?case by (auto intro: invar_later)
next
  case (Cons e es)
  then have "invar (time_of e) (hit e s)" by (auto intro: invar_hit)
  then have "invar u (fold hit es (hit e s))" by (rule Cons.IH) (use Cons.prems in auto)
  then show ?case by simp
qed

end

locale exact_counter = windowed_counter +
  fixes accept :: "'a \<Rightarrow> 'b \<Rightarrow> bool"
    and limit :: nat
  assumes hit_live_eq: "invar t s \<Longrightarrow> t \<le> time_of e \<Longrightarrow> well e \<Longrightarrow>
      live (hit e s) (time_of e) = bump (key_of e) (time_of e) (live s (time_of e))"
    and accept_iff: "invar t s \<Longrightarrow> t \<le> time_of e \<Longrightarrow> well e \<Longrightarrow> key_of e = Some k \<Longrightarrow>
      accept e s \<longleftrightarrow> Suc (count s (time_of e) k) \<le> limit"
begin

abbreviation hits_until :: "'c \<Rightarrow> time_point \<Rightarrow> 'a list \<Rightarrow> nat" where
  "hits_until k u es \<equiv> length (filter (\<lambda>e. key_of e = Some k \<and> time_of e \<le> u) es)"

text \<open>Inside one live window at most the rest of the limit is let through.\<close>

lemma accepted_in_window:
  "\<lbrakk>invar t s; sorted (t # map time_of es); \<forall>e \<in> set es. well e;
    live s t k = Some (c, w); u \<le> w + span\<rbrakk>
    \<Longrightarrow> hits_until k u (accepted accept hit es s) \<le> limit - c"
proof (induction es arbitrary: t s c)
  case Nil
  then show ?case by simp
next
  case (Cons e es)
  let ?a = "time_of e"
  have e: "t \<le> ?a" "well e" and so: "sorted (?a # map time_of es)" using Cons.prems by auto
  have inv: "invar ?a (hit e s)" using Cons.prems(1) e by (rule invar_hit)
  have l: "live s ?a k = (if ?a - w \<le> span then Some (c, w) else None)"
    using live_later [OF Cons.prems(1) e(1), of k] Cons.prems(4) by simp
  show ?case
  proof (cases "?a \<le> u")
    case True
    then have la: "live s ?a k = Some (c, w)" using l Cons.prems(5) by simp
    have lh: "live (hit e s) ?a k = bump (key_of e) ?a (live s ?a) k"
      using hit_live_eq [OF Cons.prems(1) e] by simp
    show ?thesis
    proof (cases "key_of e = Some k")
      case True
      then have "live (hit e s) ?a k = Some (Suc c, w)" using lh la by (simp add: bump_def)
      with Cons.IH [OF inv so _ this Cons.prems(5)] Cons.prems(3)
      have "hits_until k u (accepted accept hit es (hit e s)) \<le> limit - Suc c" by simp
      moreover have "accept e s \<longleftrightarrow> Suc c \<le> limit"
        using accept_iff [OF Cons.prems(1) e True] la by (simp add: hits_in_def)
      ultimately show ?thesis using True by auto
    next
      case False
      then have "live (hit e s) ?a k = Some (c, w)" using lh la by (simp add: bump_def)
      with Cons.IH [OF inv so _ this Cons.prems(5)] Cons.prems(3) False show ?thesis by simp
    qed
  next
    case False
    have "\<forall>x \<in> set (e # es). \<not> time_of x \<le> u" using False so by auto
    then have "filter (\<lambda>x. key_of x = Some k \<and> time_of x \<le> u) (accepted accept hit (e # es) s) = []"
      using accepted_subset [of accept hit es "hit e s"] by (auto simp: filter_empty_conv)
    then show ?thesis by simp
  qed
qed

lemma accepted_fresh:
  "\<lbrakk>invar t s; sorted (t # map time_of es); \<forall>e \<in> set es. well e;
    live s t k = None; u \<le> t + span\<rbrakk>
    \<Longrightarrow> hits_until k u (accepted accept hit es s) \<le> limit"
proof (induction es arbitrary: t s)
  case Nil
  then show ?case by simp
next
  case (Cons e es)
  let ?a = "time_of e"
  have e: "t \<le> ?a" "well e" and so: "sorted (?a # map time_of es)" using Cons.prems by auto
  have inv: "invar ?a (hit e s)" using Cons.prems(1) e by (rule invar_hit)
  have la: "live s ?a k = None"
    using live_later [OF Cons.prems(1) e(1), of k] Cons.prems(4) by simp
  have lh: "live (hit e s) ?a k = bump (key_of e) ?a (live s ?a) k"
    using hit_live_eq [OF Cons.prems(1) e] by simp
  have u: "u \<le> ?a + span" using Cons.prems(5) e by simp
  show ?case
  proof (cases "key_of e = Some k")
    case True
    then have "live (hit e s) ?a k = Some (1, ?a)" using lh la by (simp add: bump_def)
    from accepted_in_window [OF inv so _ this u] Cons.prems(3)
    have "hits_until k u (accepted accept hit es (hit e s)) \<le> limit - 1" by simp
    moreover have "accept e s \<longleftrightarrow> 1 \<le> limit"
      using accept_iff [OF Cons.prems(1) e True] la by (simp add: hits_in_def)
    ultimately show ?thesis by auto
  next
    case False
    then have "live (hit e s) ?a k = None" using lh la by (simp add: bump_def)
    with Cons.IH [OF inv so _ this u] Cons.prems(3) False show ?thesis by simp
  qed
qed

lemma accepted_in_span:
  "\<lbrakk>invar t s; sorted (t # map time_of es); \<forall>e \<in> set es. well e; u \<le> t + span\<rbrakk>
    \<Longrightarrow> hits_until k u (accepted accept hit es s) \<le> (limit - count s t k) + limit"
proof (induction es arbitrary: t s)
  case Nil
  then show ?case by simp
next
  case (Cons e es)
  let ?a = "time_of e"
  have e: "t \<le> ?a" "well e" and so: "sorted (?a # map time_of es)" using Cons.prems by auto
  have inv: "invar ?a (hit e s)" using Cons.prems(1) e by (rule invar_hit)
  have inva: "invar ?a s" using Cons.prems(1) e(1) by (rule invar_later)
  have u: "u \<le> ?a + span" using Cons.prems(4) e by simp
  show ?case
  proof (cases "live s ?a k")
    case None
    have "hits_until k u (accepted accept hit (e # es) s) \<le> limit"
      by (rule accepted_fresh [OF inva _ _ None u]) (use Cons.prems in auto)
    then show ?thesis by simp
  next
    case (Some p)
    obtain c w where p: "p = (c, w)" by (cases p)
    have lt: "live s t k = Some (c, w)"
      using live_later [OF Cons.prems(1) e(1), of k] Some p by (auto split: option.splits if_splits)
    have lh: "live (hit e s) ?a k = bump (key_of e) ?a (live s ?a) k"
      using hit_live_eq [OF Cons.prems(1) e] by simp
    have IH: "hits_until k u (accepted accept hit es (hit e s))
        \<le> (limit - count (hit e s) ?a k) + limit"
      by (rule Cons.IH [OF inv so _ u]) (use Cons.prems in auto)
    have acc: "key_of e = Some k \<Longrightarrow> accept e s \<longleftrightarrow> Suc c \<le> limit"
      using accept_iff [OF Cons.prems(1) e] Some p by (simp add: hits_in_def)
    have ct: "count s t k = c" "count (hit e s) ?a k = (if key_of e = Some k then Suc c else c)"
      using lt lh Some p by (simp_all add: hits_in_def bump_def)
    show ?thesis using IH acc ct by (cases "key_of e = Some k") auto
  qed
qed

text \<open>No stretch of one window span ever holds more than twice the limit.\<close>

lemma accepted_at_most_twice:
  assumes "invar t s" and "sorted (t # map time_of es)" and "\<forall>e \<in> set es. well e" and "t \<le> t0"
  shows "length (filter (\<lambda>e. key_of e = Some k \<and> t0 \<le> time_of e \<and> time_of e \<le> t0 + span)
           (accepted accept hit es s)) \<le> 2 * limit"
proof -
  let ?P = "\<lambda>e. time_of e < t0"
  let ?xs = "takeWhile ?P es" and ?ys = "dropWhile ?P es"
  let ?Q = "\<lambda>e. key_of e = Some k \<and> t0 \<le> time_of e \<and> time_of e \<le> t0 + span"
  have so: "sorted (map time_of (?xs @ ?ys))" using assms(2) by simp
  then have sy: "sorted (map time_of ?ys)" and sx0: "sorted (map time_of ?xs)"
    unfolding map_append sorted_append by blast+
  have ys: "sorted (t0 # map time_of ?ys)"
  proof (cases ?ys)
    case Nil
    then show ?thesis unfolding Nil by simp
  next
    case (Cons y ys)
    then have "\<not> ?P y" using hd_dropWhile [of ?P es] by simp
    then show ?thesis using sy unfolding Cons by auto
  qed
  have wx: "\<forall>e \<in> set ?xs. well e \<and> time_of e \<le> t0" and wy: "\<forall>e \<in> set ?ys. well e"
    using assms(3) by (auto dest: set_takeWhileD set_dropWhileD)
  have sx: "sorted (t # map time_of ?xs)"
    using assms(2) sx0 by (auto dest: set_takeWhileD)
  let ?s = "fold hit ?xs s"
  have "invar t0 ?s" by (rule invar_fold [OF assms(1) sx wx assms(4)])
  then have n: "hits_until k (t0 + span) (accepted accept hit ?ys ?s) \<le> 2 * limit"
    using accepted_in_span [OF _ ys wy, of ?s "t0 + span" k] by simp
  have x0: "filter ?Q (accepted accept hit ?xs s) = []"
    using accepted_subset [of accept hit ?xs s] by (fastforce simp: filter_empty_conv dest: set_takeWhileD)
  have "accepted accept hit es s = accepted accept hit ?xs s @ accepted accept hit ?ys ?s"
    using accepted_append [of accept hit ?xs ?ys s] by simp
  then have "length (filter ?Q (accepted accept hit es s))
      = length (filter ?Q (accepted accept hit ?ys ?s))"
    using x0 by simp
  also have "\<dots> \<le> hits_until k (t0 + span) (accepted accept hit ?ys ?s)"
    by (rule length_filter_mono) auto
  finally show ?thesis using n by simp
qed

lemma logged_at_most_twice:
  assumes "invar t s" and "logged hit key_of time_of well accept t s u s' ps"
  shows "size {#p \<in># ps. fst p = Some k \<and> t0 \<le> snd p \<and> snd p \<le> t0 + span#} \<le> 2 * limit"
proof -
  obtain es where es: "sorted (t # map time_of es)" "\<forall>e \<in> set es. well e"
    "ps = mset (map (\<lambda>e. (key_of e, time_of e)) (accepted accept hit es s))"
    using assms(2) by (auto simp: logged_def)
  let ?as = "accepted accept hit es s" and ?m = "max t t0"
  have later: "t \<le> time_of e" if "e \<in> set ?as" for e
    using that es(1) accepted_subset [of accept hit es s] by auto
  have "size {#p \<in># ps. fst p = Some k \<and> t0 \<le> snd p \<and> snd p \<le> t0 + span#}
      = length (filter (\<lambda>e. key_of e = Some k \<and> t0 \<le> time_of e \<and> time_of e \<le> t0 + span) ?as)"
    unfolding es(3) size_filter_mset_map by simp
  also have "\<dots> \<le> length (filter (\<lambda>e. key_of e = Some k \<and> ?m \<le> time_of e \<and> time_of e \<le> ?m + span) ?as)"
    using later by (intro length_filter_mono) auto
  also have "\<dots> \<le> 2 * limit"
    using assms(1) es(1,2) by (rule accepted_at_most_twice) simp
  finally show ?thesis .
qed

text \<open>A key with fewer hits than the limit in the last window span is let through.\<close>

lemma accept_under_quota:
  assumes "invar t s" and "sorted (t # map time_of es @ [time_of e])"
    and "\<forall>x \<in> set (es @ [e]). well x" and "key_of e = Some k" and "live s t k = None"
    and "length (filter (\<lambda>x. key_of x = Some k \<and> time_of e - time_of x \<le> span) es) < limit"
  shows "accept e (fold hit es s)"
proof -
  let ?a = "time_of e"
  have w: "\<forall>x \<in> set es. well x \<and> time_of x \<le> ?a" and ta: "t \<le> ?a" and e: "well e"
    using assms(2,3) by (auto simp: sorted_append)
  have so: "sorted (t # map time_of es)" using assms(2) by (simp add: sorted_append)
  have "live s ?a k = None" using live_later [OF assms(1) ta] assms(5) by simp
  then have "count (fold hit es s) ?a k
      \<le> length (filter (\<lambda>x. key_of x = Some k \<and> ?a - time_of x \<le> span) es)"
    using counted_hits [OF assms(1) so w ta, of k] by (simp add: hits_in_def)
  then have "Suc (count (fold hit es s) ?a k) \<le> limit" using assms(6) by simp
  moreover have "invar ?a (fold hit es s)" by (rule invar_fold [OF assms(1) so w ta])
  ultimately show ?thesis using accept_iff [OF _ order_refl e assms(4)] by blast
qed

text \<open>Hits of one key at one moment are all let through while they fit in the limit.\<close>

lemma accepted_batch:
  "\<lbrakk>invar t s; t \<le> a; well e; time_of e = a; key_of e = Some k;
    hits_in (live s a k) + n \<le> limit\<rbrakk>
    \<Longrightarrow> accepted accept hit (replicate n e) s = replicate n e
      \<and> invar a (fold hit (replicate n e) s)
      \<and> (0 < n \<longrightarrow> live (fold hit (replicate n e) s) a k =
           Some (hits_in (live s a k) + n, case live s a k of None \<Rightarrow> a | Some (c, w) \<Rightarrow> w))"
proof (induction n arbitrary: s t)
  case 0
  then show ?case by (auto intro: invar_later)
next
  case (Suc n)
  have te: "t \<le> time_of e" using Suc.prems by simp
  have acc: "accept e s"
    using accept_iff [OF Suc.prems(1) te Suc.prems(3,5)] Suc.prems(4,6) by simp
  have inv: "invar a (hit e s)" using invar_hit [OF Suc.prems(1) te Suc.prems(3)] Suc.prems(4) by simp
  have l: "live (hit e s) a k = Some (Suc (hits_in (live s a k)),
      case live s a k of None \<Rightarrow> a | Some (c, w) \<Rightarrow> w)"
    using hit_live_eq [OF Suc.prems(1) te Suc.prems(3)] Suc.prems(4,5)
    by (auto simp: bump_def hits_in_def split: option.splits)
  have "hits_in (live (hit e s) a k) + n \<le> limit" using l Suc.prems(6) by (simp add: hits_in_def)
  from Suc.IH [OF inv order_refl Suc.prems(3-5) this] acc l show ?case
    by (cases "n = 0") (auto simp: hits_in_def)
qed

text \<open>
  The windows do not slide: a batch at the end of one window and a batch at the start of the
  next are both let through.
\<close>

lemma accepted_burst:
  assumes "invar t s" and "live s t k = None" and "1 \<le> limit" and "0 \<le> span"
    and "well e0" and "key_of e0 = Some k" and "time_of e0 = t"
    and "well e1" and "key_of e1 = Some k" and "time_of e1 = t + span"
    and "well e2" and "key_of e2 = Some k" and "time_of e2 = t + span + 1"
  shows "accepted accept hit ([e0] @ replicate (limit - 1) e1 @ replicate limit e2) s
    = [e0] @ replicate (limit - 1) e1 @ replicate limit e2"
proof -
  let ?s1 = "hit e0 s" and ?b = "t + span" and ?c = "t + span + 1"
  let ?s2 = "fold hit (replicate (limit - 1) e1) ?s1"
  have b0: "accepted accept hit (replicate 1 e0) s = replicate 1 e0 \<and> invar t ?s1
      \<and> live ?s1 t k = Some (1, t)"
    using accepted_batch [OF assms(1) order_refl assms(5,7,6), of 1] assms(2,3)
    by (simp add: hits_in_def)
  then have i1: "invar t ?s1" and l1: "live ?s1 t k = Some (1, t)" by auto
  have l1b: "live ?s1 ?b k = Some (1, t)"
    using live_later [OF i1, of ?b k] l1 assms(4) by simp
  have b1: "accepted accept hit (replicate (limit - 1) e1) ?s1 = replicate (limit - 1) e1
      \<and> invar ?b ?s2 \<and> (\<exists>c. live ?s2 ?b k = Some (c, t))"
    using accepted_batch [OF i1 _ assms(8,10,9), of "limit - 1"] assms(3,4) l1b
    by (cases "limit - 1 = 0") (auto simp: hits_in_def)
  then obtain c where i2: "invar ?b ?s2" and l2: "live ?s2 ?b k = Some (c, t)" by blast
  have "live ?s2 ?c k = None" using live_later [OF i2, of ?c k] l2 by simp
  then have b2: "accepted accept hit (replicate limit e2) ?s2 = replicate limit e2"
    using accepted_batch [OF i2 _ assms(11,13,12), of limit] by (simp add: hits_in_def)
  have "accept e0 s" using b0 by (simp split: if_splits)
  then show ?thesis using b1 b2 by (simp add: accepted_append)
qed

end

end
