(* ===== verification/RateLimit.thy ===== *)
theory RateLimit
  imports WindowCounter
begin

text \<open>
  The two per-address limiters of \<^verbatim>\<open>include/tts/auth.hpp\<close>: \<^verbatim>\<open>AuthRateLimiter\<close>, which counts
  authentication failures and caps its table by evicting the oldest entries, and
  \<^verbatim>\<open>RequestRateLimiter\<close>, which counts requests per minute and drops expired entries only.

  Each operation runs under the limiter's mutex, so it is one atomic state transformer. Its
  arguments give what the environment decides: \<open>now\<close> is the clock value the operation reads,
  \<open>fresh\<close> the value the default initialiser of a new table entry reads, and \<open>order\<close> the
  iteration order a table has after an insertion (\<^verbatim>\<open>std::unordered_map\<close> may rehash).

  The contract the two limiters share is the locale \<open>windowed_counter\<close>; the stronger one only
  the request limiter meets is \<open>exact_counter\<close>.
\<close>

subsection \<open>Table access\<close>

definition is_reorder :: "('v list \<Rightarrow> 'v list) \<Rightarrow> bool" where
  "is_reorder order \<longleftrightarrow> (\<forall>m. mset (order m) = mset m)"

text \<open>\<^verbatim>\<open>auto& state = ip_states_[ip]\<close>: the entry, inserted with its default when missing.\<close>

definition subscript ::
  "((string \<times> 'v) list \<Rightarrow> (string \<times> 'v) list) \<Rightarrow> 'v \<Rightarrow> string \<Rightarrow> (string \<times> 'v) list
     \<Rightarrow> 'v \<times> (string \<times> 'v) list" where
  "subscript order d ip m =
     (case lookup m ip of Some st \<Rightarrow> (st, m) | None \<Rightarrow> (d, order (m @ [(ip, d)])))"

subsection \<open>AuthRateLimiter\<close>

record AuthIpState =
  failures :: nat
  failure_window_start :: time_point

record AuthRateLimiter =
  max_failures :: nat
  window_secs :: int
  auth_max_tracked_ips :: nat
  auth_ip_states :: "(string \<times> AuthIpState) list"

definition auth_expired :: "AuthRateLimiter \<Rightarrow> time_point \<Rightarrow> AuthIpState \<Rightarrow> bool" where
  "auth_expired lim now st \<longleftrightarrow> now - failure_window_start st > window_secs lim * ns_per_sec"

text \<open>The inner scan of \<^verbatim>\<open>evict_to_cap\<close>: the first entry no other entry is older than.\<close>

fun find_oldest :: "string \<times> AuthIpState \<Rightarrow> (string \<times> AuthIpState) list \<Rightarrow> string \<times> AuthIpState"
where
  "find_oldest oldest [] = oldest"
| "find_oldest oldest (it # its) =
     find_oldest (if failure_window_start (snd it) < failure_window_start (snd oldest)
                  then it else oldest) its"

lemma find_oldest_in: "find_oldest e m \<in> insert e (set m)"
  by (induction m arbitrary: e) (auto split: if_splits)

lemma find_oldest_le:
  "x \<in> insert e (set m) \<Longrightarrow>
     failure_window_start (snd (find_oldest e m)) \<le> failure_window_start (snd x)"
proof (induction m arbitrary: e x)
  case Nil
  then show ?case by simp
next
  case (Cons a m)
  let ?e = "if failure_window_start (snd a) < failure_window_start (snd e) then a else e"
  have "failure_window_start (snd (find_oldest ?e m)) \<le> failure_window_start (snd ?e)"
    by (rule Cons.IH) simp
  moreover have "x \<in> set m \<Longrightarrow>
      failure_window_start (snd (find_oldest ?e m)) \<le> failure_window_start (snd x)"
    by (rule Cons.IH) simp
  ultimately show ?case using Cons.prems by (auto split: if_splits)
qed

lemma length_erase_less: "k \<in> fst ` set m \<Longrightarrow> length (erase k m) < length m"
  by (induction m) (auto simp: le_imp_less_Suc length_delete_le)

text \<open>The outer loop of the second phase: drop the oldest entry while over the cap.\<close>

function evict_oldest :: "nat \<Rightarrow> (string \<times> AuthIpState) list \<Rightarrow> (string \<times> AuthIpState) list" where
  "evict_oldest cap m =
     (if length m > cap
      then case m of [] \<Rightarrow> m
           | e # _ \<Rightarrow> evict_oldest cap (erase (fst (find_oldest e m)) m)
      else m)"
  by pat_completeness auto
termination
proof (relation "measure (\<lambda>(cap, m). length m)")
  fix cap :: nat and m :: "(string \<times> AuthIpState) list" and e es
  assume "m = e # es"
  then have "find_oldest e m \<in> set m" using find_oldest_in [of e m] by auto
  then have "fst (find_oldest e m) \<in> fst ` set m" by (rule imageI)
  then show "((cap, erase (fst (find_oldest e m)) m), cap, m) \<in> measure (\<lambda>(cap, m). length m)"
    by (simp add: length_erase_less)
qed simp

declare evict_oldest.simps [simp del]

definition evict_to_cap :: "time_point \<Rightarrow> AuthRateLimiter \<Rightarrow> AuthRateLimiter" where
  "evict_to_cap now lim =
     (let live = filter (\<lambda>(ip, st). \<not> auth_expired lim now st) (auth_ip_states lim)
      in lim\<lparr>auth_ip_states := evict_oldest (auth_max_tracked_ips lim) live\<rparr>)"

definition check_and_record_failure ::
  "((string \<times> AuthIpState) list \<Rightarrow> (string \<times> AuthIpState) list) \<Rightarrow> time_point \<Rightarrow> time_point
     \<Rightarrow> string \<Rightarrow> AuthRateLimiter \<Rightarrow> bool \<times> AuthRateLimiter" where
  "check_and_record_failure order now fresh ip lim =
     (let (state, m) = subscript order \<lparr>failures = 0, failure_window_start = fresh\<rparr> ip
                         (auth_ip_states lim);
          state = (if auth_expired lim now state
                   then \<lparr>failures = 0, failure_window_start = now\<rparr> else state);
          state = state\<lparr>failures := failures state + 1\<rparr>;
          blocked = (failures state > max_failures lim);
          lim = lim\<lparr>auth_ip_states := put ip state m\<rparr>;
          lim = (if auth_max_tracked_ips lim > 0
                     \<and> length (auth_ip_states lim) > auth_max_tracked_ips lim
                 then evict_to_cap now lim else lim)
      in (blocked, lim))"

definition is_blocked ::
  "time_point \<Rightarrow> string \<Rightarrow> AuthRateLimiter \<Rightarrow> bool \<times> AuthRateLimiter" where
  "is_blocked now ip lim =
     (case lookup (auth_ip_states lim) ip of
        None \<Rightarrow> (False, lim)
      | Some st \<Rightarrow>
          if auth_expired lim now st
          then (False, lim\<lparr>auth_ip_states := erase ip (auth_ip_states lim)\<rparr>)
          else (failures st > max_failures lim, lim))"

definition auth_limiter_size :: "AuthRateLimiter \<Rightarrow> nat" where
  "auth_limiter_size lim = length (auth_ip_states lim)"

subsection \<open>RequestRateLimiter\<close>

record RequestIpState =
  requests :: nat
  request_window_start :: time_point

record RequestRateLimiter =
  max_rpm :: nat
  request_max_tracked_ips :: nat
  request_ip_states :: "(string \<times> RequestIpState) list"

definition elapsed_seconds :: "time_point \<Rightarrow> RequestIpState \<Rightarrow> int" where
  "elapsed_seconds now st = to_seconds (now - request_window_start st)"

definition check_request ::
  "((string \<times> RequestIpState) list \<Rightarrow> (string \<times> RequestIpState) list) \<Rightarrow> time_point \<Rightarrow> time_point
     \<Rightarrow> string \<Rightarrow> RequestRateLimiter \<Rightarrow> int \<times> RequestRateLimiter" where
  "check_request order now fresh ip lim =
     (let (state, m) = subscript order \<lparr>requests = 0, request_window_start = fresh\<rparr> ip
                         (request_ip_states lim);
          elapsed = elapsed_seconds now state;
          state = (if elapsed \<ge> 60 then \<lparr>requests = 0, request_window_start = now\<rparr> else state);
          state = state\<lparr>requests := requests state + 1\<rparr>;
          m = put ip state m
      in if requests state > max_rpm lim then
           let remaining = 60 - elapsed;
               remaining = (if remaining \<le> 0 then 1 else remaining)
           in (remaining, lim\<lparr>request_ip_states := m\<rparr>)
         else
           let m = (if request_max_tracked_ips lim > 0 \<and> length m > request_max_tracked_ips lim
                    then filter (\<lambda>(ip, st). \<not> elapsed_seconds now st \<ge> 60) m else m)
           in (0, lim\<lparr>request_ip_states := m\<rparr>))"

definition request_limiter_size :: "RequestRateLimiter \<Rightarrow> nat" where
  "request_limiter_size lim = length (request_ip_states lim)"

subsection \<open>Lemmas: table access\<close>

lemma subscript_entry:
  "subscript order d ip m = (st, m') \<Longrightarrow>
     st = (case lookup m ip of Some s \<Rightarrow> s | None \<Rightarrow> d)"
  by (auto simp: subscript_def split: option.splits)

lemma subscript_table:
  assumes "is_reorder order" and "distinct_keys m" and "subscript order d ip m = (st, m')"
  shows "distinct_keys m'" and "lookup m' = (lookup m)(ip \<mapsto> st)"
    and "length m' = (if lookup m ip = None then Suc (length m) else length m)"
proof -
  have "distinct_keys m' \<and> lookup m' = (lookup m)(ip \<mapsto> st)
    \<and> length m' = (if lookup m ip = None then Suc (length m) else length m)"
  proof (cases "lookup m ip")
    case (Some s)
    with assms show ?thesis by (auto simp: subscript_def)
  next
    case None
    let ?m = "m @ [(ip, d)]"
    have d: "distinct_keys ?m"
      using None assms(2) by (simp add: distinct_keys_def map_of_eq_None_iff)
    have m': "m' = order ?m" and st: "st = d"
      using None assms(3) by (auto simp: subscript_def)
    have p: "mset m' = mset ?m" using assms(1) m' by (simp add: is_reorder_def)
    have "lookup ?m = (lookup m)(ip \<mapsto> d)"
      using None by (auto simp: map_add_def split: option.splits)
    moreover have "length m' = Suc (length m)"
      using p by (metis length_append_singleton size_mset)
    ultimately show ?thesis
      using d p None st lookup_perm [OF p d] distinct_keys_perm [OF p]
      by (auto simp del: map_of_append)
  qed
  then show "distinct_keys m'" and "lookup m' = (lookup m)(ip \<mapsto> st)"
    and "length m' = (if lookup m ip = None then Suc (length m) else length m)" by auto
qed

lemma put_subscript:
  assumes "is_reorder order" and "distinct_keys m" and "subscript order d ip m = (st, m')"
  shows "distinct_keys (put ip v m')" and "lookup (put ip v m') = (lookup m)(ip \<mapsto> v)"
    and "length (put ip v m') = (if lookup m ip = None then Suc (length m) else length m)"
  using subscript_table [OF assms] by (simp_all add: lookup_put length_put fun_eq_iff)

subsection \<open>Lemmas: eviction\<close>

lemma set_erase: "distinct_keys m \<Longrightarrow> set (erase k m) = {e \<in> set m. fst e \<noteq> k}"
  by (auto simp: AList.delete_eq)

lemma evict_oldest_stop: "length m \<le> cap \<Longrightarrow> evict_oldest cap m = m"
  by (subst evict_oldest.simps) simp

lemma evict_oldest_step:
  assumes "cap < length m"
  shows "evict_oldest cap m = evict_oldest cap (erase (fst (find_oldest (hd m) m)) m)"
proof -
  obtain e es where "m = e # es" using assms by (cases m) auto
  with assms show ?thesis by (subst evict_oldest.simps) simp
qed

lemma find_oldest_hd: "m \<noteq> [] \<Longrightarrow> find_oldest (hd m) m \<in> set m"
  using find_oldest_in [of "hd m" m] by auto

lemma find_oldest_hd_le:
  "x \<in> set m \<Longrightarrow> failure_window_start (snd (find_oldest (hd m) m)) \<le> failure_window_start (snd x)"
  by (rule find_oldest_le) simp

text \<open>Induction over the eviction loop, one case per turn.\<close>

lemma evict_oldest_induct [case_names stop step]:
  assumes stop: "\<And>m. length m \<le> cap \<Longrightarrow> P m"
    and step: "\<And>m. cap < length m \<Longrightarrow> find_oldest (hd m) m \<in> set m
      \<Longrightarrow> P (erase (fst (find_oldest (hd m) m)) m) \<Longrightarrow> P m"
  shows "P m"
proof (induction m rule: length_induct)
  case (1 m)
  show ?case
  proof (cases "length m \<le> cap")
    case True
    then show ?thesis by (rule stop)
  next
    case False
    then have in_m: "find_oldest (hd m) m \<in> set m" by (intro find_oldest_hd) auto
    then have "length (erase (fst (find_oldest (hd m) m)) m) < length m"
      by (intro length_erase_less imageI)
    then have "P (erase (fst (find_oldest (hd m) m)) m)" using 1 by blast
    with False in_m show ?thesis by (intro step [of m]) simp_all
  qed
qed

lemma evict_oldest_distinct: "distinct_keys m \<Longrightarrow> distinct_keys (evict_oldest cap m)"
proof (induction m rule: evict_oldest_induct [where cap = cap])
  case (stop m)
  then show ?case by (simp add: evict_oldest_stop)
next
  case (step m)
  then show ?case by (simp add: evict_oldest_step [OF step.hyps(1)])
qed

lemma evict_oldest_subset: "distinct_keys m \<Longrightarrow> set (evict_oldest cap m) \<subseteq> set m"
proof (induction m rule: evict_oldest_induct [where cap = cap])
  case (stop m)
  then show ?case by (simp add: evict_oldest_stop)
next
  case (step m)
  then show ?case by (auto simp: evict_oldest_step [OF step.hyps(1)] set_erase)
qed

lemma length_erase:
  "distinct_keys m \<Longrightarrow> k \<in> fst ` set m \<Longrightarrow> length (erase k m) = length m - 1"
proof (induction m)
  case Nil
  then show ?case by simp
next
  case (Cons a m)
  show ?case
  proof (cases "fst a = k")
    case True
    with Cons.prems show ?thesis by (auto simp: distinct_keys_def)
  next
    case False
    with Cons.prems have k: "k \<in> fst ` set m" and d: "distinct_keys m"
      by (auto simp: distinct_keys_def)
    then have "0 < length m" by auto
    with False Cons.IH [OF d k] show ?thesis by simp
  qed
qed

lemma evict_oldest_length:
  "distinct_keys m \<Longrightarrow> length (evict_oldest cap m) = min cap (length m)"
proof (induction m rule: evict_oldest_induct [where cap = cap])
  case (stop m)
  then show ?case by (simp add: evict_oldest_stop)
next
  case (step m)
  then have "length (erase (fst (find_oldest (hd m) m)) m) = length m - 1"
    by (intro length_erase imageI) auto
  with step show ?case by (simp add: evict_oldest_step [OF step.hyps(1)])
qed

text \<open>What is dropped is never younger than what is kept.\<close>

lemma evict_oldest_order:
  "\<lbrakk>distinct_keys m; x \<in> set m; x \<notin> set (evict_oldest cap m); y \<in> set (evict_oldest cap m)\<rbrakk>
    \<Longrightarrow> failure_window_start (snd x) \<le> failure_window_start (snd y)"
proof (induction m rule: evict_oldest_induct [where cap = cap])
  case (stop m)
  then show ?case by (simp add: evict_oldest_stop)
next
  case (step m)
  let ?o = "find_oldest (hd m) m"
  let ?m = "erase (fst ?o) m"
  have y: "y \<in> set (evict_oldest cap ?m)" and x: "x \<notin> set (evict_oldest cap ?m)"
    using step.prems by (simp_all add: evict_oldest_step [OF step.hyps(1)])
  have ym: "y \<in> set m"
    using y evict_oldest_subset [of ?m cap] step.prems(1) by (auto simp: set_erase)
  show ?case
  proof (cases "fst x = fst ?o")
    case True
    then have "x = ?o" using step.prems(1,2) step.hyps(2)
      by (metis distinct_keys_def eq_key_imp_eq_value prod.collapse)
    then show ?thesis using ym by (simp add: find_oldest_hd_le)
  next
    case False
    then have "x \<in> set ?m" using step.prems by (simp add: set_erase)
    then show ?thesis using step.IH x y step.prems(1) by simp
  qed
qed

subsection \<open>The request limiter meets the exact contract\<close>

text \<open>A call reads the clock for its tests, and once more for the start of the window if it makes a new
  entry. \<open>req_time\<close> is the moment at which the window sees the call: the second reading for a new
  entry, the only one for an entry that is there. \<open>req_now\<close> is the first reading of a new entry.\<close>

definition first_reading :: "time_point \<Rightarrow> time_point \<Rightarrow> (string \<times> 'v) list \<Rightarrow> string \<Rightarrow> time_point" where
  "first_reading now time m ip = (if lookup m ip = None then now else time)"

definition seen_at :: "time_point \<Rightarrow> time_point \<Rightarrow> (string \<times> 'v) list \<Rightarrow> string \<Rightarrow> time_point" where
  "seen_at now fresh m ip = (if lookup m ip = None then fresh else now)"

lemma first_reading_le [simp]: "now \<le> time \<Longrightarrow> first_reading now time m ip \<le> time"
  by (simp add: first_reading_def)

lemma seen_at_range: "now \<le> fresh \<Longrightarrow> now \<le> seen_at now fresh m ip \<and> seen_at now fresh m ip \<le> fresh"
  by (simp add: seen_at_def)

lemma readings_same [simp]: "seen_at now now m ip = now" "first_reading now now m ip = now"
  by (simp_all add: seen_at_def first_reading_def)

record request_event =
  req_order :: "(string \<times> RequestIpState) list \<Rightarrow> (string \<times> RequestIpState) list"
  req_now :: time_point
  req_time :: time_point
  req_ip :: string

definition request_well :: "request_event \<Rightarrow> bool" where
  "request_well e \<longleftrightarrow> is_reorder (req_order e) \<and> req_now e \<le> req_time e"

lemma request_well_simps [simp]:
  "request_well \<lparr>req_order = order, req_now = now, req_time = time, req_ip = ip\<rparr> \<longleftrightarrow> is_reorder order \<and> now \<le> time"
  by (simp add: request_well_def)

definition request_call :: "request_event \<Rightarrow> RequestRateLimiter \<Rightarrow> int \<times> RequestRateLimiter" where
  "request_call e lim = check_request (req_order e)
     (first_reading (req_now e) (req_time e) (request_ip_states lim) (req_ip e)) (req_time e) (req_ip e) lim"

definition request_hit :: "request_event \<Rightarrow> RequestRateLimiter \<Rightarrow> RequestRateLimiter" where
  "request_hit e lim = snd (request_call e lim)"

definition request_passes :: "request_event \<Rightarrow> RequestRateLimiter \<Rightarrow> bool" where
  "request_passes e lim \<longleftrightarrow> fst (request_call e lim) = 0"

text \<open>Every call is such an event.\<close>

lemma check_request_known:
  "lookup (request_ip_states lim) ip \<noteq> None
     \<Longrightarrow> check_request order now fresh ip lim = check_request order now fresh' ip lim"
  by (auto simp: check_request_def subscript_def Let_def)

definition request_of_call ::
  "((string \<times> RequestIpState) list \<Rightarrow> (string \<times> RequestIpState) list) \<Rightarrow> time_point \<Rightarrow> time_point \<Rightarrow> string
     \<Rightarrow> RequestRateLimiter \<Rightarrow> request_event" where
  "request_of_call order now fresh ip lim =
     \<lparr>req_order = order, req_now = now, req_time = seen_at now fresh (request_ip_states lim) ip, req_ip = ip\<rparr>"

lemma request_of_call_simps [simp]:
  "req_order (request_of_call order now fresh ip lim) = order"
  "req_time (request_of_call order now fresh ip lim) = seen_at now fresh (request_ip_states lim) ip"
  "req_ip (request_of_call order now fresh ip lim) = ip"
  "request_well (request_of_call order now fresh ip lim)
     \<longleftrightarrow> is_reorder order \<and> now \<le> seen_at now fresh (request_ip_states lim) ip"
  by (simp_all add: request_of_call_def request_well_def)

lemma check_request_call: "check_request order now fresh ip lim = request_call (request_of_call order now fresh ip lim) lim"
  using check_request_known [of lim ip order now fresh now]
  by (simp add: request_call_def request_of_call_def seen_at_def first_reading_def)

text \<open>A window is live for one minute, counted in whole seconds.\<close>

definition minute_span :: int where
  "minute_span = 60 * ns_per_sec - 1"

definition request_live ::
  "RequestRateLimiter \<Rightarrow> time_point \<Rightarrow> string \<Rightarrow> window option" where
  "request_live lim now ip =
     (case lookup (request_ip_states lim) ip of
        None \<Rightarrow> None
      | Some st \<Rightarrow> if elapsed_seconds now st \<ge> 60 then None
                   else Some (requests st, request_window_start st))"

definition request_inv :: "nat \<Rightarrow> time_point \<Rightarrow> RequestRateLimiter \<Rightarrow> bool" where
  "request_inv limit now lim \<longleftrightarrow>
     max_rpm lim = limit \<and> distinct_keys (request_ip_states lim)
     \<and> (\<forall>ip st. lookup (request_ip_states lim) ip = Some st
           \<longrightarrow> request_window_start st \<le> now)"

lemma elapsed_expired:
  "60 \<le> elapsed_seconds now st \<longleftrightarrow> minute_span < now - request_window_start st"
  using to_seconds_ge_iff [of 60 "now - request_window_start st"]
  by (auto simp: elapsed_seconds_def minute_span_def)

text \<open>The state of the entry after the call, and the table before the sweep.\<close>

definition request_entry :: "time_point \<Rightarrow> time_point \<Rightarrow> RequestRateLimiter \<Rightarrow> string \<Rightarrow> RequestIpState"
where
  "request_entry now fresh lim ip =
     (let st = (case lookup (request_ip_states lim) ip of
                  Some s \<Rightarrow> s | None \<Rightarrow> \<lparr>requests = 0, request_window_start = fresh\<rparr>);
          st = (if elapsed_seconds now st \<ge> 60
                then \<lparr>requests = 0, request_window_start = now\<rparr> else st)
      in st\<lparr>requests := requests st + 1\<rparr>)"

lemma check_request_result:
  assumes "is_reorder order" and "distinct_keys (request_ip_states lim)"
  shows "\<exists>m. distinct_keys m
     \<and> lookup m = (lookup (request_ip_states lim))(ip \<mapsto> request_entry now fresh lim ip)
     \<and> length m = (if lookup (request_ip_states lim) ip = None
                   then Suc (length (request_ip_states lim)) else length (request_ip_states lim))
     \<and> (let passes = (requests (request_entry now fresh lim ip) \<le> max_rpm lim) in
        (fst (check_request order now fresh ip lim) = 0 \<longleftrightarrow> passes)
        \<and> snd (check_request order now fresh ip lim) = lim\<lparr>request_ip_states :=
             if passes \<and> request_max_tracked_ips lim > 0 \<and> length m > request_max_tracked_ips lim
             then filter (\<lambda>(ip, st). \<not> elapsed_seconds now st \<ge> 60) m else m\<rparr>)"
proof -
  let ?d = "\<lparr>requests = 0, request_window_start = fresh\<rparr>"
  obtain st m' where sub: "subscript order ?d ip (request_ip_states lim) = (st, m')"
    by (cases "subscript order ?d ip (request_ip_states lim)")
  let ?e = "request_entry now fresh lim ip"
  have e: "?e = (let st = (if elapsed_seconds now st \<ge> 60
                then \<lparr>requests = 0, request_window_start = now\<rparr> else st)
      in st\<lparr>requests := requests st + 1\<rparr>)"
    using subscript_entry [OF sub] by (simp add: request_entry_def Let_def)
  let ?m = "put ip ?e m'"
  have "check_request order now fresh ip lim =
      (if requests ?e > max_rpm lim
       then (if 60 - elapsed_seconds now st \<le> 0 then 1 else 60 - elapsed_seconds now st,
             lim\<lparr>request_ip_states := ?m\<rparr>)
       else (0, lim\<lparr>request_ip_states :=
         (if request_max_tracked_ips lim > 0 \<and> length ?m > request_max_tracked_ips lim
          then filter (\<lambda>(ip, st). \<not> elapsed_seconds now st \<ge> 60) ?m else ?m)\<rparr>))"
    unfolding check_request_def sub e by (simp add: Let_def)
  then show ?thesis
    using put_subscript [OF assms sub, of ?e]
    by (intro exI [of _ ?m]) (auto simp: Let_def)
qed

text \<open>The entry does not depend on the first reading of a new one.\<close>

lemma request_entry_first:
  assumes "now \<le> time"
  shows "request_entry (first_reading now time (request_ip_states lim) ip) time lim ip = request_entry time time lim ip"
proof (cases "lookup (request_ip_states lim) ip = None")
  case True
  with assms show ?thesis
    by (simp add: request_entry_def first_reading_def elapsed_expired minute_span_def ns_per_sec_def Let_def)
next
  case False
  then show ?thesis by (simp only: first_reading_def if_False)
qed

lemma elapsed_later: "60 \<le> elapsed_seconds now st \<Longrightarrow> now \<le> u \<Longrightarrow> 60 \<le> elapsed_seconds u st"
  by (simp add: elapsed_expired)

lemma lookup_sweep:
  assumes "distinct_keys m"
  shows "lookup (filter (\<lambda>(ip, st). P st) m) ip =
    (case lookup m ip of None \<Rightarrow> None | Some st \<Rightarrow> if P st then Some st else None)"
  using lookup_filter [OF assms, of "\<lambda>(ip, st). P st" ip] by (simp split: option.splits)

text \<open>After a call, an address has the entry it was given, or an expired one was swept.\<close>

lemma request_hit_lookup:
  assumes "request_well e" and "distinct_keys (request_ip_states lim)"
  defines "lim' \<equiv> request_hit e lim"
    and "m \<equiv> (lookup (request_ip_states lim))
                 (req_ip e \<mapsto> request_entry (req_time e) (req_time e) lim (req_ip e))"
  shows "max_rpm lim' = max_rpm lim" and "distinct_keys (request_ip_states lim')"
    and "lookup (request_ip_states lim') ip = m ip
      \<or> lookup (request_ip_states lim') ip = None
          \<and> (\<exists>st. m ip = Some st \<and> elapsed_seconds (req_time e) st \<ge> 60)"
proof -
  let ?a = "first_reading (req_now e) (req_time e) (request_ip_states lim) (req_ip e)"
  let ?e = "request_entry ?a (req_time e) lim (req_ip e)"
  have o: "is_reorder (req_order e)" and le: "req_now e \<le> req_time e" using assms(1) by (simp_all add: request_well_def)
  obtain t where t: "distinct_keys t" "lookup t = m"
    and "lim' = lim\<lparr>request_ip_states :=
      if requests ?e \<le> max_rpm lim \<and> request_max_tracked_ips lim > 0
         \<and> length t > request_max_tracked_ips lim
      then filter (\<lambda>(ip, st). \<not> elapsed_seconds ?a st \<ge> 60) t else t\<rparr>"
    using check_request_result [OF o assms(2), of "req_ip e" ?a "req_time e"]
    unfolding lim'_def m_def request_hit_def request_call_def Let_def
      request_entry_first [OF le, of lim "req_ip e", symmetric] by blast
  then have lim': "lim' = lim\<lparr>request_ip_states := t\<rparr>
      \<or> lim' = lim\<lparr>request_ip_states := filter (\<lambda>(ip, st). \<not> elapsed_seconds ?a st \<ge> 60) t\<rparr>"
    by (simp split: if_splits)
  with t show "max_rpm lim' = max_rpm lim" and "distinct_keys (request_ip_states lim')" by auto
  show "lookup (request_ip_states lim') ip = m ip
      \<or> lookup (request_ip_states lim') ip = None
          \<and> (\<exists>st. m ip = Some st \<and> elapsed_seconds (req_time e) st \<ge> 60)"
    using lim' t lookup_sweep [OF t(1), of "\<lambda>st. \<not> elapsed_seconds ?a st \<ge> 60" ip]
      elapsed_later [OF _ first_reading_le [OF le]]
    by (auto split: option.splits if_splits)
qed

lemma request_entry_start:
  assumes "\<forall>st. lookup (request_ip_states lim) ip = Some st \<longrightarrow> request_window_start st \<le> now"
  shows "request_window_start (request_entry now now lim ip) \<le> now"
  using assms by (auto simp: request_entry_def Let_def split: option.splits)

lemma elapsed_fresh [simp]: "elapsed_seconds now \<lparr>requests = n, request_window_start = now\<rparr> = 0"
  by (simp add: elapsed_seconds_def to_seconds_def trunc_div_def)

lemma request_entry_live:
  "elapsed_seconds now (request_entry now now lim ip) < 60
   \<and> Some (requests (request_entry now now lim ip), request_window_start (request_entry now now lim ip))
     = bump (Some ip) now (request_live lim now) ip"
  by (auto simp: request_entry_def request_live_def bump_def Let_def elapsed_seconds_def
      to_seconds_def trunc_div_def split: option.splits)

lemma request_hit_live:
  assumes "request_well e" and "distinct_keys (request_ip_states lim)"
  shows "request_live (request_hit e lim) (req_time e)
    = bump (Some (req_ip e)) (req_time e) (request_live lim (req_time e))"
proof
  fix ip
  let ?a = "req_time e" and ?e = "request_entry (req_time e) (req_time e) lim (req_ip e)"
  note h = request_hit_lookup(3) [OF assms, of ip]
  show "request_live (request_hit e lim) ?a ip
      = bump (Some (req_ip e)) ?a (request_live lim ?a) ip"
  proof (cases "ip = req_ip e")
    case True
    with h request_entry_live [of ?a lim "req_ip e"]
    show ?thesis by (auto simp: request_live_def)
  next
    case False
    then have "bump (Some (req_ip e)) ?a (request_live lim ?a) ip = request_live lim ?a ip"
      by (simp add: bump_def)
    with False h show ?thesis by (auto simp: request_live_def split: option.splits)
  qed
qed

interpretation request_window:
  exact_counter request_hit "\<lambda>e. Some (req_ip e)" req_time request_well
    "request_inv limit" request_live minute_span request_passes limit
  for limit
proof unfold_locales
  fix t u lim ip and e :: request_event
  assume inv: "request_inv limit t lim"
  then have d: "distinct_keys (request_ip_states lim)" and m: "max_rpm lim = limit"
    and st: "lookup (request_ip_states lim) k = Some s \<Longrightarrow> request_window_start s \<le> t" for k s
    by (auto simp: request_inv_def)
  show "request_inv limit u lim" if "t \<le> u"
    using inv that by (fastforce simp: request_inv_def)
  show "request_live lim u ip = (case request_live lim t ip of None \<Rightarrow> None
      | Some (c, w) \<Rightarrow> if u - w \<le> minute_span then Some (c, w) else None)" if "t \<le> u"
    using that by (auto simp: request_live_def elapsed_expired split: option.splits)
  show "w \<le> t \<and> t - w \<le> minute_span" if "request_live lim t ip = Some (c, w)" for c w
    using that st by (auto simp: request_live_def elapsed_expired split: option.splits if_splits)
  assume t: "t \<le> req_time e" and e: "request_well e"
  then have o: "is_reorder (req_order e)" and le: "req_now e \<le> req_time e" by (simp_all add: request_well_def)
  note l = request_hit_lookup [OF e d]
  show "request_inv limit (req_time e) (request_hit e lim)"
  proof -
    have "request_window_start s \<le> req_time e"
      if s: "lookup (request_ip_states (request_hit e lim)) k = Some s" for k s
    proof (cases "k = req_ip e")
      case True
      have "request_window_start (request_entry (req_time e) (req_time e) lim (req_ip e))
          \<le> req_time e"
        using st t by (intro request_entry_start) fastforce
      with True s l(3) [of k] show ?thesis by auto
    next
      case False
      with s l(3) [of k] have "lookup (request_ip_states lim) k = Some s" by auto
      then show ?thesis using st t by fastforce
    qed
    then show ?thesis using l(1,2) m by (simp add: request_inv_def)
  qed
  show eq: "request_live (request_hit e lim) (req_time e)
      = bump (Some (req_ip e)) (req_time e) (request_live lim (req_time e))"
    by (rule request_hit_live [OF e d])
  then show "request_live (request_hit e lim) (req_time e) ip
      \<in> {None, bump (Some (req_ip e)) (req_time e) (request_live lim (req_time e)) ip}"
    by simp
  show "request_passes e lim \<longleftrightarrow> Suc (hits_in (request_live lim (req_time e) ip)) \<le> limit"
    if "Some (req_ip e) = Some ip"
  proof -
    have "request_passes e lim
        \<longleftrightarrow> requests (request_entry (req_time e) (req_time e) lim (req_ip e)) \<le> limit"
      using check_request_result [OF o d, of "req_ip e"
          "first_reading (req_now e) (req_time e) (request_ip_states lim) (req_ip e)" "req_time e"] m
      unfolding request_passes_def request_call_def Let_def request_entry_first [OF le] by blast
    moreover have "requests (request_entry (req_time e) (req_time e) lim ip)
        = Suc (hits_in (request_live lim (req_time e) ip))"
      using request_entry_live [of "req_time e" lim ip]
      by (auto simp: bump_def hits_in_def split: option.splits)
    ultimately show ?thesis using that by simp
  qed
qed

subsection \<open>The authentication limiter meets the forgetful contract\<close>

datatype auth_event =
  RecordFailure "(string \<times> AuthIpState) list \<Rightarrow> (string \<times> AuthIpState) list" time_point time_point string
| AskBlocked time_point string

fun auth_hit :: "auth_event \<Rightarrow> AuthRateLimiter \<Rightarrow> AuthRateLimiter" where
  "auth_hit (RecordFailure order now time ip) lim = snd (check_and_record_failure order
     (first_reading now time (auth_ip_states lim) ip) time ip lim)"
| "auth_hit (AskBlocked now ip) lim = snd (is_blocked now ip lim)"

fun auth_key :: "auth_event \<Rightarrow> string option" where
  "auth_key (RecordFailure order now time ip) = Some ip"
| "auth_key (AskBlocked now ip) = None"

fun auth_time :: "auth_event \<Rightarrow> time_point" where
  "auth_time (RecordFailure order now time ip) = time"
| "auth_time (AskBlocked now ip) = now"

fun auth_well :: "auth_event \<Rightarrow> bool" where
  "auth_well (RecordFailure order now time ip) \<longleftrightarrow> is_reorder order \<and> now \<le> time"
| "auth_well (AskBlocked now ip) = True"

text \<open>Every record of a failure is such an event.\<close>

lemma failure_known:
  "lookup (auth_ip_states lim) ip \<noteq> None
     \<Longrightarrow> check_and_record_failure order now fresh ip lim = check_and_record_failure order now fresh' ip lim"
  by (auto simp: check_and_record_failure_def subscript_def Let_def)

definition failure_of_call ::
  "((string \<times> AuthIpState) list \<Rightarrow> (string \<times> AuthIpState) list) \<Rightarrow> time_point \<Rightarrow> time_point \<Rightarrow> string
     \<Rightarrow> AuthRateLimiter \<Rightarrow> auth_event" where
  "failure_of_call order now fresh ip lim = RecordFailure order now (seen_at now fresh (auth_ip_states lim) ip) ip"

lemma failure_of_call_simps [simp]:
  "auth_key (failure_of_call order now fresh ip lim) = Some ip"
  "auth_time (failure_of_call order now fresh ip lim) = seen_at now fresh (auth_ip_states lim) ip"
  "auth_well (failure_of_call order now fresh ip lim)
     \<longleftrightarrow> is_reorder order \<and> now \<le> seen_at now fresh (auth_ip_states lim) ip"
  by (simp_all add: failure_of_call_def)

lemma record_failure_call:
  "snd (check_and_record_failure order now fresh ip lim) = auth_hit (failure_of_call order now fresh ip lim) lim"
  using failure_known [of lim ip order now fresh now]
  by (simp add: failure_of_call_def seen_at_def first_reading_def)

definition auth_live :: "AuthRateLimiter \<Rightarrow> time_point \<Rightarrow> string \<Rightarrow> window option" where
  "auth_live lim now ip =
     (case lookup (auth_ip_states lim) ip of
        None \<Rightarrow> None
      | Some st \<Rightarrow> if auth_expired lim now st then None
                   else Some (failures st, failure_window_start st))"

definition auth_inv :: "int \<Rightarrow> nat \<Rightarrow> time_point \<Rightarrow> AuthRateLimiter \<Rightarrow> bool" where
  "auth_inv window limit now lim \<longleftrightarrow>
     window_secs lim = window \<and> max_failures lim = limit \<and> distinct_keys (auth_ip_states lim)
     \<and> (\<forall>ip st. lookup (auth_ip_states lim) ip = Some st \<longrightarrow> failure_window_start st \<le> now)"

definition auth_entry :: "time_point \<Rightarrow> time_point \<Rightarrow> AuthRateLimiter \<Rightarrow> string \<Rightarrow> AuthIpState" where
  "auth_entry now fresh lim ip =
     (let st = (case lookup (auth_ip_states lim) ip of
                  Some s \<Rightarrow> s | None \<Rightarrow> \<lparr>failures = 0, failure_window_start = fresh\<rparr>);
          st = (if auth_expired lim now st
                then \<lparr>failures = 0, failure_window_start = now\<rparr> else st)
      in st\<lparr>failures := failures st + 1\<rparr>)"

lemma check_and_record_failure_result:
  assumes "is_reorder order" and "distinct_keys (auth_ip_states lim)"
  shows "\<exists>m. distinct_keys m
     \<and> lookup m = (lookup (auth_ip_states lim))(ip \<mapsto> auth_entry now fresh lim ip)
     \<and> length m = (if lookup (auth_ip_states lim) ip = None
                   then Suc (length (auth_ip_states lim)) else length (auth_ip_states lim))
     \<and> fst (check_and_record_failure order now fresh ip lim)
         = (failures (auth_entry now fresh lim ip) > max_failures lim)
     \<and> snd (check_and_record_failure order now fresh ip lim) =
         (if auth_max_tracked_ips lim > 0 \<and> length m > auth_max_tracked_ips lim
          then evict_to_cap now (lim\<lparr>auth_ip_states := m\<rparr>) else lim\<lparr>auth_ip_states := m\<rparr>)"
proof -
  let ?d = "\<lparr>failures = 0, failure_window_start = fresh\<rparr>"
  obtain st m' where sub: "subscript order ?d ip (auth_ip_states lim) = (st, m')"
    by (cases "subscript order ?d ip (auth_ip_states lim)")
  let ?e = "auth_entry now fresh lim ip"
  have e: "?e = (let st = (if auth_expired lim now st
                then \<lparr>failures = 0, failure_window_start = now\<rparr> else st)
      in st\<lparr>failures := failures st + 1\<rparr>)"
    using subscript_entry [OF sub] by (simp add: auth_entry_def Let_def)
  have "check_and_record_failure order now fresh ip lim =
      (failures ?e > max_failures lim,
       if auth_max_tracked_ips lim > 0 \<and> length (put ip ?e m') > auth_max_tracked_ips lim
       then evict_to_cap now (lim\<lparr>auth_ip_states := put ip ?e m'\<rparr>)
       else lim\<lparr>auth_ip_states := put ip ?e m'\<rparr>)"
    unfolding check_and_record_failure_def sub e by (simp add: Let_def)
  then show ?thesis
    using put_subscript [OF assms sub, of ?e] by (intro exI [of _ "put ip ?e m'"]) auto
qed

lemma evict_to_cap_facts:
  assumes "distinct_keys (auth_ip_states lim)"
  shows "distinct_keys (auth_ip_states (evict_to_cap now lim))"
    and "set (auth_ip_states (evict_to_cap now lim)) \<subseteq> set (auth_ip_states lim)"
    and "length (auth_ip_states (evict_to_cap now lim)) \<le> auth_max_tracked_ips lim"
    and "window_secs (evict_to_cap now lim) = window_secs lim"
    and "max_failures (evict_to_cap now lim) = max_failures lim"
    and "auth_max_tracked_ips (evict_to_cap now lim) = auth_max_tracked_ips lim"
  using assms evict_oldest_subset [of "filter (\<lambda>(ip, st). \<not> auth_expired lim now st) (auth_ip_states lim)"]
  by (auto simp: evict_to_cap_def Let_def evict_oldest_distinct evict_oldest_length)

lemma lookup_subset:
  assumes "distinct_keys m" and "distinct_keys m'" and "set m' \<subseteq> set m"
  shows "lookup m' k = None \<or> lookup m' k = lookup m k"
  using assms by (metis distinct_keys_def map_of_SomeD map_of_is_SomeI not_None_eq subsetD)

lemma auth_failure_lookup:
  fixes now fresh :: time_point and ip k :: string
  assumes "is_reorder order" and "distinct_keys (auth_ip_states lim)"
  defines "lim' \<equiv> snd (check_and_record_failure order now fresh ip lim)"
    and "m \<equiv> (lookup (auth_ip_states lim))(ip \<mapsto> auth_entry now fresh lim ip)"
  shows "window_secs lim' = window_secs lim" and "max_failures lim' = max_failures lim"
    and "auth_max_tracked_ips lim' = auth_max_tracked_ips lim"
    and "distinct_keys (auth_ip_states lim')"
    and "lookup (auth_ip_states lim') k = None \<or> lookup (auth_ip_states lim') k = m k"
    and "0 < auth_max_tracked_ips lim \<Longrightarrow>
      length (auth_ip_states lim') \<le> auth_max_tracked_ips lim"
proof -
  obtain t where t: "distinct_keys t" "lookup t = m"
    and lim': "lim' = (if auth_max_tracked_ips lim > 0 \<and> length t > auth_max_tracked_ips lim
          then evict_to_cap now (lim\<lparr>auth_ip_states := t\<rparr>) else lim\<lparr>auth_ip_states := t\<rparr>)"
    using check_and_record_failure_result [OF assms(1,2), of ip now fresh]
    unfolding lim'_def m_def by blast
  have d: "distinct_keys (auth_ip_states (lim\<lparr>auth_ip_states := t\<rparr>))" using t by simp
  note ev = evict_to_cap_facts [OF d, of now]
  show "window_secs lim' = window_secs lim" "max_failures lim' = max_failures lim"
    "auth_max_tracked_ips lim' = auth_max_tracked_ips lim"
    "distinct_keys (auth_ip_states lim')"
    using ev t lim' by simp_all
  show "lookup (auth_ip_states lim') k = None \<or> lookup (auth_ip_states lim') k = m k"
    using ev(1,2) t lim' lookup_subset [OF t(1) ev(1), of k] by (auto split: if_splits)
  show "length (auth_ip_states lim') \<le> auth_max_tracked_ips lim" if "0 < auth_max_tracked_ips lim"
    using that ev(3) lim' by (auto split: if_splits)
qed

lemma is_blocked_lookup:
  "lookup (auth_ip_states (snd (is_blocked now ip lim))) k = lookup (auth_ip_states lim) k
   \<or> lookup (auth_ip_states (snd (is_blocked now ip lim))) k = None
      \<and> (\<exists>st. lookup (auth_ip_states lim) k = Some st \<and> auth_expired lim now st)"
  by (auto simp: is_blocked_def lookup_erase split: option.splits)

lemma is_blocked_frame:
  "window_secs (snd (is_blocked now ip lim)) = window_secs lim"
  "max_failures (snd (is_blocked now ip lim)) = max_failures lim"
  "auth_max_tracked_ips (snd (is_blocked now ip lim)) = auth_max_tracked_ips lim"
  "distinct_keys (auth_ip_states lim) \<Longrightarrow> distinct_keys (auth_ip_states (snd (is_blocked now ip lim)))"
  "length (auth_ip_states (snd (is_blocked now ip lim))) \<le> length (auth_ip_states lim)"
  by (auto simp: is_blocked_def length_delete_le split: option.splits)

lemma is_blocked_result:
  "fst (is_blocked now ip lim) \<longleftrightarrow> max_failures lim < hits_in (auth_live lim now ip)"
  by (auto simp: is_blocked_def auth_live_def hits_in_def split: option.splits)

lemma auth_entry_live:
  "Some (failures (auth_entry now now lim ip), failure_window_start (auth_entry now now lim ip))
     = bump (Some ip) now (auth_live lim now) ip"
  by (auto simp: auth_entry_def auth_live_def bump_def Let_def split: option.splits)

lemma auth_live_same_window:
  "window_secs lim' = window_secs lim \<Longrightarrow> lookup (auth_ip_states lim') ip = lookup (auth_ip_states lim) ip
    \<Longrightarrow> auth_live lim' u ip = auth_live lim u ip"
  by (simp add: auth_live_def auth_expired_def split: option.splits)

text \<open>The first reading of a new entry makes no difference, unless the window is negative and every
  entry expires at once.\<close>

lemma auth_entry_first:
  assumes "now \<le> time"
  shows "auth_entry (first_reading now time (auth_ip_states lim) ip) time lim ip = auth_entry time time lim ip
    \<or> window_secs lim < 0"
proof (cases "lookup (auth_ip_states lim) ip = None")
  case True
  with assms show ?thesis by (auto simp: auth_entry_def first_reading_def auth_expired_def ns_per_sec_def Let_def)
next
  case False
  then show ?thesis by (simp only: first_reading_def if_False simp_thms)
qed

lemma auth_entry_start:
  assumes "now \<le> time" and "\<forall>st. lookup (auth_ip_states lim) ip = Some st \<longrightarrow> failure_window_start st \<le> time"
  shows "failure_window_start (auth_entry (first_reading now time (auth_ip_states lim) ip) time lim ip) \<le> time"
  using assms by (auto simp: auth_entry_def Let_def split: option.split)

lemma negative_window_empty: "auth_inv window limit t lim \<Longrightarrow> window < 0 \<Longrightarrow> auth_live lim t k = None"
  by (fastforce simp: auth_live_def auth_inv_def auth_expired_def ns_per_sec_def split: option.split)

lemma auth_hit_inv:
  assumes "auth_inv window limit t lim" and "t \<le> auth_time e" and "auth_well e"
  shows "auth_inv window limit (auth_time e) (auth_hit e lim)"
proof (cases e)
  case (RecordFailure order now time ip)
  have o: "is_reorder order" "now \<le> time" and d: "distinct_keys (auth_ip_states lim)"
    and st: "\<And>k s. lookup (auth_ip_states lim) k = Some s \<Longrightarrow> failure_window_start s \<le> time"
    using assms RecordFailure by (fastforce simp: auth_inv_def)+
  let ?now = "first_reading now time (auth_ip_states lim) ip"
  note l = auth_failure_lookup [OF o(1) d, where ip = ip and now = ?now and fresh = time]
  have "failure_window_start (auth_entry ?now time lim ip) \<le> time"
    using st by (intro auth_entry_start o(2)) auto
  then have "failure_window_start s \<le> time"
    if "lookup (auth_ip_states (auth_hit e lim)) k = Some s" for k s
    using that st l(5) [of k] RecordFailure by (auto split: if_splits)
  then show ?thesis using l(1,2,4) assms(1) RecordFailure by (simp add: auth_inv_def)
next
  case (AskBlocked now ip)
  have "failure_window_start s \<le> now"
    if "lookup (auth_ip_states (auth_hit e lim)) k = Some s" for k s
    using that is_blocked_lookup [of now ip lim k] assms AskBlocked
    by (fastforce simp: auth_inv_def)
  then show ?thesis using is_blocked_frame [where lim = lim and now = now and ip = ip] assms(1) AskBlocked
    by (simp add: auth_inv_def)
qed

lemma auth_hit_live:
  assumes "auth_inv window limit t lim" and "t \<le> auth_time e" and "auth_well e"
  shows "auth_live (auth_hit e lim) (auth_time e) k
    \<in> {None, bump (auth_key e) (auth_time e) (auth_live lim (auth_time e)) k}"
proof (cases e)
  case (RecordFailure order now time ip)
  have o: "is_reorder order" "now \<le> time" and d: "distinct_keys (auth_ip_states lim)" and w: "window_secs lim = window"
    using assms RecordFailure by (auto simp: auth_inv_def)
  let ?now = "first_reading now time (auth_ip_states lim) ip"
  note l = auth_failure_lookup [OF o(1) d, where ip = ip and now = ?now and fresh = time]
  let ?lim' = "snd (check_and_record_failure order ?now time ip lim)"
  have same: "auth_expired ?lim' time = auth_expired lim time"
    using l(1) by (simp add: auth_expired_def fun_eq_iff)
  show ?thesis
  proof (cases "k = ip \<and> 0 \<le> window")
    case True
    then have "auth_entry ?now time lim ip = auth_entry time time lim ip"
      using auth_entry_first [OF o(2), of lim ip] w by auto
    with True l(5) [of k] auth_entry_live [of time lim ip] RecordFailure show ?thesis
      by (auto simp: auth_live_def same)
  next
    case False
    show ?thesis
    proof (cases "k = ip")
      case True
      with False negative_window_empty [OF auth_hit_inv [OF assms]] show ?thesis by simp
    next
      case other: False
      with l(5) [of k] RecordFailure show ?thesis
        by (auto simp: auth_live_def same bump_def split: option.splits)
    qed
  qed
next
  case (AskBlocked now ip)
  then show ?thesis
    using is_blocked_lookup [of now ip lim k] is_blocked_frame(1) [of now ip lim]
    by (auto simp: auth_live_def auth_expired_def bump_def split: option.splits)
qed

interpretation auth_window:
  windowed_counter auth_hit auth_key auth_time auth_well "auth_inv window limit" auth_live
    "window * ns_per_sec"
  for window limit
proof unfold_locales
  fix t u lim k and e :: auth_event
  assume inv: "auth_inv window limit t lim"
  then have w: "window_secs lim = window"
    and st: "lookup (auth_ip_states lim) k = Some s \<Longrightarrow> failure_window_start s \<le> t" for s
    by (auto simp: auth_inv_def)
  show "auth_inv window limit u lim" if "t \<le> u"
    using inv that by (fastforce simp: auth_inv_def)
  show "auth_live lim u k = (case auth_live lim t k of None \<Rightarrow> None
      | Some (c, w) \<Rightarrow> if u - w \<le> window * ns_per_sec then Some (c, w) else None)" if "t \<le> u"
    using that w by (auto simp: auth_live_def auth_expired_def split: option.splits)
  show "x \<le> t \<and> t - x \<le> window * ns_per_sec" if "auth_live lim t k = Some (c, x)" for c x
    using that w st by (auto simp: auth_live_def auth_expired_def split: option.splits if_splits)
qed (rule auth_hit_inv auth_hit_live, assumption+)+

subsection \<open>Lemmas for the properties\<close>

lemma is_reorder_id [simp]: "is_reorder id" "is_reorder (\<lambda>m. m)" "is_reorder rev"
  by (simp_all add: is_reorder_def)

lemma elapsed_nonneg: "request_window_start st \<le> now \<Longrightarrow> 0 \<le> elapsed_seconds now st"
  by (simp add: elapsed_seconds_def to_seconds_nonneg ns_per_sec_def)

lemma elapsed_minute_later:
  assumes "request_window_start st \<le> now" and "now + (60 - elapsed_seconds now st) * ns_per_sec \<le> u"
  shows "60 \<le> elapsed_seconds u st"
proof -
  let ?d = "now - request_window_start st"
  have "elapsed_seconds now st = ?d div ns_per_sec"
    using assms(1) by (simp add: elapsed_seconds_def to_seconds_nonneg)
  moreover have "?d div ns_per_sec * ns_per_sec \<le> ?d" by (simp add: ns_per_sec_def)
  ultimately have "60 * ns_per_sec \<le> u - request_window_start st"
    using assms(2) by (simp add: left_diff_distrib)
  then show ?thesis by (simp add: elapsed_seconds_def to_seconds_ge_iff)
qed

text \<open>A refusal names the seconds the window still lasts.\<close>

lemma check_request_refusal:
  assumes "is_reorder order" and "distinct_keys (request_ip_states lim)"
    and starts: "\<And>st. lookup (request_ip_states lim) ip = Some st \<Longrightarrow> request_window_start st \<le> now"
    and "1 \<le> max_rpm lim" and "fst (check_request order now now ip lim) \<noteq> 0"
  shows "let st = request_entry now now lim ip in
     elapsed_seconds now st < 60 \<and> request_window_start st \<le> now
     \<and> lookup (request_ip_states (snd (check_request order now now ip lim))) ip = Some st
     \<and> fst (check_request order now now ip lim) = 60 - elapsed_seconds now st"
proof -
  let ?d = "\<lparr>requests = 0, request_window_start = now\<rparr>"
  obtain st m' where sub: "subscript order ?d ip (request_ip_states lim) = (st, m')"
    by (cases "subscript order ?d ip (request_ip_states lim)")
  let ?e = "request_entry now now lim ip"
  have st: "st = (case lookup (request_ip_states lim) ip of Some s \<Rightarrow> s | None \<Rightarrow> ?d)"
    using subscript_entry [OF sub] .
  have over: "max_rpm lim < requests ?e"
    using check_request_result [OF assms(1,2), of ip now now] assms(5)
    unfolding Let_def by (metis not_le)
  then have live: "\<not> elapsed_seconds now st \<ge> 60"
    using assms(4) by (auto simp: request_entry_def st Let_def)
  then have e: "?e = st\<lparr>requests := requests st + 1\<rparr>"
    by (simp add: request_entry_def st Let_def)
  then have el: "elapsed_seconds now ?e = elapsed_seconds now st"
    by (simp add: elapsed_seconds_def)
  have "check_request order now now ip lim =
      (60 - elapsed_seconds now st, lim\<lparr>request_ip_states := put ip ?e m'\<rparr>)"
    using over live e by (simp add: check_request_def sub Let_def)
  moreover have "request_window_start ?e \<le> now" using starts by (intro request_entry_start) auto
  ultimately show ?thesis using live el by (simp add: Let_def lookup_put)
qed

lemma new_request_passes:
  assumes "is_reorder order" and "distinct_keys (request_ip_states lim)" and "1 \<le> max_rpm lim"
    and "lookup (request_ip_states lim) ip = None"
  shows "fst (check_request order now fresh ip lim) = 0"
proof -
  have "requests (request_entry now fresh lim ip) = 1" using assms(4) by (simp add: request_entry_def Let_def)
  with check_request_result [OF assms(1,2), of ip now fresh] assms(3) show ?thesis by (auto simp: Let_def)
qed

lemma refusal_known:
  assumes "is_reorder order" and "distinct_keys (request_ip_states lim)" and "1 \<le> max_rpm lim"
    and "fst (check_request order now fresh ip lim) \<noteq> 0"
  shows "check_request order now fresh ip lim = check_request order now now ip lim"
  using check_request_known [of lim ip order now fresh now] new_request_passes [OF assms(1-3)] assms(4) by blast

lemma request_call_answer:
  assumes "request_well e" and "distinct_keys (request_ip_states lim)" and "1 \<le> max_rpm lim"
  shows "fst (request_call e lim) = fst (check_request (req_order e) (req_time e) (req_time e) (req_ip e) lim)"
  using new_request_passes [OF _ assms(2,3), of "req_order e" "req_ip e"] assms(1)
  by (cases "lookup (request_ip_states lim) (req_ip e) = None")
    (simp_all only: request_well_def request_call_def first_reading_def if_True if_False)

text \<open>Calls for new addresses, as long as no window expires, only add entries.\<close>

lemma request_growth:
  "\<lbrakk>distinct_keys (request_ip_states lim); 1 \<le> max_rpm lim; distinct ips;
    \<forall>(k, st) \<in> set (request_ip_states lim). elapsed_seconds now st < 60;
    \<forall>ip \<in> set ips. lookup (request_ip_states lim) ip = None\<rbrakk>
   \<Longrightarrow> request_limiter_size
         (fold request_hit (map (\<lambda>ip. \<lparr>req_order = (\<lambda>m. m), req_now = now, req_time = now, req_ip = ip\<rparr>) ips) lim)
       = request_limiter_size lim + length ips"
proof (induction ips arbitrary: lim)
  case Nil
  then show ?case by simp
next
  case (Cons ip ips)
  let ?ev = "\<lparr>req_order = (\<lambda>m. m), req_now = now, req_time = now, req_ip = ip\<rparr>"
  let ?lim = "request_hit ?ev lim" and ?e = "request_entry now now lim ip"
  have new: "lookup (request_ip_states lim) ip = None" using Cons.prems by simp
  then have e: "?e = \<lparr>requests = 1, request_window_start = now\<rparr>"
    by (simp add: request_entry_def Let_def)
  obtain m where m: "distinct_keys m" "lookup m = (lookup (request_ip_states lim))(ip \<mapsto> ?e)"
      "length m = (if lookup (request_ip_states lim) ip = None
         then Suc (length (request_ip_states lim)) else length (request_ip_states lim))"
    and lim': "snd (check_request (\<lambda>m. m) now now ip lim) = lim\<lparr>request_ip_states :=
      if requests ?e \<le> max_rpm lim \<and> request_max_tracked_ips lim > 0
         \<and> length m > request_max_tracked_ips lim
      then filter (\<lambda>(ip, st). \<not> elapsed_seconds now st \<ge> 60) m else m\<rparr>"
    using check_request_result [OF is_reorder_id(2) Cons.prems(1), of ip now now]
    unfolding Let_def by blast
  have live: "\<forall>(k, st) \<in> set m. elapsed_seconds now st < 60"
  proof clarify
    fix k st
    assume "(k, st) \<in> set m"
    then have "lookup m k = Some st" using m(1) by (simp add: distinct_keys_def)
    then have "k = ip \<and> st = ?e \<or> (k, st) \<in> set (request_ip_states lim)"
      using m(2) by (auto split: if_splits dest: map_of_SomeD)
    then show "elapsed_seconds now st < 60" using Cons.prems(4) e by auto
  qed
  then have "filter (\<lambda>(ip, st). \<not> elapsed_seconds now st \<ge> 60) m = m"
    by (auto simp: filter_id_conv)
  then have l: "request_ip_states ?lim = m" "max_rpm ?lim = max_rpm lim"
    using lim' by (auto simp: request_hit_def request_call_def first_reading_def)
  have "request_limiter_size
         (fold request_hit (map (\<lambda>ip. \<lparr>req_order = (\<lambda>m. m), req_now = now, req_time = now, req_ip = ip\<rparr>) ips) ?lim)
       = request_limiter_size ?lim + length ips"
    by (rule Cons.IH) (use Cons.prems l m live in auto)
  then show ?case using l m new by (simp add: request_limiter_size_def)
qed

lemma auth_hit_size:
  assumes "auth_inv window limit t lim" and "auth_well e" and "0 < auth_max_tracked_ips lim"
    and "auth_limiter_size lim \<le> auth_max_tracked_ips lim"
  shows "auth_limiter_size (auth_hit e lim) \<le> auth_max_tracked_ips lim
    \<and> auth_max_tracked_ips (auth_hit e lim) = auth_max_tracked_ips lim"
proof (cases e)
  case (RecordFailure order now time ip)
  then show ?thesis
    using assms auth_failure_lookup(3,6) [where order = order and lim = lim and ip = ip
        and now = "first_reading now time (auth_ip_states lim) ip" and fresh = time]
    by (auto simp: auth_inv_def auth_limiter_size_def)
next
  case (AskBlocked now ip)
  then show ?thesis
    using assms(4) is_blocked_frame(3,5) [of now ip lim] by (simp add: auth_limiter_size_def)
qed

lemma auth_run_size:
  "\<lbrakk>auth_inv window limit t lim; sorted (t # map auth_time es); \<forall>e \<in> set es. auth_well e;
    0 < auth_max_tracked_ips lim; auth_limiter_size lim \<le> auth_max_tracked_ips lim\<rbrakk>
   \<Longrightarrow> auth_limiter_size (fold auth_hit es lim) \<le> auth_max_tracked_ips lim"
proof (induction es arbitrary: t lim)
  case Nil
  then show ?case by simp
next
  case (Cons e es)
  then have "auth_inv window limit (auth_time e) (auth_hit e lim)" by (auto intro: auth_hit_inv)
  moreover have "auth_limiter_size (auth_hit e lim) \<le> auth_max_tracked_ips lim
      \<and> auth_max_tracked_ips (auth_hit e lim) = auth_max_tracked_ips lim"
    using Cons.prems by (intro auth_hit_size) auto
  ultimately show ?case using Cons.IH [of "auth_time e" "auth_hit e lim"] Cons.prems by auto
qed

text \<open>Freshly constructed limiters, with the default caps.\<close>

definition new_auth_limiter :: "nat \<Rightarrow> int \<Rightarrow> AuthRateLimiter" where
  "new_auth_limiter limit window =
     \<lparr>max_failures = limit, window_secs = window, auth_max_tracked_ips = 10000, auth_ip_states = []\<rparr>"

definition new_request_limiter :: "nat \<Rightarrow> RequestRateLimiter" where
  "new_request_limiter limit =
     \<lparr>max_rpm = limit, request_max_tracked_ips = 10000, request_ip_states = []\<rparr>"

lemma new_request_limiter_inv [simp]: "request_inv limit t (new_request_limiter limit)"
  by (simp add: request_inv_def new_request_limiter_def)

lemma new_request_limiter_live [simp]: "request_live (new_request_limiter limit) t ip = None"
  by (simp add: request_live_def new_request_limiter_def)

lemma new_auth_limiter_inv [simp]: "auth_inv window limit t (new_auth_limiter limit window)"
  by (simp add: auth_inv_def new_auth_limiter_def)

lemma new_auth_limiter_live [simp]: "auth_live (new_auth_limiter limit window) t ip = None"
  by (simp add: auth_live_def new_auth_limiter_def)

subsection \<open>Properties: the request limiter\<close>

text \<open>C18. Refinement of \<^verbatim>\<open>check_request\<close>: seen through the windows that are live at the moment
  of the call (the second reading of the clock for a new entry), it counts one hit for the calling address and changes no other address, it
  answers 0 exactly when the new count is within the limit, and any other answer is between 1
  and 60 seconds.\<close>

theorem check_request_refines_fixed_window:
  assumes "is_reorder order" and "request_inv limit now lim" and "1 \<le> limit" and "now \<le> fresh"
  shows "let (answer, lim') = check_request order now fresh ip lim;
             t = seen_at now fresh (request_ip_states lim) ip; v = request_live lim t in
     request_live lim' t = bump (Some ip) t v
     \<and> (answer = 0 \<longleftrightarrow> Suc (hits_in (v ip)) \<le> limit)
     \<and> (answer \<noteq> 0 \<longrightarrow> 1 \<le> answer \<and> answer \<le> 60)"
proof -
  let ?e = "request_of_call order now fresh ip lim" and ?t = "seen_at now fresh (request_ip_states lim) ip"
  obtain answer lim' where r: "check_request order now fresh ip lim = (answer, lim')"
    by (cases "check_request order now fresh ip lim")
  have d: "distinct_keys (request_ip_states lim)" and m: "max_rpm lim = limit"
    using assms(2) by (auto simp: request_inv_def)
  have le: "now \<le> ?t" by (rule seen_at_range [OF assms(4), THEN conjunct1])
  have w: "request_well ?e" using assms(1) le by simp
  have "request_live lim' ?t = bump (Some ip) ?t (request_live lim ?t)"
    using request_hit_live [OF w d] r by (simp add: request_hit_def flip: check_request_call)
  moreover have "answer = 0 \<longleftrightarrow> Suc (hits_in (request_live lim ?t ip)) \<le> limit"
    using request_window.accept_iff [OF assms(2) _ w, of ip] le r
    by (simp add: request_passes_def flip: check_request_call)
  moreover have "1 \<le> answer \<and> answer \<le> 60" if "answer \<noteq> 0"
  proof -
    have "check_request order now now ip lim = (answer, lim')"
      using refusal_known [OF assms(1) d, of now fresh ip] assms(3) m that r by simp
    then show ?thesis
      using check_request_refusal [OF assms(1) d, of ip now] assms(2,3) m that elapsed_nonneg
      by (fastforce simp: request_inv_def Let_def)
  qed
  ultimately show ?thesis using r by (simp add: Let_def)
qed

theorem check_request_refines_fixed_window_witness:
  "let (answer, lim') = check_request rev 5 6 ''10.0.0.1'' (new_request_limiter 3);
       t = seen_at 5 6 (request_ip_states (new_request_limiter 3)) ''10.0.0.1'';
       v = request_live (new_request_limiter 3) t in
     request_live lim' t = bump (Some ''10.0.0.1'') t v
     \<and> (answer = 0 \<longleftrightarrow> Suc (hits_in (v ''10.0.0.1'')) \<le> 3)
     \<and> (answer \<noteq> 0 \<longrightarrow> 1 \<le> answer \<and> answer \<le> 60)"
  by (rule check_request_refines_fixed_window) simp_all

text \<open>The limit over time: in no stretch of one minute does one address get more than twice
  the limit of requests through, whatever the other addresses do.\<close>

theorem request_limit_per_minute:
  assumes "request_inv limit t lim" and "sorted (t # map req_time es)"
    and "\<forall>e \<in> set es. request_well e" and "t \<le> t0"
  shows "length (filter (\<lambda>e. req_ip e = ip \<and> t0 \<le> req_time e \<and> req_time e \<le> t0 + minute_span)
           (accepted request_passes request_hit es lim)) \<le> 2 * limit"
  using request_window.accepted_at_most_twice [OF assms, of ip] by simp

theorem request_limit_per_minute_witness:
  "length (filter (\<lambda>e. req_ip e = ''a'' \<and> 0 \<le> req_time e \<and> req_time e \<le> 0 + minute_span)
     (accepted request_passes request_hit
        [\<lparr>req_order = rev, req_now = 1, req_time = 1, req_ip = ''a''\<rparr>,
         \<lparr>req_order = rev, req_now = 2, req_time = 2, req_ip = ''b''\<rparr>,
         \<lparr>req_order = rev, req_now = 2, req_time = 2, req_ip = ''a''\<rparr>] (new_request_limiter 1))) \<le> 2 * 1"
  by (rule request_limit_per_minute [where t = 0]) simp_all

text \<open>No address is limited on account of others: one that made fewer requests than the limit
  in the last minute is let through, after any run of requests of any addresses.\<close>

theorem request_under_quota_passes:
  assumes "request_inv limit t lim" and "sorted (t # map req_time es @ [req_time e])"
    and "\<forall>x \<in> set (es @ [e]). request_well x"
    and "request_live lim t (req_ip e) = None"
    and "length (filter (\<lambda>x. req_ip x = req_ip e \<and> req_time e - req_time x \<le> minute_span) es) < limit"
  shows "request_passes e (fold request_hit es lim)"
  using request_window.accept_under_quota [OF assms(1-3) refl assms(4)] assms(5) by simp

theorem request_under_quota_passes_witness:
  "request_passes \<lparr>req_order = rev, req_now = 9, req_time = 9, req_ip = ''a''\<rparr>
     (fold request_hit [\<lparr>req_order = rev, req_now = 1, req_time = 1, req_ip = ''b''\<rparr>,
        \<lparr>req_order = rev, req_now = 2, req_time = 2, req_ip = ''b''\<rparr>,
        \<lparr>req_order = rev, req_now = 3, req_time = 3, req_ip = ''a''\<rparr>] (new_request_limiter 2))"
  by (rule request_under_quota_passes [where t = 0 and limit = 2]) simp_all

text \<open>C20. The \<^verbatim>\<open>Retry-After\<close> answer is honest: an address refused with the answer of \<open>r\<close> seconds,
  a number between 1 and 60, is let through when it comes back after that time, whatever the two
  clock readings of that later call are.\<close>

theorem retry_after_suffices:
  assumes "is_reorder order" and "is_reorder order'" and "request_inv limit now lim"
    and "1 \<le> limit" and "check_request order now fresh ip lim = (r, lim')" and "r \<noteq> 0"
    and "now + r * ns_per_sec \<le> now'"
  shows "1 \<le> r \<and> r \<le> 60 \<and> fst (check_request order' now' fresh' ip lim') = 0"
proof -
  let ?st = "request_entry now now lim ip"
  have d: "distinct_keys (request_ip_states lim)" and m: "max_rpm lim = limit"
    using assms(3) by (auto simp: request_inv_def)
  have same: "check_request order now now ip lim = (r, lim')"
    using refusal_known [OF assms(1) d, of now fresh ip] assms(4-6) m by simp
  have f: "request_window_start ?st \<le> now" "lookup (request_ip_states lim') ip = Some ?st"
    "r = 60 - elapsed_seconds now ?st" "elapsed_seconds now ?st < 60"
    using check_request_refusal [OF assms(1) d, of ip now] assms(3,4,6) same m
    by (auto simp: request_inv_def Let_def)
  have l: "max_rpm lim' = max_rpm lim" "distinct_keys (request_ip_states lim')"
    using request_hit_lookup(1,2) [of "request_of_call order now now ip lim" lim]
      assms(1) same d by (simp_all add: request_hit_def flip: check_request_call)
  have "60 \<le> elapsed_seconds now' ?st"
    using f assms(7) by (intro elapsed_minute_later [of _ now]) auto
  then have "requests (request_entry now' fresh' lim' ip) = 1"
    using f(2) by (simp add: request_entry_def Let_def)
  then have "fst (check_request order' now' fresh' ip lim') = 0"
    using check_request_result [OF assms(2) l(2), of ip now' fresh'] l(1) m assms(4)
    by (auto simp: Let_def)
  then show ?thesis using elapsed_nonneg [OF f(1)] f(3,4) by simp
qed

theorem retry_after_suffices_witness:
  "let table = (\<lambda>n. \<lparr>max_rpm = 1, request_max_tracked_ips = 10000, request_ip_states =
                  [(''a'', \<lparr>requests = n, request_window_start = 5\<rparr>)]\<rparr>) in
     check_request rev (9 * ns_per_sec) (9 * ns_per_sec) ''a'' (table 1) = (52, table 2)
     \<and> 1 \<le> (52 :: int) \<and> (52 :: int) \<le> 60
     \<and> fst (check_request id (61 * ns_per_sec) (61 * ns_per_sec) ''a'' (table 2)) = 0"
proof -
  define table where "table = (\<lambda>n. \<lparr>max_rpm = 1, request_max_tracked_ips = 10000,
    request_ip_states = [(''a'', \<lparr>requests = n, request_window_start = 5\<rparr>)]\<rparr>)"
  have first: "check_request rev (9 * ns_per_sec) (9 * ns_per_sec) ''a'' (table 1) = (52, table 2)"
    by (simp add: table_def check_request_def subscript_def elapsed_seconds_def to_seconds_def
        trunc_div_def ns_per_sec_def)
  have "request_inv 1 (9 * ns_per_sec) (table 1)"
    by (simp add: request_inv_def table_def distinct_keys_def ns_per_sec_def)
  from retry_after_suffices [OF is_reorder_id(3) is_reorder_id(1) this _ first,
      of "61 * ns_per_sec"]
  have "1 \<le> (52 :: int) \<and> (52 :: int) \<le> 60
      \<and> fst (check_request id (61 * ns_per_sec) (61 * ns_per_sec) ''a'' (table 2)) = 0"
    by (simp add: ns_per_sec_def)
  with first show ?thesis unfolding table_def Let_def by (rule conjI)
qed

text \<open>The window does not slide, although \<^verbatim>\<open>auth.hpp\<close> calls it a sliding window: an address
  that saves its quota for the end of a window gets \<open>2 * limit - 1\<close> requests through within one
  nanosecond.\<close>

theorem request_window_is_fixed:
  assumes "1 \<le> limit"
  shows "let e = (\<lambda>t. \<lparr>req_order = id, req_now = t, req_time = t, req_ip = ip\<rparr>);
             burst = replicate (limit - 1) (e minute_span) @ replicate limit (e (minute_span + 1))
         in accepted request_passes request_hit (e 0 # burst) (new_request_limiter limit)
              = e 0 # burst
            \<and> length burst = 2 * limit - 1"
proof -
  define e where "e = (\<lambda>t. \<lparr>req_order = id, req_now = t, req_time = t, req_ip = ip\<rparr>)"
  have "accepted request_passes request_hit
      ([e 0] @ replicate (limit - 1) (e minute_span) @ replicate limit (e (minute_span + 1)))
      (new_request_limiter limit)
    = [e 0] @ replicate (limit - 1) (e minute_span) @ replicate limit (e (minute_span + 1))"
    using assms
    by (intro request_window.accepted_burst [where t = 0 and k = ip])
      (simp_all add: e_def minute_span_def ns_per_sec_def)
  then show ?thesis using assms by (simp add: Let_def flip: e_def)
qed

theorem request_window_is_fixed_witness:
  "let e = (\<lambda>t. \<lparr>req_order = id, req_now = t, req_time = t, req_ip = ''a''\<rparr>);
       burst = replicate (10 - 1) (e minute_span) @ replicate 10 (e (minute_span + 1))
   in accepted request_passes request_hit (e 0 # burst) (new_request_limiter 10) = e 0 # burst
      \<and> length burst = 2 * 10 - 1"
  by (rule request_window_is_fixed) simp

text \<open>The cap on tracked addresses does not bound the request limiter: requests from any number
  of distinct addresses within a minute leave one entry each, beyond \<^verbatim>\<open>max_tracked_ips\<close>.\<close>

theorem request_limiter_cap_not_enforced:
  assumes "1 \<le> limit" and "distinct ips"
  shows "request_limiter_size (fold request_hit
      (map (\<lambda>ip. \<lparr>req_order = (\<lambda>m. m), req_now = now, req_time = now, req_ip = ip\<rparr>) ips)
      ((new_request_limiter limit)\<lparr>request_max_tracked_ips := cap\<rparr>)) = length ips"
  using request_growth [of "(new_request_limiter limit)\<lparr>request_max_tracked_ips := cap\<rparr>" ips now]
    assms by (simp add: new_request_limiter_def request_limiter_size_def)

theorem request_limiter_cap_not_enforced_witness:
  "request_limiter_size (fold request_hit
      (map (\<lambda>ip. \<lparr>req_order = (\<lambda>m. m), req_now = 7, req_time = 7, req_ip = ip\<rparr>) [''a'', ''b'', ''c''])
      ((new_request_limiter 1)\<lparr>request_max_tracked_ips := 2\<rparr>)) = length [''a'', ''b'', ''c'']"
  by (rule request_limiter_cap_not_enforced) simp_all

subsection \<open>Properties: the authentication limiter\<close>

text \<open>C21. An address is blocked on its own account only: if the limiter calls it blocked, more than
  \<^verbatim>\<open>max_failures\<close> failures were recorded for that address within the last window, whatever the
  order of calls, of table rehashes and of evictions.\<close>

theorem auth_block_needs_own_failures:
  assumes "auth_inv window limit t lim" and "auth_live lim t ip = None"
    and "sorted (t # map auth_time es @ [now])" and "\<forall>e \<in> set es. auth_well e"
    and "fst (is_blocked now ip (fold auth_hit es lim))"
  shows "limit < length (filter (\<lambda>e. auth_key e = Some ip
           \<and> now - auth_time e \<le> window * ns_per_sec) es)"
proof -
  have so: "sorted (t # map auth_time es)" and tn: "t \<le> now"
    and w: "\<forall>e \<in> set es. auth_well e \<and> auth_time e \<le> now"
    using assms(3,4) by (auto simp: sorted_append)
  have "auth_live lim now ip = None"
    using auth_window.live_later [OF assms(1) tn, of ip] assms(2) by simp
  then have "hits_in (auth_live (fold auth_hit es lim) now ip)
      \<le> length (filter (\<lambda>e. auth_key e = Some ip \<and> now - auth_time e \<le> window * ns_per_sec) es)"
    using auth_window.counted_hits [OF assms(1) so w tn, of ip] by (simp add: hits_in_def)
  moreover have "max_failures (fold auth_hit es lim) = limit"
    using auth_window.invar_fold [OF assms(1) so w tn] by (simp add: auth_inv_def)
  ultimately show ?thesis using assms(5) by (simp add: is_blocked_result)
qed

theorem auth_block_needs_own_failures_witness:
  "1 < length (filter (\<lambda>e. auth_key e = Some ''a'' \<and> 3 - auth_time e \<le> 60 * ns_per_sec)
     [RecordFailure rev 1 1 ''a'', RecordFailure rev 2 2 ''b'', AskBlocked 2 ''b'', RecordFailure rev 3 3 ''a''])"
proof (rule auth_block_needs_own_failures [where t = 0 and lim = "new_auth_limiter 1 60"])
  show "fst (is_blocked 3 ''a'' (fold auth_hit
     [RecordFailure rev 1 1 ''a'', RecordFailure rev 2 2 ''b'', AskBlocked 2 ''b'', RecordFailure rev 3 3 ''a'']
     (new_auth_limiter 1 60)))"
    by (simp add: new_auth_limiter_def check_and_record_failure_def subscript_def
        auth_expired_def ns_per_sec_def is_blocked_def Let_def)
qed simp_all

text \<open>C22. A block holds until its window ends: after a failure that exceeds the limit, recorded
  while the table was within its cap, the address stays blocked at every later time of the
  window and is free after it.\<close>

theorem auth_block_lasts_for_the_window:
  assumes "is_reorder order" and "auth_inv window limit now lim"
    and "auth_limiter_size lim < auth_max_tracked_ips lim"
    and "check_and_record_failure order now fresh ip lim = (True, lim')" and "now \<le> u"
  shows "fst (is_blocked u ip lim') \<longleftrightarrow>
    u - failure_window_start (auth_entry now fresh lim ip) \<le> window * ns_per_sec"
proof -
  let ?e = "auth_entry now fresh lim ip"
  have d: "distinct_keys (auth_ip_states lim)" and w: "window_secs lim = window"
    using assms(2) by (auto simp: auth_inv_def)
  let ?r = "check_and_record_failure order now fresh ip lim"
  obtain m where m: "distinct_keys m" "lookup m = (lookup (auth_ip_states lim))(ip \<mapsto> ?e)"
    "length m = (if lookup (auth_ip_states lim) ip = None
                   then Suc (length (auth_ip_states lim)) else length (auth_ip_states lim))"
    "fst ?r = (failures ?e > max_failures lim)"
    "snd ?r = (if auth_max_tracked_ips lim > 0 \<and> length m > auth_max_tracked_ips lim
          then evict_to_cap now (lim\<lparr>auth_ip_states := m\<rparr>) else lim\<lparr>auth_ip_states := m\<rparr>)"
    using check_and_record_failure_result [OF assms(1) d, of ip now fresh] by blast
  have b: "max_failures lim < failures ?e" using m(4) assms(4) by simp
  have "\<not> length m > auth_max_tracked_ips lim"
    using m(3) assms(3) by (simp add: auth_limiter_size_def split: if_splits)
  then have "lim' = lim\<lparr>auth_ip_states := m\<rparr>" and "lookup m ip = Some ?e"
    using m(2,5) assms(4) by auto
  then show ?thesis using b w by (simp add: is_blocked_def auth_expired_def)
qed

theorem auth_block_lasts_for_the_window_witness:
  "\<exists>lim'. check_and_record_failure rev 7 8 ''a'' (new_auth_limiter 0 60) = (True, lim')
    \<and> (fst (is_blocked 9 ''a'' lim') \<longleftrightarrow>
         9 - failure_window_start (auth_entry 7 8 (new_auth_limiter 0 60) ''a'') \<le> 60 * ns_per_sec)"
proof -
  let ?lim' = "(new_auth_limiter 0 60)\<lparr>auth_ip_states :=
    [(''a'', \<lparr>failures = 1, failure_window_start = 8\<rparr>)]\<rparr>"
  have r: "check_and_record_failure rev 7 8 ''a'' (new_auth_limiter 0 60) = (True, ?lim')"
    by (simp add: new_auth_limiter_def check_and_record_failure_def subscript_def
        auth_expired_def ns_per_sec_def)
  show ?thesis
    using r auth_block_lasts_for_the_window [OF is_reorder_id(3) new_auth_limiter_inv _ r, of 9]
    by (auto simp: auth_limiter_size_def new_auth_limiter_def)
qed

text \<open>The table never outgrows its cap: every run of failures and queries ends with at most
  \<^verbatim>\<open>max_tracked_ips\<close> addresses tracked.\<close>

theorem auth_limiter_cap:
  assumes "auth_inv window limit t lim" and "sorted (t # map auth_time es)"
    and "\<forall>e \<in> set es. auth_well e" and "0 < auth_max_tracked_ips lim"
    and "auth_limiter_size lim \<le> auth_max_tracked_ips lim"
  shows "auth_limiter_size (fold auth_hit es lim) \<le> auth_max_tracked_ips lim"
  using assms by (rule auth_run_size)

theorem auth_limiter_cap_witness:
  "auth_limiter_size (fold auth_hit [RecordFailure rev 1 1 ''a'', RecordFailure id 2 2 ''b'']
      ((new_auth_limiter 3 60)\<lparr>auth_max_tracked_ips := 1\<rparr>))
   \<le> auth_max_tracked_ips ((new_auth_limiter 3 60)\<lparr>auth_max_tracked_ips := 1\<rparr>)"
  by (rule auth_limiter_cap [where t = 0 and window = 60 and limit = 3])
    (simp_all add: auth_inv_def new_auth_limiter_def auth_limiter_size_def)

text \<open>C27. What \<^verbatim>\<open>evict_to_cap\<close> drops: it keeps as many unexpired entries as fit under the cap, keeps
  nothing expired, and every unexpired entry it drops is at least as old as every entry it
  keeps.\<close>

theorem evict_to_cap_keeps_the_youngest:
  assumes "distinct_keys (auth_ip_states lim)"
  shows "let unexpired = filter (\<lambda>(ip, st). \<not> auth_expired lim now st) (auth_ip_states lim);
             kept = auth_ip_states (evict_to_cap now lim) in
     set kept \<subseteq> set unexpired
     \<and> length kept = min (auth_max_tracked_ips lim) (length unexpired)
     \<and> (\<forall>x \<in> set unexpired - set kept. \<forall>y \<in> set kept.
          failure_window_start (snd x) \<le> failure_window_start (snd y))"
proof -
  let ?cap = "auth_max_tracked_ips lim"
  let ?m = "filter (\<lambda>(ip, st). \<not> auth_expired lim now st) (auth_ip_states lim)"
  have d: "distinct_keys ?m" using assms by simp
  have "auth_ip_states (evict_to_cap now lim) = evict_oldest ?cap ?m"
    by (simp add: evict_to_cap_def)
  then show ?thesis
    unfolding Let_def
    using evict_oldest_subset [OF d, of ?cap] evict_oldest_length [OF d, of ?cap]
      evict_oldest_order [OF d, where cap = ?cap]
    by (simp del: set_filter)
qed

theorem evict_to_cap_keeps_the_youngest_witness:
  "let lim = \<lparr>max_failures = 1, window_secs = 60, auth_max_tracked_ips = 1, auth_ip_states =
         [(''a'', \<lparr>failures = 1, failure_window_start = 4\<rparr>),
          (''b'', \<lparr>failures = 1, failure_window_start = 5\<rparr>)]\<rparr>;
       unexpired = filter (\<lambda>(ip, st). \<not> auth_expired lim 9 st) (auth_ip_states lim);
       kept = auth_ip_states (evict_to_cap 9 lim) in
     set kept \<subseteq> set unexpired
     \<and> length kept = min (auth_max_tracked_ips lim) (length unexpired)
     \<and> (\<forall>x \<in> set unexpired - set kept. \<forall>y \<in> set kept.
          failure_window_start (snd x) \<le> failure_window_start (snd y))"
  unfolding Let_def by (rule evict_to_cap_keeps_the_youngest [unfolded Let_def])
    (simp add: distinct_keys_def)

end
