(* ===== verification/Config.thy ===== *)
theory Config
  imports Prelude
begin

text \<open>
  Configuration: \<^verbatim>\<open>src/config/config.hpp\<close> and \<^verbatim>\<open>src/config/config.cpp\<close>. Integer parsing as
  \<^verbatim>\<open>std::stoi\<close> does it, the environment overrides, the loading of the TOML file, and the
  validation whose first failing check is the exception thrown.

  The process environment is a map from names to values. The TOML library and the file system
  are parameters: whether the path exists, and what parsing it yields (\<open>None\<close> for the
  \<^verbatim>\<open>toml::parse_error\<close> the code catches), seen through the typed lookups the code makes. The overload of
  \<^verbatim>\<open>std::filesystem::exists\<close> the code calls throws when the path cannot be examined; nothing catches that
  and the program ends before it has a configuration. The model is of the runs in which it returns.
\<close>

subsection \<open>Integers from text\<close>

definition is_digit :: "char \<Rightarrow> bool" where
  "is_digit c \<longleftrightarrow> 48 \<le> (of_char c :: nat) \<and> (of_char c :: nat) \<le> 57"

definition digits_value :: "string \<Rightarrow> nat" where
  "digits_value s = foldl (\<lambda>v c. 10 * v + (of_char c - 48)) 0 s"

text \<open>\<^verbatim>\<open>std::stoi(s, &pos)\<close>: the value and the position after it, or \<open>None\<close> for the exceptions
  \<^verbatim>\<open>invalid_argument\<close> (no digits) and \<^verbatim>\<open>out_of_range\<close>.\<close>

fun split_sign :: "string \<Rightarrow> bool \<times> string" where
  "split_sign [] = (False, [])"
| "split_sign (c # r) =
     (if c = CHR ''-'' then (True, r) else if c = CHR ''+'' then (False, r) else (False, c # r))"

definition stoi :: "string \<Rightarrow> (int \<times> nat) option" where
  "stoi s =
     (let (negative, s2) = split_sign (dropWhile isspace s);
          digits = takeWhile is_digit s2;
          v = (if negative then - int (digits_value digits) else int (digits_value digits))
      in if digits = [] then None
         else if v < INT_MIN \<or> v > INT_MAX then None
         else Some (v, length s - length (dropWhile is_digit s2)))"

text \<open>A null pointer is \<open>None\<close>.\<close>

definition safe_atoi :: "string option \<Rightarrow> int \<Rightarrow> int" where
  "safe_atoi str default_val =
     (case str of
        None \<Rightarrow> default_val
      | Some s \<Rightarrow>
          if s = [] then default_val
          else case stoi s of
            None \<Rightarrow> default_val
          | Some (result, pos) \<Rightarrow> if pos \<noteq> length s then default_val else result)"

definition safe_narrow :: "int \<Rightarrow> int \<Rightarrow> int" where
  "safe_narrow val default_val =
     (if val < INT_MIN \<or> val > INT_MAX then default_val else val)"

definition parse_bool :: "string option \<Rightarrow> bool" where
  "parse_bool str = (case str of None \<Rightarrow> False | Some s \<Rightarrow> s = ''true'' \<or> s = ''1'')"

subsection \<open>The configuration record\<close>

record ServerConfig =
  host :: string
  port :: int
  max_connections :: int
  model_path :: string
  default_voice :: string
  max_queue_depth :: int
  workers :: int
  max_input_chars :: int
  request_timeout_seconds :: int
  api_key :: string
  require_auth :: bool
  auth_rate_limit_max :: int
  auth_rate_limit_window :: int
  request_rate_limit_rpm :: int
  trust_proxy :: bool
  trusted_proxy_hops :: int
  log_level :: string
  log_format :: string
  config_path :: string

definition default_config :: ServerConfig where
  "default_config = \<lparr>host = ''0.0.0.0'', port = 9090, max_connections = 100,
     model_path = [], default_voice = ''neutral_female'',
     max_queue_depth = 10, workers = 1, max_input_chars = 4096, request_timeout_seconds = 300,
     api_key = [], require_auth = False, auth_rate_limit_max = 10, auth_rate_limit_window = 60,
     request_rate_limit_rpm = 10, trust_proxy = False, trusted_proxy_hops = 1,
     log_level = ''info'', log_format = ''text'', config_path = ''config/server.toml''\<rparr>"

subsection \<open>Environment overrides\<close>

type_synonym env = "string \<Rightarrow> string option"

text \<open>\<^verbatim>\<open>if (auto* v = std::getenv(name)) ...\<close>\<close>

definition on_env :: "env \<Rightarrow> string \<Rightarrow> (string \<Rightarrow> ServerConfig \<Rightarrow> ServerConfig)
    \<Rightarrow> ServerConfig \<Rightarrow> ServerConfig" where
  "on_env env name set_field cfg =
     (case env name of None \<Rightarrow> cfg | Some v \<Rightarrow> set_field v cfg)"

definition apply_env_overrides :: "env \<Rightarrow> ServerConfig \<Rightarrow> ServerConfig" where
  "apply_env_overrides env cfg =
    (let cfg = on_env env ''TTS_HOST'' (\<lambda>v c. c\<lparr>host := v\<rparr>) cfg;
         cfg = on_env env ''TTS_PORT'' (\<lambda>v c. c\<lparr>port := safe_atoi (Some v) (port c)\<rparr>) cfg;
         cfg = on_env env ''TTS_MAX_CONNECTIONS''
                 (\<lambda>v c. c\<lparr>max_connections := safe_atoi (Some v) (max_connections c)\<rparr>) cfg;
         cfg = on_env env ''TTS_MODEL_PATH'' (\<lambda>v c. c\<lparr>model_path := v\<rparr>) cfg;
         cfg = on_env env ''TTS_DEFAULT_VOICE'' (\<lambda>v c. c\<lparr>default_voice := v\<rparr>) cfg;
         cfg = on_env env ''TTS_MAX_QUEUE_DEPTH''
                 (\<lambda>v c. c\<lparr>max_queue_depth := safe_atoi (Some v) (max_queue_depth c)\<rparr>) cfg;
         cfg = on_env env ''TTS_WORKERS'' (\<lambda>v c. c\<lparr>workers := safe_atoi (Some v) (workers c)\<rparr>) cfg;
         cfg = on_env env ''TTS_MAX_INPUT_CHARS''
                 (\<lambda>v c. c\<lparr>max_input_chars := safe_atoi (Some v) (max_input_chars c)\<rparr>) cfg;
         cfg = on_env env ''TTS_REQUEST_TIMEOUT''
                 (\<lambda>v c. c\<lparr>request_timeout_seconds := safe_atoi (Some v) (request_timeout_seconds c)\<rparr>) cfg;
         cfg = on_env env ''TTS_API_KEY'' (\<lambda>v c. c\<lparr>api_key := v\<rparr>) cfg;
         cfg = on_env env ''TTS_REQUIRE_AUTH'' (\<lambda>v c. c\<lparr>require_auth := parse_bool (Some v)\<rparr>) cfg;
         cfg = on_env env ''TTS_AUTH_RATE_LIMIT_MAX''
                 (\<lambda>v c. c\<lparr>auth_rate_limit_max := safe_atoi (Some v) (auth_rate_limit_max c)\<rparr>) cfg;
         cfg = on_env env ''TTS_AUTH_RATE_LIMIT_WINDOW''
                 (\<lambda>v c. c\<lparr>auth_rate_limit_window := safe_atoi (Some v) (auth_rate_limit_window c)\<rparr>) cfg;
         cfg = on_env env ''TTS_RATE_LIMIT_RPM''
                 (\<lambda>v c. c\<lparr>request_rate_limit_rpm := safe_atoi (Some v) (request_rate_limit_rpm c)\<rparr>) cfg;
         cfg = on_env env ''TTS_TRUST_PROXY'' (\<lambda>v c. c\<lparr>trust_proxy := parse_bool (Some v)\<rparr>) cfg;
         cfg = on_env env ''TTS_TRUSTED_PROXY_HOPS''
                 (\<lambda>v c. c\<lparr>trusted_proxy_hops := safe_atoi (Some v) (trusted_proxy_hops c)\<rparr>) cfg;
         cfg = on_env env ''TTS_LOG_LEVEL'' (\<lambda>v c. c\<lparr>log_level := v\<rparr>) cfg;
         cfg = on_env env ''TTS_LOG_FORMAT'' (\<lambda>v c. c\<lparr>log_format := v\<rparr>) cfg;
         cfg = on_env env ''TTS_CONFIG_PATH'' (\<lambda>v c. c\<lparr>config_path := v\<rparr>) cfg
     in cfg)"

definition from_env :: "env \<Rightarrow> ServerConfig" where
  "from_env env = apply_env_overrides env default_config"

subsection \<open>The configuration file\<close>

text \<open>The typed lookups \<^verbatim>\<open>tbl[section][key].value<T>()\<close> of a parsed document.\<close>

record toml_table =
  toml_string :: "string \<Rightarrow> string \<Rightarrow> string option"
  toml_int :: "string \<Rightarrow> string \<Rightarrow> int option"
  toml_bool :: "string \<Rightarrow> string \<Rightarrow> bool option"

definition on_value :: "'a option \<Rightarrow> ('a \<Rightarrow> ServerConfig \<Rightarrow> ServerConfig) \<Rightarrow> ServerConfig \<Rightarrow> ServerConfig"
where
  "on_value v set_field cfg = (case v of None \<Rightarrow> cfg | Some x \<Rightarrow> set_field x cfg)"

definition apply_toml :: "toml_table \<Rightarrow> ServerConfig \<Rightarrow> ServerConfig" where
  "apply_toml tbl cfg =
    (let cfg = on_value (toml_string tbl ''server'' ''host'') (\<lambda>v c. c\<lparr>host := v\<rparr>) cfg;
         cfg = on_value (toml_int tbl ''server'' ''port'')
                 (\<lambda>v c. c\<lparr>port := safe_narrow v (port c)\<rparr>) cfg;
         cfg = on_value (toml_int tbl ''server'' ''max_connections'')
                 (\<lambda>v c. c\<lparr>max_connections := safe_narrow v (max_connections c)\<rparr>) cfg;
         cfg = on_value (toml_string tbl ''model'' ''path'') (\<lambda>v c. c\<lparr>model_path := v\<rparr>) cfg;
         cfg = on_value (toml_string tbl ''model'' ''default_voice'')
                 (\<lambda>v c. c\<lparr>default_voice := v\<rparr>) cfg;
         cfg = on_value (toml_int tbl ''inference'' ''max_queue_depth'')
                 (\<lambda>v c. c\<lparr>max_queue_depth := safe_narrow v (max_queue_depth c)\<rparr>) cfg;
         cfg = on_value (toml_int tbl ''inference'' ''workers'')
                 (\<lambda>v c. c\<lparr>workers := safe_narrow v (workers c)\<rparr>) cfg;
         cfg = on_value (toml_int tbl ''inference'' ''max_input_chars'')
                 (\<lambda>v c. c\<lparr>max_input_chars := safe_narrow v (max_input_chars c)\<rparr>) cfg;
         cfg = on_value (toml_int tbl ''inference'' ''request_timeout_seconds'')
                 (\<lambda>v c. c\<lparr>request_timeout_seconds := safe_narrow v (request_timeout_seconds c)\<rparr>) cfg;
         cfg = on_value (toml_bool tbl ''auth'' ''require_auth'') (\<lambda>v c. c\<lparr>require_auth := v\<rparr>) cfg;
         cfg = on_value (toml_int tbl ''auth'' ''rate_limit_max'')
                 (\<lambda>v c. c\<lparr>auth_rate_limit_max := safe_narrow v (auth_rate_limit_max c)\<rparr>) cfg;
         cfg = on_value (toml_int tbl ''auth'' ''rate_limit_window'')
                 (\<lambda>v c. c\<lparr>auth_rate_limit_window := safe_narrow v (auth_rate_limit_window c)\<rparr>) cfg;
         cfg = on_value (toml_int tbl ''auth'' ''request_rate_limit_rpm'')
                 (\<lambda>v c. c\<lparr>request_rate_limit_rpm := safe_narrow v (request_rate_limit_rpm c)\<rparr>) cfg;
         cfg = on_value (toml_bool tbl ''auth'' ''trust_proxy'') (\<lambda>v c. c\<lparr>trust_proxy := v\<rparr>) cfg;
         cfg = on_value (toml_int tbl ''auth'' ''trusted_proxy_hops'')
                 (\<lambda>v c. c\<lparr>trusted_proxy_hops := safe_narrow v (trusted_proxy_hops c)\<rparr>) cfg;
         cfg = on_value (toml_string tbl ''logging'' ''level'') (\<lambda>v c. c\<lparr>log_level := v\<rparr>) cfg;
         cfg = on_value (toml_string tbl ''logging'' ''format'') (\<lambda>v c. c\<lparr>log_format := v\<rparr>) cfg
     in cfg)"

definition from_file_and_env ::
  "(string \<Rightarrow> bool) \<Rightarrow> (string \<Rightarrow> toml_table option) \<Rightarrow> env \<Rightarrow> string \<Rightarrow> ServerConfig" where
  "from_file_and_env file_exists parse_file env path =
     (let cfg = default_config\<lparr>config_path := path\<rparr>;
          cfg = (if file_exists path
                 then case parse_file path of
                        Some tbl \<Rightarrow> apply_toml tbl cfg
                      | None \<Rightarrow> cfg
                 else cfg)
      in apply_env_overrides env cfg)"

subsection \<open>Validation\<close>

text \<open>\<open>Inl\<close> is the \<^verbatim>\<open>std::invalid_argument\<close> thrown, with its message; the checks run in the
  code's order.\<close>

definition validate :: "ServerConfig \<Rightarrow> string + unit" where
  "validate cfg =
    (if port cfg < 1 \<or> port cfg > 65535 then
       Inl (''Invalid port: must be 1-65535, got '' @ int_to_string (port cfg))
     else if max_connections cfg < 1 then Inl ''max_connections must be >= 1''
     else if model_path cfg = [] then
       Inl (''model_path must not be empty '' @ em_dash
            @ '' set [model].path in config or TTS_MODEL_PATH env var'')
     else if max_input_chars cfg < 1 then Inl ''max_input_chars must be > 0''
     else if workers cfg < 1 then Inl ''workers must be >= 1''
     else if max_queue_depth cfg < 1 then Inl ''max_queue_depth must be >= 1''
     else if request_timeout_seconds cfg < 1 then Inl ''request_timeout_seconds must be >= 1''
     else if auth_rate_limit_max cfg < 1 then Inl ''auth_rate_limit_max must be >= 1''
     else if auth_rate_limit_window cfg < 1 then Inl ''auth_rate_limit_window must be >= 1''
     else if request_rate_limit_rpm cfg < 1 then Inl ''request_rate_limit_rpm must be >= 1''
     else if trusted_proxy_hops cfg < 1 then Inl ''trusted_proxy_hops must be >= 1''
     else if require_auth cfg \<and> api_key cfg = [] then
       Inl (''TTS_REQUIRE_AUTH=true but TTS_API_KEY is empty '' @ em_dash
            @ '' set TTS_API_KEY or disable auth with TTS_REQUIRE_AUTH=false'')
     else if log_level cfg \<noteq> ''trace'' \<and> log_level cfg \<noteq> ''debug'' \<and> log_level cfg \<noteq> ''info''
          \<and> log_level cfg \<noteq> ''warn'' \<and> log_level cfg \<noteq> ''error'' \<and> log_level cfg \<noteq> ''critical'' then
       Inl (''Invalid log_level '' @ quoted (log_level cfg) @ '' '' @ em_dash
            @ '' must be one of: trace, debug, info, warn, error, critical'')
     else if log_format cfg \<noteq> ''text'' \<and> log_format cfg \<noteq> ''json'' then
       Inl (''Invalid log_format '' @ quoted (log_format cfg) @ '' '' @ em_dash
            @ '' must be '' @ quoted ''text'' @ '' or '' @ quoted ''json'')
     else Inr ())"

subsection \<open>Lemmas: integers from text\<close>

lemma digit_char_facts [simp]:
  "d < 10 \<Longrightarrow> is_digit (digit_char d)" "d < 10 \<Longrightarrow> of_char (digit_char d) - 48 = d"
  by (simp_all add: is_digit_def)

lemma is_digit_not_space: "is_digit c \<Longrightarrow> \<not> isspace c"
  by (simp add: is_digit_def isspace_def Let_def)

lemma is_digit_not_sign: "is_digit c \<Longrightarrow> c \<noteq> CHR ''-'' \<and> c \<noteq> CHR ''+''"
  by (auto simp: is_digit_def)

lemma sign_not_space: "\<not> isspace (CHR ''-'')" "\<not> isspace (CHR ''+'')"
  by (simp_all add: isspace_def)

lemma nat_to_string_digits: "\<forall>c \<in> set (nat_to_string n). is_digit c"
proof (induction n rule: nat_to_string.induct)
  case (1 n)
  then show ?case by (subst nat_to_string.simps) auto
qed

lemma digits_value_nat_to_string [simp]: "digits_value (nat_to_string n) = n"
proof (induction n rule: nat_to_string.induct)
  case (1 n)
  then show ?case
    by (subst nat_to_string.simps) (auto simp: digits_value_def)
qed

text \<open>The texts that spell an integer: blanks, an optional sign, digits.\<close>

definition int_literal :: "string \<Rightarrow> int \<Rightarrow> bool" where
  "int_literal s i \<longleftrightarrow>
     (\<exists>blanks sign digits. s = blanks @ sign @ digits \<and> (\<forall>c \<in> set blanks. isspace c)
        \<and> sign \<in> {[], ''+'', ''-''} \<and> digits \<noteq> [] \<and> (\<forall>c \<in> set digits. is_digit c)
        \<and> i = (if sign = ''-'' then - int (digits_value digits) else int (digits_value digits)))"

lemma dropWhile_blanks:
  assumes "\<forall>c \<in> set blanks. isspace c" and "r \<noteq> [] \<Longrightarrow> \<not> isspace (hd r)"
  shows "dropWhile isspace (blanks @ r) = r"
  using assms by (induction blanks) (auto simp: neq_Nil_conv dropWhile_eq_self_iff)

lemma split_sign_digits:
  assumes "digits \<noteq> []" and "\<forall>c \<in> set digits. is_digit c" and "sign \<in> {[], ''+'', ''-''}"
  shows "split_sign (sign @ digits) = (sign = ''-'', digits)"
    and "\<not> isspace (hd (sign @ digits))"
proof -
  obtain x xs where x: "digits = x # xs" using assms(1) by (cases digits) auto
  with assms(2) have "x \<noteq> CHR ''-''" "x \<noteq> CHR ''+''" "\<not> isspace x"
    using is_digit_not_sign is_digit_not_space by auto
  with assms(3) x show "split_sign (sign @ digits) = (sign = ''-'', digits)"
    and "\<not> isspace (hd (sign @ digits))" by (auto simp: sign_not_space)
qed

lemma split_sign_cases:
  assumes "split_sign s = (negative, r)"
  shows "\<exists>sign \<in> {[], ''+'', ''-''}. s = sign @ r \<and> (negative \<longleftrightarrow> sign = ''-'')"
  using assms by (cases s) (auto split: if_splits)

lemma stoi_literal:
  assumes "int_literal s i"
  shows "stoi s = (if i < INT_MIN \<or> i > INT_MAX then None else Some (i, length s))"
proof -
  obtain blanks sign digits where
    s: "s = blanks @ sign @ digits" and b: "\<forall>c \<in> set blanks. isspace c"
    and sign: "sign \<in> {[], ''+'', ''-''}" and d: "digits \<noteq> []" "\<forall>c \<in> set digits. is_digit c"
    and i: "i = (if sign = ''-'' then - int (digits_value digits) else int (digits_value digits))"
    using assms unfolding int_literal_def by blast
  have t: "takeWhile is_digit digits = digits" "dropWhile is_digit digits = []"
    using d(2) by (auto simp: takeWhile_eq_all_conv)
  have "dropWhile isspace s = sign @ digits"
    unfolding s using b split_sign_digits(2) [OF d sign] by (rule dropWhile_blanks)
  then show ?thesis
    unfolding stoi_def using d(1) i by (simp add: Let_def t split_sign_digits(1) [OF d sign])
qed

lemma stoi_full_literal:
  assumes "stoi s = Some (i, length s)"
  shows "int_literal s i \<and> INT_MIN \<le> i \<and> i \<le> INT_MAX"
proof -
  obtain negative s2 where sp: "split_sign (dropWhile isspace s) = (negative, s2)"
    by (cases "split_sign (dropWhile isspace s)")
  then obtain sign where sign: "sign \<in> {[], ''+'', ''-''}"
    and s1: "dropWhile isspace s = sign @ s2" and neg: "negative \<longleftrightarrow> sign = ''-''"
    using split_sign_cases by blast
  let ?d = "takeWhile is_digit s2"
  have r: "?d \<noteq> []" "i = (if sign = ''-'' then - int (digits_value ?d) else int (digits_value ?d))"
    "INT_MIN \<le> i" "i \<le> INT_MAX" "length s - length (dropWhile is_digit s2) = length s"
    using assms sp neg unfolding stoi_def by (auto simp: Let_def split: if_splits)
  have "length (sign @ s2) \<le> length s"
    using length_dropWhile_le [of isspace s] s1 by simp
  then have "length (dropWhile is_digit s2) \<le> length s"
    using length_dropWhile_le [of is_digit s2] by simp
  moreover have "s2 \<noteq> []" using r(1) by auto
  ultimately have "dropWhile is_digit s2 = []" using r(5)
    by (metis diff_diff_cancel diff_self_eq_0 length_0_conv)
  then have d: "?d = s2" by (metis append_Nil2 takeWhile_dropWhile_id)
  have "s = takeWhile isspace s @ sign @ s2" using s1 by (metis takeWhile_dropWhile_id)
  moreover have "\<forall>c \<in> set s2. is_digit c" using d by (metis set_takeWhileD)
  moreover have "\<forall>c \<in> set (takeWhile isspace s). isspace c" by (auto dest: set_takeWhileD)
  ultimately have "int_literal s i"
    using r(1,2) [unfolded d] sign unfolding int_literal_def by blast
  then show ?thesis using r by simp
qed

lemma int_literal_int_to_string: "int_literal (int_to_string i) i"
proof (cases "i < 0")
  case True
  have "int_to_string i = [] @ ''-'' @ nat_to_string (nat (- i))"
    using True by (simp add: int_to_string_def)
  then show ?thesis unfolding int_literal_def
    using True nat_to_string_digits [of "nat (- i)"]
    by (intro exI [of _ "[]"] exI [of _ "''-''"] exI [of _ "nat_to_string (nat (- i))"]) auto
next
  case False
  have "int_to_string i = [] @ [] @ nat_to_string (nat i)"
    using False by (simp add: int_to_string_def)
  then show ?thesis unfolding int_literal_def
    using False nat_to_string_digits [of "nat i"]
    by (intro exI [of _ "[]"] exI [of _ "nat_to_string (nat i)"]) auto
qed

lemma int_literal_blanks:
  assumes "int_literal s i" and "\<forall>c \<in> set blanks. isspace c"
  shows "int_literal (blanks @ s) i"
proof -
  obtain b sign digits where s: "s = b @ sign @ digits" "\<forall>c \<in> set b. isspace c"
    "sign \<in> {[], ''+'', ''-''}" "digits \<noteq> []" "\<forall>c \<in> set digits. is_digit c"
    "i = (if sign = ''-'' then - int (digits_value digits) else int (digits_value digits))"
    using assms(1) unfolding int_literal_def by blast
  have "blanks @ s = (blanks @ b) @ sign @ digits" "\<forall>c \<in> set (blanks @ b). isspace c"
    using s(1,2) assms(2) by auto
  with s(3-6) show ?thesis unfolding int_literal_def by blast
qed

lemma safe_atoi_literal:
  assumes "int_literal s i" and "INT_MIN \<le> i" and "i \<le> INT_MAX"
  shows "safe_atoi (Some s) d = i"
proof -
  have "s \<noteq> []" using assms(1) by (auto simp: int_literal_def)
  then show ?thesis using stoi_literal [OF assms(1)] assms(2,3) by (simp add: safe_atoi_def)
qed

lemma safe_atoi_default:
  assumes "\<not> (\<exists>i. int_literal s i \<and> INT_MIN \<le> i \<and> i \<le> INT_MAX)"
  shows "safe_atoi (Some s) d = d"
  using assms stoi_full_literal by (fastforce simp: safe_atoi_def split: option.splits)

definition in_int_range :: "int \<Rightarrow> bool" where
  "in_int_range i \<longleftrightarrow> INT_MIN \<le> i \<and> i \<le> INT_MAX"

lemma safe_atoi_range: "in_int_range d \<Longrightarrow> in_int_range (safe_atoi s d)"
  by (cases s) (auto simp: safe_atoi_def stoi_def in_int_range_def Let_def
      split: option.splits if_splits prod.splits)

lemma safe_narrow_range: "in_int_range d \<Longrightarrow> in_int_range (safe_narrow v d)"
  by (auto simp: safe_narrow_def in_int_range_def)

subsection \<open>Lemmas: reading the configuration\<close>

text \<open>What a setting resolves to: the environment's value over the one below it.\<close>

definition env_text :: "env \<Rightarrow> string \<Rightarrow> string \<Rightarrow> string" where
  "env_text env name below = (case env name of None \<Rightarrow> below | Some v \<Rightarrow> v)"

definition env_int :: "env \<Rightarrow> string \<Rightarrow> int \<Rightarrow> int" where
  "env_int env name below = (case env name of None \<Rightarrow> below | Some v \<Rightarrow> safe_atoi (Some v) below)"

definition env_bool :: "env \<Rightarrow> string \<Rightarrow> bool \<Rightarrow> bool" where
  "env_bool env name below = (case env name of None \<Rightarrow> below | Some v \<Rightarrow> parse_bool (Some v))"

definition file_value :: "'a option \<Rightarrow> 'a \<Rightarrow> 'a" where
  "file_value v below = (case v of None \<Rightarrow> below | Some x \<Rightarrow> x)"

definition file_int :: "int option \<Rightarrow> int \<Rightarrow> int" where
  "file_int v below = (case v of None \<Rightarrow> below | Some x \<Rightarrow> safe_narrow x below)"

lemmas resolve_defs = env_text_def env_int_def env_bool_def file_value_def file_int_def

lemma on_env_fields:
  "on_env env n (\<lambda>v c. c\<lparr>host := v\<rparr>) cfg = cfg\<lparr>host := env_text env n (host cfg)\<rparr>"
  "on_env env n (\<lambda>v c. c\<lparr>model_path := v\<rparr>) cfg = cfg\<lparr>model_path := env_text env n (model_path cfg)\<rparr>"
  "on_env env n (\<lambda>v c. c\<lparr>default_voice := v\<rparr>) cfg = cfg\<lparr>default_voice := env_text env n (default_voice cfg)\<rparr>"
  "on_env env n (\<lambda>v c. c\<lparr>api_key := v\<rparr>) cfg = cfg\<lparr>api_key := env_text env n (api_key cfg)\<rparr>"
  "on_env env n (\<lambda>v c. c\<lparr>log_level := v\<rparr>) cfg = cfg\<lparr>log_level := env_text env n (log_level cfg)\<rparr>"
  "on_env env n (\<lambda>v c. c\<lparr>log_format := v\<rparr>) cfg = cfg\<lparr>log_format := env_text env n (log_format cfg)\<rparr>"
  "on_env env n (\<lambda>v c. c\<lparr>config_path := v\<rparr>) cfg = cfg\<lparr>config_path := env_text env n (config_path cfg)\<rparr>"
  "on_env env n (\<lambda>v c. c\<lparr>port := safe_atoi (Some v) (port c)\<rparr>) cfg
     = cfg\<lparr>port := env_int env n (port cfg)\<rparr>"
  "on_env env n (\<lambda>v c. c\<lparr>max_connections := safe_atoi (Some v) (max_connections c)\<rparr>) cfg
     = cfg\<lparr>max_connections := env_int env n (max_connections cfg)\<rparr>"
  "on_env env n (\<lambda>v c. c\<lparr>max_queue_depth := safe_atoi (Some v) (max_queue_depth c)\<rparr>) cfg
     = cfg\<lparr>max_queue_depth := env_int env n (max_queue_depth cfg)\<rparr>"
  "on_env env n (\<lambda>v c. c\<lparr>workers := safe_atoi (Some v) (workers c)\<rparr>) cfg
     = cfg\<lparr>workers := env_int env n (workers cfg)\<rparr>"
  "on_env env n (\<lambda>v c. c\<lparr>max_input_chars := safe_atoi (Some v) (max_input_chars c)\<rparr>) cfg
     = cfg\<lparr>max_input_chars := env_int env n (max_input_chars cfg)\<rparr>"
  "on_env env n (\<lambda>v c. c\<lparr>request_timeout_seconds := safe_atoi (Some v) (request_timeout_seconds c)\<rparr>) cfg
     = cfg\<lparr>request_timeout_seconds := env_int env n (request_timeout_seconds cfg)\<rparr>"
  "on_env env n (\<lambda>v c. c\<lparr>auth_rate_limit_max := safe_atoi (Some v) (auth_rate_limit_max c)\<rparr>) cfg
     = cfg\<lparr>auth_rate_limit_max := env_int env n (auth_rate_limit_max cfg)\<rparr>"
  "on_env env n (\<lambda>v c. c\<lparr>auth_rate_limit_window := safe_atoi (Some v) (auth_rate_limit_window c)\<rparr>) cfg
     = cfg\<lparr>auth_rate_limit_window := env_int env n (auth_rate_limit_window cfg)\<rparr>"
  "on_env env n (\<lambda>v c. c\<lparr>request_rate_limit_rpm := safe_atoi (Some v) (request_rate_limit_rpm c)\<rparr>) cfg
     = cfg\<lparr>request_rate_limit_rpm := env_int env n (request_rate_limit_rpm cfg)\<rparr>"
  "on_env env n (\<lambda>v c. c\<lparr>trusted_proxy_hops := safe_atoi (Some v) (trusted_proxy_hops c)\<rparr>) cfg
     = cfg\<lparr>trusted_proxy_hops := env_int env n (trusted_proxy_hops cfg)\<rparr>"
  "on_env env n (\<lambda>v c. c\<lparr>require_auth := parse_bool (Some v)\<rparr>) cfg
     = cfg\<lparr>require_auth := env_bool env n (require_auth cfg)\<rparr>"
  "on_env env n (\<lambda>v c. c\<lparr>trust_proxy := parse_bool (Some v)\<rparr>) cfg
     = cfg\<lparr>trust_proxy := env_bool env n (trust_proxy cfg)\<rparr>"
  by (simp_all add: on_env_def resolve_defs split: option.split)

lemma on_value_fields:
  "on_value (x :: string option) (\<lambda>v c. c\<lparr>host := v\<rparr>) cfg = cfg\<lparr>host := file_value x (host cfg)\<rparr>"
  "on_value (x :: string option) (\<lambda>v c. c\<lparr>model_path := v\<rparr>) cfg = cfg\<lparr>model_path := file_value x (model_path cfg)\<rparr>"
  "on_value (x :: string option) (\<lambda>v c. c\<lparr>default_voice := v\<rparr>) cfg = cfg\<lparr>default_voice := file_value x (default_voice cfg)\<rparr>"
  "on_value (x :: string option) (\<lambda>v c. c\<lparr>log_level := v\<rparr>) cfg = cfg\<lparr>log_level := file_value x (log_level cfg)\<rparr>"
  "on_value (x :: string option) (\<lambda>v c. c\<lparr>log_format := v\<rparr>) cfg = cfg\<lparr>log_format := file_value x (log_format cfg)\<rparr>"
  "on_value y (\<lambda>v c. c\<lparr>require_auth := v\<rparr>) cfg = cfg\<lparr>require_auth := file_value y (require_auth cfg)\<rparr>"
  "on_value y (\<lambda>v c. c\<lparr>trust_proxy := v\<rparr>) cfg = cfg\<lparr>trust_proxy := file_value y (trust_proxy cfg)\<rparr>"
  "on_value z (\<lambda>v c. c\<lparr>port := safe_narrow v (port c)\<rparr>) cfg
     = cfg\<lparr>port := file_int z (port cfg)\<rparr>"
  "on_value z (\<lambda>v c. c\<lparr>max_connections := safe_narrow v (max_connections c)\<rparr>) cfg
     = cfg\<lparr>max_connections := file_int z (max_connections cfg)\<rparr>"
  "on_value z (\<lambda>v c. c\<lparr>max_queue_depth := safe_narrow v (max_queue_depth c)\<rparr>) cfg
     = cfg\<lparr>max_queue_depth := file_int z (max_queue_depth cfg)\<rparr>"
  "on_value z (\<lambda>v c. c\<lparr>workers := safe_narrow v (workers c)\<rparr>) cfg
     = cfg\<lparr>workers := file_int z (workers cfg)\<rparr>"
  "on_value z (\<lambda>v c. c\<lparr>max_input_chars := safe_narrow v (max_input_chars c)\<rparr>) cfg
     = cfg\<lparr>max_input_chars := file_int z (max_input_chars cfg)\<rparr>"
  "on_value z (\<lambda>v c. c\<lparr>request_timeout_seconds := safe_narrow v (request_timeout_seconds c)\<rparr>) cfg
     = cfg\<lparr>request_timeout_seconds := file_int z (request_timeout_seconds cfg)\<rparr>"
  "on_value z (\<lambda>v c. c\<lparr>auth_rate_limit_max := safe_narrow v (auth_rate_limit_max c)\<rparr>) cfg
     = cfg\<lparr>auth_rate_limit_max := file_int z (auth_rate_limit_max cfg)\<rparr>"
  "on_value z (\<lambda>v c. c\<lparr>auth_rate_limit_window := safe_narrow v (auth_rate_limit_window c)\<rparr>) cfg
     = cfg\<lparr>auth_rate_limit_window := file_int z (auth_rate_limit_window cfg)\<rparr>"
  "on_value z (\<lambda>v c. c\<lparr>request_rate_limit_rpm := safe_narrow v (request_rate_limit_rpm c)\<rparr>) cfg
     = cfg\<lparr>request_rate_limit_rpm := file_int z (request_rate_limit_rpm cfg)\<rparr>"
  "on_value z (\<lambda>v c. c\<lparr>trusted_proxy_hops := safe_narrow v (trusted_proxy_hops c)\<rparr>) cfg
     = cfg\<lparr>trusted_proxy_hops := file_int z (trusted_proxy_hops cfg)\<rparr>"
  by (simp_all add: on_value_def resolve_defs split: option.split)

lemma apply_env_overrides_eq:
  "apply_env_overrides env cfg = \<lparr>
     host = env_text env ''TTS_HOST'' (host cfg),
     port = env_int env ''TTS_PORT'' (port cfg),
     max_connections = env_int env ''TTS_MAX_CONNECTIONS'' (max_connections cfg),
     model_path = env_text env ''TTS_MODEL_PATH'' (model_path cfg),
     default_voice = env_text env ''TTS_DEFAULT_VOICE'' (default_voice cfg),
     max_queue_depth = env_int env ''TTS_MAX_QUEUE_DEPTH'' (max_queue_depth cfg),
     workers = env_int env ''TTS_WORKERS'' (workers cfg),
     max_input_chars = env_int env ''TTS_MAX_INPUT_CHARS'' (max_input_chars cfg),
     request_timeout_seconds = env_int env ''TTS_REQUEST_TIMEOUT'' (request_timeout_seconds cfg),
     api_key = env_text env ''TTS_API_KEY'' (api_key cfg),
     require_auth = env_bool env ''TTS_REQUIRE_AUTH'' (require_auth cfg),
     auth_rate_limit_max = env_int env ''TTS_AUTH_RATE_LIMIT_MAX'' (auth_rate_limit_max cfg),
     auth_rate_limit_window = env_int env ''TTS_AUTH_RATE_LIMIT_WINDOW'' (auth_rate_limit_window cfg),
     request_rate_limit_rpm = env_int env ''TTS_RATE_LIMIT_RPM'' (request_rate_limit_rpm cfg),
     trust_proxy = env_bool env ''TTS_TRUST_PROXY'' (trust_proxy cfg),
     trusted_proxy_hops = env_int env ''TTS_TRUSTED_PROXY_HOPS'' (trusted_proxy_hops cfg),
     log_level = env_text env ''TTS_LOG_LEVEL'' (log_level cfg),
     log_format = env_text env ''TTS_LOG_FORMAT'' (log_format cfg),
     config_path = env_text env ''TTS_CONFIG_PATH'' (config_path cfg)\<rparr>"
  by (cases cfg) (simp add: apply_env_overrides_def on_env_fields)

lemma apply_toml_eq:
  "apply_toml tbl cfg = \<lparr>
     host = file_value (toml_string tbl ''server'' ''host'') (host cfg),
     port = file_int (toml_int tbl ''server'' ''port'') (port cfg),
     max_connections = file_int (toml_int tbl ''server'' ''max_connections'') (max_connections cfg),
     model_path = file_value (toml_string tbl ''model'' ''path'') (model_path cfg),
     default_voice = file_value (toml_string tbl ''model'' ''default_voice'') (default_voice cfg),
     max_queue_depth = file_int (toml_int tbl ''inference'' ''max_queue_depth'') (max_queue_depth cfg),
     workers = file_int (toml_int tbl ''inference'' ''workers'') (workers cfg),
     max_input_chars = file_int (toml_int tbl ''inference'' ''max_input_chars'') (max_input_chars cfg),
     request_timeout_seconds =
       file_int (toml_int tbl ''inference'' ''request_timeout_seconds'') (request_timeout_seconds cfg),
     api_key = api_key cfg,
     require_auth = file_value (toml_bool tbl ''auth'' ''require_auth'') (require_auth cfg),
     auth_rate_limit_max = file_int (toml_int tbl ''auth'' ''rate_limit_max'') (auth_rate_limit_max cfg),
     auth_rate_limit_window =
       file_int (toml_int tbl ''auth'' ''rate_limit_window'') (auth_rate_limit_window cfg),
     request_rate_limit_rpm =
       file_int (toml_int tbl ''auth'' ''request_rate_limit_rpm'') (request_rate_limit_rpm cfg),
     trust_proxy = file_value (toml_bool tbl ''auth'' ''trust_proxy'') (trust_proxy cfg),
     trusted_proxy_hops = file_int (toml_int tbl ''auth'' ''trusted_proxy_hops'') (trusted_proxy_hops cfg),
     log_level = file_value (toml_string tbl ''logging'' ''level'') (log_level cfg),
     log_format = file_value (toml_string tbl ''logging'' ''format'') (log_format cfg),
     config_path = config_path cfg\<rparr>"
  by (cases cfg) (simp add: apply_toml_def on_value_fields)

lemma apply_toml_fields:
  "host (apply_toml tbl cfg) = file_value (toml_string tbl ''server'' ''host'') (host cfg)"
  "port (apply_toml tbl cfg) = file_int (toml_int tbl ''server'' ''port'') (port cfg)"
  "max_connections (apply_toml tbl cfg) = file_int (toml_int tbl ''server'' ''max_connections'') (max_connections cfg)"
  "model_path (apply_toml tbl cfg) = file_value (toml_string tbl ''model'' ''path'') (model_path cfg)"
  "default_voice (apply_toml tbl cfg) = file_value (toml_string tbl ''model'' ''default_voice'') (default_voice cfg)"
  "max_queue_depth (apply_toml tbl cfg) = file_int (toml_int tbl ''inference'' ''max_queue_depth'') (max_queue_depth cfg)"
  "workers (apply_toml tbl cfg) = file_int (toml_int tbl ''inference'' ''workers'') (workers cfg)"
  "max_input_chars (apply_toml tbl cfg) = file_int (toml_int tbl ''inference'' ''max_input_chars'') (max_input_chars cfg)"
  "request_timeout_seconds (apply_toml tbl cfg) = file_int (toml_int tbl ''inference'' ''request_timeout_seconds'') (request_timeout_seconds cfg)"
  "api_key (apply_toml tbl cfg) = api_key cfg"
  "require_auth (apply_toml tbl cfg) = file_value (toml_bool tbl ''auth'' ''require_auth'') (require_auth cfg)"
  "auth_rate_limit_max (apply_toml tbl cfg) = file_int (toml_int tbl ''auth'' ''rate_limit_max'') (auth_rate_limit_max cfg)"
  "auth_rate_limit_window (apply_toml tbl cfg) = file_int (toml_int tbl ''auth'' ''rate_limit_window'') (auth_rate_limit_window cfg)"
  "request_rate_limit_rpm (apply_toml tbl cfg) = file_int (toml_int tbl ''auth'' ''request_rate_limit_rpm'') (request_rate_limit_rpm cfg)"
  "trust_proxy (apply_toml tbl cfg) = file_value (toml_bool tbl ''auth'' ''trust_proxy'') (trust_proxy cfg)"
  "trusted_proxy_hops (apply_toml tbl cfg) = file_int (toml_int tbl ''auth'' ''trusted_proxy_hops'') (trusted_proxy_hops cfg)"
  "log_level (apply_toml tbl cfg) = file_value (toml_string tbl ''logging'' ''level'') (log_level cfg)"
  "log_format (apply_toml tbl cfg) = file_value (toml_string tbl ''logging'' ''format'') (log_format cfg)"
  "config_path (apply_toml tbl cfg) = config_path cfg"
  by (simp_all only: apply_toml_eq ServerConfig.simps)

lemma default_config_fields:
  "host (default_config\<lparr>config_path := path\<rparr>) = ''0.0.0.0''"
  "port (default_config\<lparr>config_path := path\<rparr>) = 9090"
  "max_connections (default_config\<lparr>config_path := path\<rparr>) = 100"
  "model_path (default_config\<lparr>config_path := path\<rparr>) = []"
  "default_voice (default_config\<lparr>config_path := path\<rparr>) = ''neutral_female''"
  "max_queue_depth (default_config\<lparr>config_path := path\<rparr>) = 10"
  "workers (default_config\<lparr>config_path := path\<rparr>) = 1"
  "max_input_chars (default_config\<lparr>config_path := path\<rparr>) = 4096"
  "request_timeout_seconds (default_config\<lparr>config_path := path\<rparr>) = 300"
  "api_key (default_config\<lparr>config_path := path\<rparr>) = []"
  "require_auth (default_config\<lparr>config_path := path\<rparr>) = False"
  "auth_rate_limit_max (default_config\<lparr>config_path := path\<rparr>) = 10"
  "auth_rate_limit_window (default_config\<lparr>config_path := path\<rparr>) = 60"
  "request_rate_limit_rpm (default_config\<lparr>config_path := path\<rparr>) = 10"
  "trust_proxy (default_config\<lparr>config_path := path\<rparr>) = False"
  "trusted_proxy_hops (default_config\<lparr>config_path := path\<rparr>) = 1"
  "log_level (default_config\<lparr>config_path := path\<rparr>) = ''info''"
  "log_format (default_config\<lparr>config_path := path\<rparr>) = ''text''"
  "config_path (default_config\<lparr>config_path := path\<rparr>) = path"
  by (simp_all only: default_config_def ServerConfig.simps)

text \<open>The configuration the file alone gives.\<close>

definition file_config :: "(string \<Rightarrow> bool) \<Rightarrow> (string \<Rightarrow> toml_table option) \<Rightarrow> string \<Rightarrow> ServerConfig" where
  "file_config file_exists parse_file path =
     (case (if file_exists path then parse_file path else None) of
        Some tbl \<Rightarrow> apply_toml tbl (default_config\<lparr>config_path := path\<rparr>)
      | None \<Rightarrow> default_config\<lparr>config_path := path\<rparr>)"

definition document :: "(string \<Rightarrow> bool) \<Rightarrow> (string \<Rightarrow> toml_table option) \<Rightarrow> string \<Rightarrow> toml_table option" where
  "document file_exists parse_file path = (if file_exists path then parse_file path else None)"

definition doc_string :: "toml_table option \<Rightarrow> string \<Rightarrow> string \<Rightarrow> string option" where
  "doc_string doc sec key = (case doc of None \<Rightarrow> None | Some tbl \<Rightarrow> toml_string tbl sec key)"

definition doc_int :: "toml_table option \<Rightarrow> string \<Rightarrow> string \<Rightarrow> int option" where
  "doc_int doc sec key = (case doc of None \<Rightarrow> None | Some tbl \<Rightarrow> toml_int tbl sec key)"

definition doc_bool :: "toml_table option \<Rightarrow> string \<Rightarrow> string \<Rightarrow> bool option" where
  "doc_bool doc sec key = (case doc of None \<Rightarrow> None | Some tbl \<Rightarrow> toml_bool tbl sec key)"

lemma doc_values [simp]:
  "file_value (doc_string (Some tbl) sec key) d = file_value (toml_string tbl sec key) d"
  "file_value (doc_bool (Some tbl) sec key) e = file_value (toml_bool tbl sec key) e"
  "file_int (doc_int (Some tbl) sec key) i = file_int (toml_int tbl sec key) i"
  "file_value (doc_string None sec key) d = d" "file_value (doc_bool None sec key) e = e"
  "file_int (doc_int None sec key) i = i"
  by (simp_all add: doc_string_def doc_int_def doc_bool_def file_value_def file_int_def)

lemma file_config_document:
  "file_config file_exists parse_file path =
     (case document file_exists parse_file path of
        Some tbl \<Rightarrow> apply_toml tbl (default_config\<lparr>config_path := path\<rparr>)
      | None \<Rightarrow> default_config\<lparr>config_path := path\<rparr>)"
  by (simp add: file_config_def document_def)

lemma file_config_fields:
  "host (file_config file_exists parse_file path)
     = file_value (doc_string (document file_exists parse_file path) ''server'' ''host'') ''0.0.0.0''"
  "port (file_config file_exists parse_file path)
     = file_int (doc_int (document file_exists parse_file path) ''server'' ''port'') 9090"
  "max_connections (file_config file_exists parse_file path)
     = file_int (doc_int (document file_exists parse_file path) ''server'' ''max_connections'') 100"
  "model_path (file_config file_exists parse_file path)
     = file_value (doc_string (document file_exists parse_file path) ''model'' ''path'') []"
  "default_voice (file_config file_exists parse_file path)
     = file_value (doc_string (document file_exists parse_file path) ''model'' ''default_voice'') ''neutral_female''"
  "max_queue_depth (file_config file_exists parse_file path)
     = file_int (doc_int (document file_exists parse_file path) ''inference'' ''max_queue_depth'') 10"
  "workers (file_config file_exists parse_file path)
     = file_int (doc_int (document file_exists parse_file path) ''inference'' ''workers'') 1"
  "max_input_chars (file_config file_exists parse_file path)
     = file_int (doc_int (document file_exists parse_file path) ''inference'' ''max_input_chars'') 4096"
  "request_timeout_seconds (file_config file_exists parse_file path)
     = file_int (doc_int (document file_exists parse_file path) ''inference'' ''request_timeout_seconds'') 300"
  "api_key (file_config file_exists parse_file path)
     = []"
  "require_auth (file_config file_exists parse_file path)
     = file_value (doc_bool (document file_exists parse_file path) ''auth'' ''require_auth'') False"
  "auth_rate_limit_max (file_config file_exists parse_file path)
     = file_int (doc_int (document file_exists parse_file path) ''auth'' ''rate_limit_max'') 10"
  "auth_rate_limit_window (file_config file_exists parse_file path)
     = file_int (doc_int (document file_exists parse_file path) ''auth'' ''rate_limit_window'') 60"
  "request_rate_limit_rpm (file_config file_exists parse_file path)
     = file_int (doc_int (document file_exists parse_file path) ''auth'' ''request_rate_limit_rpm'') 10"
  "trust_proxy (file_config file_exists parse_file path)
     = file_value (doc_bool (document file_exists parse_file path) ''auth'' ''trust_proxy'') False"
  "trusted_proxy_hops (file_config file_exists parse_file path)
     = file_int (doc_int (document file_exists parse_file path) ''auth'' ''trusted_proxy_hops'') 1"
  "log_level (file_config file_exists parse_file path)
     = file_value (doc_string (document file_exists parse_file path) ''logging'' ''level'') ''info''"
  "log_format (file_config file_exists parse_file path)
     = file_value (doc_string (document file_exists parse_file path) ''logging'' ''format'') ''text''"
  "config_path (file_config file_exists parse_file path)
     = path"
  by (cases "document file_exists parse_file path";
      simp only: file_config_document option.case apply_toml_fields default_config_fields doc_values)+

lemma from_file_and_env_eq:
  "from_file_and_env file_exists parse_file env path
     = apply_env_overrides env (file_config file_exists parse_file path)"
  by (simp add: from_file_and_env_def file_config_def Let_def split: option.splits)

definition ints_in_range :: "ServerConfig \<Rightarrow> bool" where
  "ints_in_range cfg \<longleftrightarrow> list_all in_int_range
     [port cfg, max_connections cfg, max_queue_depth cfg, workers cfg, max_input_chars cfg,
      request_timeout_seconds cfg, auth_rate_limit_max cfg, auth_rate_limit_window cfg,
      request_rate_limit_rpm cfg, trusted_proxy_hops cfg]"

lemma env_int_range: "in_int_range d \<Longrightarrow> in_int_range (env_int env n d)"
  by (simp add: env_int_def safe_atoi_range split: option.split)

lemma file_int_range: "in_int_range d \<Longrightarrow> in_int_range (file_int v d)"
  by (simp add: file_int_def safe_narrow_range split: option.split)

lemma default_config_range: "ints_in_range (default_config\<lparr>config_path := path\<rparr>)"
  by (simp add: ints_in_range_def default_config_def in_int_range_def INT_MAX_def INT_MIN_def)

lemma file_config_range: "ints_in_range (file_config file_exists parse_file path)"
  using default_config_range [of path]
  by (auto simp: file_config_def apply_toml_eq ints_in_range_def file_int_range split: option.splits)

lemma overrides_range: "ints_in_range cfg \<Longrightarrow> ints_in_range (apply_env_overrides env cfg)"
  by (simp add: apply_env_overrides_eq ints_in_range_def env_int_range)

text \<open>The configurations the server may run with.\<close>

definition valid_config :: "ServerConfig \<Rightarrow> bool" where
  "valid_config cfg \<longleftrightarrow>
     1 \<le> port cfg \<and> port cfg \<le> 65535
     \<and> list_all (\<lambda>i. 1 \<le> i)
         [max_connections cfg, max_input_chars cfg, workers cfg, max_queue_depth cfg,
          request_timeout_seconds cfg, auth_rate_limit_max cfg, auth_rate_limit_window cfg,
          request_rate_limit_rpm cfg, trusted_proxy_hops cfg]
     \<and> model_path cfg \<noteq> [] \<and> (require_auth cfg \<longrightarrow> api_key cfg \<noteq> [])
     \<and> log_level cfg \<in> {''trace'', ''debug'', ''info'', ''warn'', ''error'', ''critical''}
     \<and> log_format cfg \<in> {''text'', ''json''}"

lemma checked_ok:
  "(if bad then Inl e else r) = Inr () \<longleftrightarrow> \<not> bad \<and> r = Inr ()"
  by simp

lemma validate_valid: "validate cfg = Inr () \<longleftrightarrow> valid_config cfg"
  unfolding validate_def checked_ok valid_config_def by (simp add: not_less) blast

subsection \<open>Properties\<close>

text \<open>C37. \<^verbatim>\<open>safe_atoi\<close> reads exactly the integers: it returns the value of a text that is blanks,
  an optional sign and digits to the end of the text, when that value fits in an \<^verbatim>\<open>int\<close>, and the
  default for every other text (trailing characters, no digits, overflow, the empty text) and
  for a missing variable.\<close>

theorem safe_atoi_exact:
  "safe_atoi None d = d
   \<and> (\<forall>s. if \<exists>i. int_literal s i \<and> INT_MIN \<le> i \<and> i \<le> INT_MAX
         then int_literal s (safe_atoi (Some s) d) \<and> in_int_range (safe_atoi (Some s) d)
         else safe_atoi (Some s) d = d)"
proof (intro conjI allI)
  show "safe_atoi None d = d" by (simp add: safe_atoi_def)
next
  fix s
  consider i where "int_literal s i" "INT_MIN \<le> i" "i \<le> INT_MAX"
    | "\<not> (\<exists>i. int_literal s i \<and> INT_MIN \<le> i \<and> i \<le> INT_MAX)" by blast
  then show "if \<exists>i. int_literal s i \<and> INT_MIN \<le> i \<and> i \<le> INT_MAX
      then int_literal s (safe_atoi (Some s) d) \<and> in_int_range (safe_atoi (Some s) d)
      else safe_atoi (Some s) d = d"
  proof cases
    case 1
    then have "safe_atoi (Some s) d = i" by (rule safe_atoi_literal)
    with 1 show ?thesis by (auto simp: in_int_range_def)
  next
    case 2
    from safe_atoi_default [OF 2] show ?thesis by (simp only: 2 if_False)
  qed
qed

text \<open>Printing an \<^verbatim>\<open>int\<close> and reading it back with \<^verbatim>\<open>safe_atoi\<close> gives it back, whatever the
  default, also with blanks in front of it.\<close>

theorem safe_atoi_roundtrip:
  assumes "INT_MIN \<le> i" "i \<le> INT_MAX" "\<forall>c \<in> set blanks. isspace c"
  shows "safe_atoi (Some (blanks @ int_to_string i)) d = i"
  using int_literal_blanks [OF int_literal_int_to_string assms(3)] assms(1,2)
  by (rule safe_atoi_literal)

theorem safe_atoi_roundtrip_witness:
  "safe_atoi (Some ('' '' @ int_to_string (-8080))) 7 = -8080"
  by (rule safe_atoi_roundtrip) (simp_all add: INT_MAX_def INT_MIN_def isspace_def)

text \<open>C35. Where each of the nineteen settings comes from. A text setting is the environment's value
  when its variable is set, else the file's when it has one, else the default; an integer setting
  likewise, where a variable that does not spell an \<^verbatim>\<open>int\<close> and a file integer outside \<^verbatim>\<open>int\<close>
  count as absent; a boolean variable is true exactly for \<open>true\<close> and \<open>1\<close>. A missing or malformed
  file counts as an empty one, and the API key is never read from the file.\<close>

theorem configuration_precedence:
  "from_file_and_env file_exists parse_file env path =
   (let doc = document file_exists parse_file path in \<lparr>
     host = env_text env ''TTS_HOST'' (file_value (doc_string doc ''server'' ''host'') ''0.0.0.0''),
     port = env_int env ''TTS_PORT'' (file_int (doc_int doc ''server'' ''port'') 9090),
     max_connections = env_int env ''TTS_MAX_CONNECTIONS''
       (file_int (doc_int doc ''server'' ''max_connections'') 100),
     model_path = env_text env ''TTS_MODEL_PATH'' (file_value (doc_string doc ''model'' ''path'') []),
     default_voice = env_text env ''TTS_DEFAULT_VOICE''
       (file_value (doc_string doc ''model'' ''default_voice'') ''neutral_female''),
     max_queue_depth = env_int env ''TTS_MAX_QUEUE_DEPTH''
       (file_int (doc_int doc ''inference'' ''max_queue_depth'') 10),
     workers = env_int env ''TTS_WORKERS'' (file_int (doc_int doc ''inference'' ''workers'') 1),
     max_input_chars = env_int env ''TTS_MAX_INPUT_CHARS''
       (file_int (doc_int doc ''inference'' ''max_input_chars'') 4096),
     request_timeout_seconds = env_int env ''TTS_REQUEST_TIMEOUT''
       (file_int (doc_int doc ''inference'' ''request_timeout_seconds'') 300),
     api_key = env_text env ''TTS_API_KEY'' [],
     require_auth = env_bool env ''TTS_REQUIRE_AUTH''
       (file_value (doc_bool doc ''auth'' ''require_auth'') False),
     auth_rate_limit_max = env_int env ''TTS_AUTH_RATE_LIMIT_MAX''
       (file_int (doc_int doc ''auth'' ''rate_limit_max'') 10),
     auth_rate_limit_window = env_int env ''TTS_AUTH_RATE_LIMIT_WINDOW''
       (file_int (doc_int doc ''auth'' ''rate_limit_window'') 60),
     request_rate_limit_rpm = env_int env ''TTS_RATE_LIMIT_RPM''
       (file_int (doc_int doc ''auth'' ''request_rate_limit_rpm'') 10),
     trust_proxy = env_bool env ''TTS_TRUST_PROXY''
       (file_value (doc_bool doc ''auth'' ''trust_proxy'') False),
     trusted_proxy_hops = env_int env ''TTS_TRUSTED_PROXY_HOPS''
       (file_int (doc_int doc ''auth'' ''trusted_proxy_hops'') 1),
     log_level = env_text env ''TTS_LOG_LEVEL'' (file_value (doc_string doc ''logging'' ''level'') ''info''),
     log_format = env_text env ''TTS_LOG_FORMAT''
       (file_value (doc_string doc ''logging'' ''format'') ''text''),
     config_path = env_text env ''TTS_CONFIG_PATH'' path\<rparr>)"
  by (simp only: from_file_and_env_eq apply_env_overrides_eq file_config_fields Let_def)

text \<open>C36. Every integer a loaded configuration holds fits an \<^verbatim>\<open>int\<close>, whatever the file and the
  environment say, and \<^verbatim>\<open>validate\<close> accepts it exactly when the port is in 1..65535, every other
  integer is at least 1, there is a model path, a required key is set, and the log level and
  format are known ones.\<close>

theorem loaded_configuration_validated:
  "ints_in_range (from_file_and_env file_exists parse_file env path)
   \<and> (validate (from_file_and_env file_exists parse_file env path) = Inr ()
       \<longleftrightarrow> valid_config (from_file_and_env file_exists parse_file env path))"
  by (simp only: from_file_and_env_eq overrides_range file_config_range validate_valid simp_thms)

text \<open>The four variable names the README documents for the request timeout, the two
  authentication limits and the request limit have no effect: setting them to anything leaves
  the configuration as it was.\<close>

theorem readme_variables_have_no_effect:
  "list_all (\<lambda>name. from_env (env(name \<mapsto> v)) = from_env env)
     [''TTS_REQUEST_TIMEOUT_SECONDS'', ''TTS_RATE_LIMIT_MAX'', ''TTS_RATE_LIMIT_WINDOW'',
      ''TTS_REQUEST_RATE_LIMIT_RPM'']"
  by (simp add: from_env_def apply_env_overrides_eq env_text_def env_int_def env_bool_def)

end
