(* ===== verification/Voices.thy ===== *)
theory Voices
  imports Prelude
begin

text \<open>
  The voice catalog: \<^verbatim>\<open>include/tts/voices.hpp\<close> and \<^verbatim>\<open>src/tts/voices.cpp\<close>. The catalog is the
  list \<^verbatim>\<open>voices_\<close>; a pointer to a voice, null when there is none, is an option.
\<close>

record Voice =
  voice_id :: string
  voice_name :: string
  voice_language :: string

type_synonym VoiceCatalog = "Voice list"

definition mk_voice :: "string \<Rightarrow> string \<Rightarrow> string \<Rightarrow> Voice" where
  "mk_voice i n l = \<lparr>voice_id = i, voice_name = n, voice_language = l\<rparr>"

definition voice_catalog :: VoiceCatalog where
  "voice_catalog = [
     mk_voice ''ar_male'' ''Arabic Male'' ''ar'',
     mk_voice ''de_female'' ''German Female'' ''de'',
     mk_voice ''de_male'' ''German Male'' ''de'',
     mk_voice ''casual_female'' ''Casual Female'' ''en'',
     mk_voice ''casual_male'' ''Casual Male'' ''en'',
     mk_voice ''cheerful_female'' ''Cheerful Female'' ''en'',
     mk_voice ''neutral_female'' ''Neutral Female'' ''en'',
     mk_voice ''neutral_male'' ''Neutral Male'' ''en'',
     mk_voice ''es_female'' ''Spanish Female'' ''es'',
     mk_voice ''es_male'' ''Spanish Male'' ''es'',
     mk_voice ''fr_female'' ''French Female'' ''fr'',
     mk_voice ''fr_male'' ''French Male'' ''fr'',
     mk_voice ''hi_female'' ''Hindi Female'' ''hi'',
     mk_voice ''hi_male'' ''Hindi Male'' ''hi'',
     mk_voice ''it_female'' ''Italian Female'' ''it'',
     mk_voice ''it_male'' ''Italian Male'' ''it'',
     mk_voice ''nl_female'' ''Dutch Female'' ''nl'',
     mk_voice ''nl_male'' ''Dutch Male'' ''nl'',
     mk_voice ''pt_female'' ''Portuguese Female'' ''pt'',
     mk_voice ''pt_male'' ''Portuguese Male'' ''pt'']"

definition find_voice :: "VoiceCatalog \<Rightarrow> string \<Rightarrow> Voice option" where
  "find_voice voices i = List.find (\<lambda>v. voice_id v = i) voices"

definition all_voices :: "VoiceCatalog \<Rightarrow> Voice list" where
  "all_voices voices = voices"

definition by_language :: "VoiceCatalog \<Rightarrow> string \<Rightarrow> Voice list" where
  "by_language voices language = filter (\<lambda>v. voice_language v = language) voices"

definition is_valid :: "VoiceCatalog \<Rightarrow> string \<Rightarrow> bool" where
  "is_valid voices i \<longleftrightarrow> find_voice voices i \<noteq> None"

text \<open>The loop of \<^verbatim>\<open>list_valid_ids\<close>: the stream so far, and the index and voice of each turn.\<close>

definition list_valid_ids :: "VoiceCatalog \<Rightarrow> string" where
  "list_valid_ids voices =
     foldl (\<lambda>oss (i, v). (if i > 0 then oss @ '', '' else oss) @ voice_id v)
       [] (List.enumerate 0 voices)"

subsection \<open>Lemmas\<close>

lemma find_voice_Some:
  assumes "distinct (map voice_id voices)"
  shows "find_voice voices i = Some v \<longleftrightarrow> v \<in> set (all_voices voices) \<and> voice_id v = i"
  using assms unfolding find_voice_def all_voices_def
  by (induction voices) auto

lemma is_valid_iff: "is_valid voices i \<longleftrightarrow> i \<in> voice_id ` set (all_voices voices)"
  unfolding is_valid_def find_voice_def all_voices_def
  by (induction voices) auto

lemma by_language_iff:
  "v \<in> set (by_language voices l) \<longleftrightarrow> v \<in> set (all_voices voices) \<and> voice_language v = l"
  by (auto simp: by_language_def all_voices_def)

text \<open>The listing as a join with a separator.\<close>

fun join :: "string \<Rightarrow> string list \<Rightarrow> string" where
  "join sep [] = []"
| "join sep [x] = x"
| "join sep (x # y # r) = x @ sep @ join sep (y # r)"

lemma join_Cons: "join sep (x # xs) = (if xs = [] then x else x @ sep @ join sep xs)"
  by (cases xs) auto

lemma list_loop:
  "foldl (\<lambda>oss (i, v). (if i > 0 then oss @ '', '' else oss) @ voice_id v) s (List.enumerate (Suc n) voices)
     = s @ concat (map (\<lambda>v. '', '' @ voice_id v) voices)"
  by (induction voices arbitrary: s n) auto

lemma join_concat:
  "join '', '' (x # xs) = x @ concat (map (\<lambda>y. '', '' @ y) xs)"
  by (induction xs arbitrary: x) auto

lemma list_valid_ids_join: "list_valid_ids voices = join '', '' (map voice_id voices)"
proof (cases voices)
  case Nil
  then show ?thesis by (simp add: list_valid_ids_def)
next
  case (Cons v r)
  then show ?thesis
    using list_loop [of "voice_id v" 0 r] join_concat [of "voice_id v" "map voice_id r"]
    by (simp add: list_valid_ids_def o_def)
qed

lemma catalog_ids_distinct: "distinct (map voice_id voice_catalog)"
  by (simp add: voice_catalog_def mk_voice_def)

subsection \<open>Properties\<close>

text \<open>The catalog holds twenty voices with different ids; \<^verbatim>\<open>find\<close>
  returns a voice exactly when it is the one of the catalog with that id, \<^verbatim>\<open>is_valid\<close> accepts
  exactly the ids of the catalog, and the voices of a language are all those with its code.\<close>

theorem voice_catalog_lookup:
  "length (all_voices voice_catalog) = 20 \<and> distinct (map voice_id (all_voices voice_catalog))
   \<and> (find_voice voice_catalog i = Some v
        \<longleftrightarrow> v \<in> set (all_voices voice_catalog) \<and> voice_id v = i)
   \<and> (is_valid voice_catalog i \<longleftrightarrow> (\<exists>v \<in> set (all_voices voice_catalog). voice_id v = i))
   \<and> (v \<in> set (by_language voice_catalog l)
        \<longleftrightarrow> v \<in> set (all_voices voice_catalog) \<and> voice_language v = l)"
proof -
  have n: "length (all_voices voice_catalog) = 20"
    by (simp add: all_voices_def voice_catalog_def)
  have d: "distinct (map voice_id (all_voices voice_catalog))"
    using catalog_ids_distinct by (simp add: all_voices_def)
  have v: "is_valid voice_catalog i \<longleftrightarrow> (\<exists>v \<in> set (all_voices voice_catalog). voice_id v = i)"
    unfolding is_valid_iff by (simp only: image_iff eq_commute)
  show ?thesis
    by (intro conjI n d v find_voice_Some catalog_ids_distinct by_language_iff)
qed

end
