(* ===== verification/Validation.thy ===== *)
theory Validation
  imports Complex_Main Voices
begin

text \<open>
  Request validation: \<^verbatim>\<open>include/tts/validation.hpp\<close> and \<^verbatim>\<open>src/server/validation.cpp\<close>, one
  definition per function. What every check promises its caller is the contract
  \<open>validator\<close>, interpreted for each of the seven.
\<close>

record ValidationResult =
  valid :: bool
  val_status :: int
  val_type :: string
  val_code :: string
  val_message :: string
  val_param :: string

definition default_ValidationResult :: ValidationResult where
  "default_ValidationResult = \<lparr>valid = True, val_status = 200, val_type = [], val_code = [],
     val_message = [], val_param = []\<rparr>"

definition make_validation_error :: "int \<Rightarrow> string \<Rightarrow> string \<Rightarrow> string \<Rightarrow> ValidationResult" where
  "make_validation_error status code message param =
     default_ValidationResult\<lparr>valid := False, val_status := status,
       val_type := ''invalid_request_error'', val_code := code, val_message := message,
       val_param := param\<rparr>"

definition validate_content_type :: "string \<Rightarrow> ValidationResult" where
  "validate_content_type content_type =
     (if \<not> contains ''application/json'' content_type then
        make_validation_error 400 ''invalid_content_type''
          ''Content-Type must be application/json.'' []
      else default_ValidationResult)"

definition validate_body_size :: "nat \<Rightarrow> nat \<Rightarrow> ValidationResult" where
  "validate_body_size body_size max_body_bytes =
     (if body_size > max_body_bytes then
        make_validation_error 413 ''payload_too_large''
          ''Request body exceeds maximum size of 1MB.'' []
      else default_ValidationResult)"

definition validate_model :: "string \<Rightarrow> ValidationResult" where
  "validate_model model =
     (if model = [] then
        make_validation_error 400 ''missing_input''
          (''Missing required parameter: '' @ quoted ''model'' @ ''.'') ''model''
      else if model \<noteq> ''voxtral-4b'' then
        make_validation_error 400 ''invalid_model''
          ''Invalid model. Supported models: voxtral-4b.'' ''model''
      else default_ValidationResult)"

definition validate_input :: "string \<Rightarrow> int \<Rightarrow> ValidationResult" where
  "validate_input input max_chars =
     (if input = [] then
        make_validation_error 400 ''missing_input''
          (''Missing required parameter: '' @ quoted ''input'' @ ''.'') ''input''
      else if list_all isspace input then
        make_validation_error 400 ''missing_input''
          ''Input must not be empty or whitespace-only.'' ''input''
      else if max_chars > 0 \<and> size_to_int (length input) > max_chars then
        make_validation_error 400 ''string_above_max_length''
          (''Input exceeds maximum length of '' @ int_to_string max_chars @ '' characters.'') ''input''
      else default_ValidationResult)"

definition validate_voice :: "string \<Rightarrow> VoiceCatalog \<Rightarrow> ValidationResult" where
  "validate_voice voice catalog =
     (if voice = [] then
        make_validation_error 400 ''missing_input''
          (''Missing required parameter: '' @ quoted ''voice'' @ ''.'') ''voice''
      else if \<not> is_valid catalog voice then
        make_validation_error 400 ''invalid_voice''
          (''Invalid voice: '' @ quoted voice @ ''. Available voices: ''
             @ list_valid_ids catalog @ ''.'') ''voice''
      else default_ValidationResult)"

definition validate_response_format :: "string \<Rightarrow> ValidationResult" where
  "validate_response_format format =
     (if format = [] \<or> format = ''wav'' then default_ValidationResult
      else make_validation_error 400 ''invalid_format''
        (''Invalid response_format: '' @ quoted format @ ''. Supported formats: wav.'')
        ''response_format'')"

text \<open>A \<^verbatim>\<open>float\<close>: a number, an infinity, or the value that compares with nothing.\<close>

datatype cfloat = Finite rat | Pos_Inf | Neg_Inf | NaN

definition float_less :: "cfloat \<Rightarrow> cfloat \<Rightarrow> bool" where
  "float_less x y =
     (case x of
        NaN \<Rightarrow> False
      | Pos_Inf \<Rightarrow> False
      | Neg_Inf \<Rightarrow> y \<noteq> Neg_Inf \<and> y \<noteq> NaN
      | Finite a \<Rightarrow> (case y of Finite b \<Rightarrow> a < b | Pos_Inf \<Rightarrow> True | Neg_Inf \<Rightarrow> False | NaN \<Rightarrow> False))"

definition kMinSpeed :: cfloat where "kMinSpeed = Finite (1 / 4)"

definition kMaxSpeed :: cfloat where "kMaxSpeed = Finite 4"

definition validate_speed :: "cfloat \<Rightarrow> ValidationResult" where
  "validate_speed speed =
     (if float_less speed kMinSpeed \<or> float_less kMaxSpeed speed then
        make_validation_error 400 ''speed_out_of_range''
          ''Speed must be between 0.25 and 4.0.'' ''speed''
      else default_ValidationResult)"

subsection \<open>The contract of a check\<close>

text \<open>A check of values \<open>x\<close> that accepts those with \<open>ok x\<close> and names \<open>param\<close> in its refusals,
  which have the HTTP status \<open>status\<close>.\<close>

locale validator =
  fixes run :: "'a \<Rightarrow> ValidationResult" and ok :: "'a \<Rightarrow> bool"
    and status :: int and param :: string
  assumes accepts: "ok x \<Longrightarrow> run x = default_ValidationResult"
    and refuses: "\<not> ok x \<Longrightarrow> \<exists>code message. code \<noteq> [] \<and> message \<noteq> []
          \<and> run x = make_validation_error status code message param"
    and client_error: "400 \<le> status" "status < 500"
begin

lemma valid_iff: "valid (run x) \<longleftrightarrow> ok x"
proof (cases "ok x")
  case True
  with accepts [OF True] show ?thesis by (simp add: default_ValidationResult_def)
next
  case False
  with refuses [OF False] show ?thesis by (auto simp: make_validation_error_def)
qed

lemma refusal:
  assumes "\<not> valid (run x)"
  shows "val_status (run x) = status" "val_type (run x) = ''invalid_request_error''"
    "val_code (run x) \<noteq> []" "val_message (run x) \<noteq> []" "val_param (run x) = param"
proof -
  have "\<not> ok x" using assms valid_iff by simp
  then obtain code message where "code \<noteq> []" "message \<noteq> []"
    and "run x = make_validation_error status code message param"
    using refuses by blast
  then show "val_status (run x) = status" "val_type (run x) = ''invalid_request_error''"
    "val_code (run x) \<noteq> []" "val_message (run x) \<noteq> []" "val_param (run x) = param"
    by (simp_all add: make_validation_error_def)
qed

lemma outcome:
  "if ok x then run x = default_ValidationResult
   else val_status (run x) = status \<and> val_type (run x) = ''invalid_request_error''
     \<and> val_code (run x) \<noteq> [] \<and> val_message (run x) \<noteq> [] \<and> val_param (run x) = param"
  using accepts refusal valid_iff by auto

end

lemma list_all_isspace_iff: "list_all isspace s \<longleftrightarrow> \<not> (\<exists>c \<in> set s. \<not> isspace c)"
  by (auto simp: list_all_iff)

lemma refusal_ex:
  "\<lbrakk>code \<noteq> []; message \<noteq> []\<rbrakk> \<Longrightarrow> \<exists>c m. c \<noteq> [] \<and> m \<noteq> []
     \<and> make_validation_error status code message param = make_validation_error status c m param"
  by (intro exI [of _ code] exI [of _ message] conjI refl)

definition ok_input :: "int \<Rightarrow> string \<Rightarrow> bool" where
  "ok_input max_chars input \<longleftrightarrow> (\<exists>c \<in> set input. \<not> isspace c)
     \<and> (max_chars > 0 \<longrightarrow> size_to_int (length input) \<le> max_chars)"

definition ok_speed :: "cfloat \<Rightarrow> bool" where
  "ok_speed s \<longleftrightarrow> (case s of Finite r \<Rightarrow> 1 / 4 \<le> r \<and> r \<le> 4 | Pos_Inf \<Rightarrow> False | Neg_Inf \<Rightarrow> False
     | NaN \<Rightarrow> True)"

interpretation content_type: validator validate_content_type "contains ''application/json''" 400 "[]"
  by unfold_locales (auto simp: validate_content_type_def intro!: refusal_ex)

interpretation body_size: validator "\<lambda>n. validate_body_size n limit" "\<lambda>n. n \<le> limit" 413 "[]"
  for limit
  by unfold_locales (auto simp: validate_body_size_def intro!: refusal_ex)

interpretation model: validator validate_model "\<lambda>m. m = ''voxtral-4b''" 400 "''model''"
  by unfold_locales (auto simp: validate_model_def intro!: refusal_ex)

interpretation input: validator "\<lambda>i. validate_input i limit" "ok_input limit" 400 "''input''"
  for limit
  by unfold_locales (auto simp: validate_input_def ok_input_def list_all_isspace_iff
      intro!: refusal_ex split: if_splits)

interpretation voice: validator "\<lambda>v. validate_voice v catalog"
    "\<lambda>v. v \<noteq> [] \<and> is_valid catalog v" 400 "''voice''"
  for catalog
  by unfold_locales (auto simp: validate_voice_def intro!: refusal_ex)

interpretation response_format: validator validate_response_format
    "\<lambda>f. f = [] \<or> f = ''wav''" 400 "''response_format''"
  by unfold_locales (auto simp: validate_response_format_def intro!: refusal_ex)

interpretation speed: validator validate_speed ok_speed 400 "''speed''"
  by unfold_locales (auto simp: validate_speed_def ok_speed_def kMinSpeed_def kMaxSpeed_def float_less_def
      not_less intro!: refusal_ex split: cfloat.splits)

subsection \<open>Properties\<close>

text \<open>The input check accepts exactly the texts with a non-blank character and, when there is a
  limit and the text is shorter than 2 GiB, at most that many bytes; every refusal has status
  400, type \<^verbatim>\<open>invalid_request_error\<close>, a code, a message, and names the field.\<close>

theorem validate_input_exact:
  assumes "length input < 2147483648"
  shows "if (\<exists>c \<in> set input. \<not> isspace c) \<and> (max_chars > 0 \<longrightarrow> int (length input) \<le> max_chars)
     then validate_input input max_chars = default_ValidationResult
     else \<not> valid (validate_input input max_chars)
       \<and> val_status (validate_input input max_chars) = 400
       \<and> val_type (validate_input input max_chars) = ''invalid_request_error''
       \<and> val_code (validate_input input max_chars) \<noteq> []
       \<and> val_message (validate_input input max_chars) \<noteq> []
       \<and> val_param (validate_input input max_chars) = ''input''"
  using input.outcome [of max_chars input] input.valid_iff [of input max_chars]
    size_to_int_small [OF assms]
  by (auto simp: ok_input_def)

theorem validate_input_exact_witness:
  "validate_input ''hi'' 2 = default_ValidationResult"
  using validate_input_exact [of "''hi''" 2] by (simp add: isspace_def)

text \<open>The limit is counted in bytes, not in the characters its message and the setting's name
  speak of: a text of two-byte characters is refused at half the limit.\<close>

theorem input_limit_counts_bytes:
  assumes "1 \<le> n" "2 * n < 2147483648"
  shows "val_code (validate_input (concat (replicate n [CHR 0xC3, CHR 0xA9])) (int (2 * n) - 1))
           = ''string_above_max_length''"
proof -
  let ?s = "concat (replicate n [CHR 0xC3, CHR 0xA9])"
  have l: "length ?s = 2 * n" by (induction n) auto
  have "?s \<noteq> [] \<and> \<not> list_all isspace ?s"
    using assms(1) by (cases n) (simp_all add: isspace_def)
  then show ?thesis using assms l size_to_int_small [of "2 * n"]
    by (simp add: validate_input_def make_validation_error_def)
qed

theorem input_limit_counts_bytes_witness:
  "val_code (validate_input (concat (replicate 3 [CHR 0xC3, CHR 0xA9])) 5)
     = ''string_above_max_length''"
  using input_limit_counts_bytes [of 3] by simp

text \<open>The content type check looks for the media type anywhere in the header value, so it also
  accepts values whose media type is another one.\<close>

theorem content_type_substring:
  "validate_content_type (before @ ''application/json'' @ after) = default_ValidationResult"
  by (rule content_type.accepts) (auto simp: contains_iff)

end
