(* ===== verification/Metrics.thy ===== *)
theory Metrics
  imports Complex_Main Prelude
begin

text \<open>
  The metrics singleton: \<^verbatim>\<open>include/tts/metrics.hpp\<close> and \<^verbatim>\<open>src/server/metrics.cpp\<close>. The constructor
  is the table of families it registers; the calls the server makes are a datatype, and
  \<open>record_metric\<close> is their effect on the values. Serialization belongs to the Prometheus library.
\<close>

datatype metric_kind = Counter | Gauge | Histogram "rat list"

record family =
  family_name :: string
  family_help :: string
  family_kind :: metric_kind

definition mk_family :: "string \<Rightarrow> string \<Rightarrow> metric_kind \<Rightarrow> family" where
  "mk_family n h k = \<lparr>family_name = n, family_help = h, family_kind = k\<rparr>"

definition duration_buckets :: "rat list" where
  "duration_buckets = [1, 5 / 2, 5, 10, 30, 60, 120, 300, 600]"

definition character_buckets :: "rat list" where
  "character_buckets = [50, 100, 250, 500, 1000, 2000, 4096]"

definition metric_families :: "family list" where
  "metric_families = [
     mk_family ''opentts_requests_total'' ''Total requests by HTTP status code'' Counter,
     mk_family ''opentts_voice_requests_total'' ''Per-voice request count'' Counter,
     mk_family ''opentts_requests_rejected_auth_total'' ''Auth failures'' Counter,
     mk_family ''opentts_requests_rejected_rate_limit_total'' ''Rate limit hits'' Counter,
     mk_family ''opentts_input_characters_total'' ''Total input characters processed'' Counter,
     mk_family ''opentts_audio_bytes_generated_total'' ''Total audio bytes generated'' Counter,
     mk_family ''opentts_errors_total'' ''Inference errors'' Counter,
     mk_family ''opentts_active_jobs'' ''Currently processing jobs'' Gauge,
     mk_family ''opentts_queue_depth'' ''Jobs waiting in queue'' Gauge,
     mk_family ''opentts_synthesis_duration_seconds'' ''End-to-end synthesis duration in seconds''
       (Histogram duration_buckets),
     mk_family ''opentts_inference_duration_seconds'' ''Inference-only duration in seconds''
       (Histogram duration_buckets),
     mk_family ''opentts_audio_duration_seconds'' ''Generated audio duration in seconds''
       (Histogram duration_buckets),
     mk_family ''opentts_input_characters'' ''Input text length distribution''
       (Histogram character_buckets)]"

text \<open>The calls on the singleton, one constructor per accessor and method the server uses.\<close>

datatype metric_call =
    Requests_Total int
  | Voice_Requests_Total string
  | Requests_Rejected_Auth
  | Requests_Rejected_Rate_Limit
  | Input_Characters_Total nat
  | Audio_Bytes_Generated_Total nat
  | Errors_Total
  | Active_Jobs_Increment
  | Active_Jobs_Decrement
  | Queue_Depth_Set int
  | Synthesis_Duration rat
  | Inference_Duration rat
  | Audio_Duration rat
  | Input_Characters nat

text \<open>A time series is a family with its labels.\<close>

type_synonym series = "string \<times> (string \<times> string) list"

fun call_series :: "metric_call \<Rightarrow> series" where
  "call_series (Requests_Total status) =
     (''opentts_requests_total'', [(''status'', int_to_string status)])"
| "call_series (Voice_Requests_Total voice) = (''opentts_voice_requests_total'', [(''voice'', voice)])"
| "call_series Requests_Rejected_Auth = (''opentts_requests_rejected_auth_total'', [])"
| "call_series Requests_Rejected_Rate_Limit = (''opentts_requests_rejected_rate_limit_total'', [])"
| "call_series (Input_Characters_Total _) = (''opentts_input_characters_total'', [])"
| "call_series (Audio_Bytes_Generated_Total _) = (''opentts_audio_bytes_generated_total'', [])"
| "call_series Errors_Total = (''opentts_errors_total'', [])"
| "call_series Active_Jobs_Increment = (''opentts_active_jobs'', [])"
| "call_series Active_Jobs_Decrement = (''opentts_active_jobs'', [])"
| "call_series (Queue_Depth_Set _) = (''opentts_queue_depth'', [])"
| "call_series (Synthesis_Duration _) = (''opentts_synthesis_duration_seconds'', [])"
| "call_series (Inference_Duration _) = (''opentts_inference_duration_seconds'', [])"
| "call_series (Audio_Duration _) = (''opentts_audio_duration_seconds'', [])"
| "call_series (Input_Characters _) = (''opentts_input_characters'', [])"

text \<open>What a call does to the value of its series; a histogram's value is the number of its
  observations.\<close>

fun call_effect :: "metric_call \<Rightarrow> rat \<Rightarrow> rat" where
  "call_effect (Input_Characters_Total n) v = v + of_nat n"
| "call_effect (Audio_Bytes_Generated_Total n) v = v + of_nat n"
| "call_effect Active_Jobs_Decrement v = v - 1"
| "call_effect (Queue_Depth_Set d) v = of_int d"
| "call_effect _ v = v + 1"

definition record_metric :: "metric_call \<Rightarrow> (series \<Rightarrow> rat) \<Rightarrow> series \<Rightarrow> rat" where
  "record_metric c m = m(call_series c := call_effect c (m (call_series c)))"

subsection \<open>Lemmas\<close>

definition kind_of :: "metric_call \<Rightarrow> metric_kind option" where
  "kind_of c = map_option family_kind (find (\<lambda>f. family_name f = fst (call_series c)) metric_families)"

fun is_counter_call :: "metric_call \<Rightarrow> bool" where
  "is_counter_call Active_Jobs_Increment = False"
| "is_counter_call Active_Jobs_Decrement = False"
| "is_counter_call (Queue_Depth_Set _) = False"
| "is_counter_call _ = True"

lemma call_effect_mono: "is_counter_call c \<Longrightarrow> v \<le> call_effect c v"
  by (cases c) auto

text \<open>The gauge of active jobs after a run of calls.\<close>

definition jobs_change :: "metric_call list \<Rightarrow> int" where
  "jobs_change cs = int (count_list cs Active_Jobs_Increment) - int (count_list cs Active_Jobs_Decrement)"

lemma jobs_change_simps [simp]:
  "jobs_change [] = 0"
  "jobs_change (c # cs) = (if c = Active_Jobs_Increment then 1 else if c = Active_Jobs_Decrement then - 1 else 0)
     + jobs_change cs"
  "jobs_change (cs @ ds) = jobs_change cs + jobs_change ds"
  by (auto simp: jobs_change_def)

lemma active_jobs_gauge:
  "fold record_metric cs m (''opentts_active_jobs'', []) = m (''opentts_active_jobs'', []) + of_int (jobs_change cs)"
proof (induction cs arbitrary: m)
  case Nil
  then show ?case by simp
next
  case (Cons c cs)
  have "record_metric c m (''opentts_active_jobs'', []) = m (''opentts_active_jobs'', [])
      + of_int (if c = Active_Jobs_Increment then 1 else if c = Active_Jobs_Decrement then - 1 else 0)"
    by (cases c) (simp_all add: record_metric_def)
  with Cons show ?case by simp
qed

text \<open>The statuses counted by a run of calls.\<close>

fun counted_statuses :: "metric_call list \<Rightarrow> int list" where
  "counted_statuses [] = []"
| "counted_statuses (Requests_Total s # cs) = s # counted_statuses cs"
| "counted_statuses (_ # cs) = counted_statuses cs"

lemma counted_statuses_append [simp]: "counted_statuses (cs @ ds) = counted_statuses cs @ counted_statuses ds"
  by (induction cs rule: counted_statuses.induct) auto

end
