(* ===== verification/Wav.thy ===== *)
theory Wav
  imports Validation
begin

text \<open>
  The WAV writer in the anonymous namespace of \<^verbatim>\<open>src/tts/voxtral_backend.cpp\<close>. Buffers are byte
  lists written in place by index; \<^verbatim>\<open>uint32_t\<close> arithmetic is on 32-bit words and wraps as in the
  code, including the sizes given to \<^verbatim>\<open>resize\<close>. The sample loop is \<open>None\<close> when an access leaves
  its buffer. The rounding of a \<^verbatim>\<open>float\<close> product is an argument.
\<close>

unbundle bit_operations_syntax

definition low_byte :: "'a::len word \<Rightarrow> byte" where
  "low_byte v = ucast (v AND 0xFF)"

definition write_u32 :: "nat \<Rightarrow> u32 \<Rightarrow> bytes \<Rightarrow> bytes" where
  "write_u32 dst val h =
     h[dst := low_byte val, dst + 1 := low_byte (drop_bit 8 val),
       dst + 2 := low_byte (drop_bit 16 val), dst + 3 := low_byte (drop_bit 24 val)]"

definition write_u16 :: "nat \<Rightarrow> u16 \<Rightarrow> bytes \<Rightarrow> bytes" where
  "write_u16 dst val h = h[dst := low_byte val, dst + 1 := low_byte (drop_bit 8 val)]"

text \<open>\<^verbatim>\<open>memcpy\<close> of a four-character tag.\<close>

fun write_tag :: "nat \<Rightarrow> string \<Rightarrow> bytes \<Rightarrow> bytes" where
  "write_tag dst [] h = h"
| "write_tag dst (c # cs) h = write_tag (Suc dst) cs (h[dst := of_char c])"

definition kChannels :: int where "kChannels = 1"

definition kBitsPerSample :: int where "kBitsPerSample = 16"

definition kBytesPerSample :: int where "kBytesPerSample = kBitsPerSample div 8"

definition build_wav_header :: "int \<Rightarrow> u32 \<Rightarrow> bytes" where
  "build_wav_header sample_rate num_samples =
     (let data_size = num_samples * word_of_int (kChannels * kBytesPerSample);
          file_size = 36 + data_size;
          p = replicate 44 0;
          p = write_tag 0 ''RIFF'' p;
          p = write_u32 4 file_size p;
          p = write_tag 8 ''WAVE'' p;
          p = write_tag 12 ''fmt '' p;
          p = write_u32 16 16 p;
          p = write_u16 20 1 p;
          p = write_u16 22 (word_of_int kChannels) p;
          p = write_u32 24 (word_of_int sample_rate) p;
          p = write_u32 28 (word_of_int (sample_rate * kChannels * kBytesPerSample)) p;
          p = write_u16 32 (word_of_int (kChannels * kBytesPerSample)) p;
          p = write_u16 34 (word_of_int kBitsPerSample) p;
          p = write_tag 36 ''data'' p;
          p = write_u32 40 data_size p
      in p)"

text \<open>\<^verbatim>\<open>v.resize(n, 0)\<close>.\<close>

definition resize :: "nat \<Rightarrow> bytes \<Rightarrow> bytes" where
  "resize n v = take n v @ replicate (n - length v) 0"

text \<open>The duration is a rational; the double product is exact for the durations 0 and 1 the
  server passes.\<close>

definition build_silent_wav :: "int \<Rightarrow> rat \<Rightarrow> bytes" where
  "build_silent_wav sample_rate duration_sec =
     (if sample_rate \<le> 0 \<or> duration_sec < 0 then []
      else let num_samples = word_of_int \<lfloor>of_int sample_rate * duration_sec\<rfloor>;
               wav = build_wav_header sample_rate num_samples
           in resize (unat (44 + num_samples * 2 :: u32)) wav)"

text \<open>\<^verbatim>\<open>fmax(-1, fmin(1, x))\<close>, where \<^verbatim>\<open>fmin\<close> and \<^verbatim>\<open>fmax\<close> return the other argument for a NaN.\<close>

definition clamp :: "cfloat \<Rightarrow> rat" where
  "clamp x = (case x of Finite r \<Rightarrow> max (- 1) (min 1 r) | Pos_Inf \<Rightarrow> 1 | Neg_Inf \<Rightarrow> - 1 | NaN \<Rightarrow> 1)"

text \<open>Conversion of a floating point value to an integer type drops the fraction.\<close>

definition rat_trunc :: "rat \<Rightarrow> int" where
  "rat_trunc r = (if 0 \<le> r then \<lfloor>r\<rfloor> else \<lceil>r\<rceil>)"

definition pcm_sample :: "(rat \<Rightarrow> rat) \<Rightarrow> cfloat \<Rightarrow> int" where
  "pcm_sample fl x = rat_trunc (fl (clamp x * 32767))"

text \<open>The loop over the samples from index \<open>i\<close> on, \<open>n\<close> turns.\<close>

fun write_samples :: "(rat \<Rightarrow> rat) \<Rightarrow> cfloat list \<Rightarrow> nat \<Rightarrow> nat \<Rightarrow> bytes \<Rightarrow> bytes option" where
  "write_samples fl samples i 0 wav = Some wav"
| "write_samples fl samples i (Suc n) wav =
     (if i < length samples \<and> 44 + i * 2 + 1 < length wav then
        let sample = word_of_int (pcm_sample fl (samples ! i)) :: u16
        in write_samples fl samples (Suc i) n
             (wav[44 + i * 2 := low_byte sample, 44 + i * 2 + 1 := low_byte (drop_bit 8 sample)])
      else None)"

definition build_wav_from_float_samples ::
  "(rat \<Rightarrow> rat) \<Rightarrow> cfloat list option \<Rightarrow> int \<Rightarrow> int \<Rightarrow> bytes option" where
  "build_wav_from_float_samples fl samples n_samples sample_rate =
     (case samples of
        None \<Rightarrow> Some (build_silent_wav sample_rate 0)
      | Some ss \<Rightarrow>
          if n_samples \<le> 0 then Some (build_silent_wav sample_rate 0)
          else let num = word_of_int n_samples :: u32;
                   wav = resize (unat (44 + num * 2)) (build_wav_header sample_rate num)
               in write_samples fl ss 0 (unat num) wav)"

subsection \<open>The bytes of the header\<close>

definition u32_bytes :: "u32 \<Rightarrow> bytes" where
  "u32_bytes v = [low_byte v, low_byte (drop_bit 8 v), low_byte (drop_bit 16 v), low_byte (drop_bit 24 v)]"

definition u16_bytes :: "u16 \<Rightarrow> bytes" where
  "u16_bytes v = [low_byte v, low_byte (drop_bit 8 v)]"

definition tag_bytes :: "string \<Rightarrow> bytes" where
  "tag_bytes s = map of_char s"

lemma list_update_numeral: "(x # xs)[numeral k := y] = x # xs[pred_numeral k := y]"
  by (simp add: numeral_eq_Suc)

lemma zero_header: "replicate 44 (0 :: byte) =
   [0, 0, 0, 0, 0, 0, 0, 0, 0, 0, 0, 0, 0, 0, 0, 0, 0, 0, 0, 0, 0, 0, 0, 0, 0, 0, 0, 0, 0, 0, 0, 0,
    0, 0, 0, 0, 0, 0, 0, 0, 0, 0, 0, 0]"
  by (simp add: numeral_eq_Suc)

lemma build_wav_header_layout:
  "build_wav_header sr n =
     tag_bytes ''RIFF'' @ u32_bytes (36 + n * 2) @ tag_bytes ''WAVE'' @ tag_bytes ''fmt ''
     @ u32_bytes 16 @ u16_bytes 1 @ u16_bytes 1 @ u32_bytes (word_of_int sr)
     @ u32_bytes (word_of_int (sr * 2)) @ u16_bytes 2 @ u16_bytes 16 @ tag_bytes ''data''
     @ u32_bytes (n * 2)"
  unfolding build_wav_header_def Let_def kChannels_def kBytesPerSample_def kBitsPerSample_def
  by (simp add: zero_header write_u32_def write_u16_def u32_bytes_def u16_bytes_def tag_bytes_def
      list_update_numeral)

lemma length_wav_header [simp]: "length (build_wav_header sr n) = 44"
  by (simp add: build_wav_header_layout tag_bytes_def u32_bytes_def u16_bytes_def)

subsection \<open>A reader of WAV files\<close>

text \<open>The reference the writer is checked against: the fields of a canonical mono 16-bit file, the
  sizes included, then the samples.\<close>

definition join_u16 :: "byte \<Rightarrow> byte \<Rightarrow> u16" where
  "join_u16 a b = ucast a OR push_bit 8 (ucast b)"

definition join_u32 :: "byte \<Rightarrow> byte \<Rightarrow> byte \<Rightarrow> byte \<Rightarrow> u32" where
  "join_u32 a b c d =
     ucast a OR push_bit 8 (ucast b) OR push_bit 16 (ucast c) OR push_bit 24 (ucast d)"

definition read_u16 :: "nat \<Rightarrow> bytes \<Rightarrow> u16" where
  "read_u16 k w = join_u16 (w ! k) (w ! (k + 1))"

definition read_u32 :: "nat \<Rightarrow> bytes \<Rightarrow> u32" where
  "read_u32 k w = join_u32 (w ! k) (w ! (k + 1)) (w ! (k + 2)) (w ! (k + 3))"

definition tag_at :: "nat \<Rightarrow> bytes \<Rightarrow> bytes" where
  "tag_at k w = [w ! k, w ! (k + 1), w ! (k + 2), w ! (k + 3)]"

fun read_pcm :: "bytes \<Rightarrow> u16 list" where
  "read_pcm (a # b # r) = join_u16 a b # read_pcm r"
| "read_pcm _ = []"

definition parse_wav :: "bytes \<Rightarrow> (nat \<times> u16 list) option" where
  "parse_wav w =
     (if 44 \<le> length w
         \<and> tag_at 0 w = tag_bytes ''RIFF'' \<and> unat (read_u32 4 w) = length w - 8
         \<and> tag_at 8 w = tag_bytes ''WAVE'' \<and> tag_at 12 w = tag_bytes ''fmt ''
         \<and> read_u32 16 w = 16 \<and> read_u16 20 w = 1 \<and> read_u16 22 w = 1
         \<and> read_u32 28 w = read_u32 24 w * 2 \<and> read_u16 32 w = 2 \<and> read_u16 34 w = 16
         \<and> tag_at 36 w = tag_bytes ''data'' \<and> unat (read_u32 40 w) = length w - 44
      then Some (unat (read_u32 24 w), read_pcm (drop 44 w))
      else None)"

lemma low_byte_ucast: "low_byte v = ucast v"
proof -
  have "(0xFF :: 'a word) = mask 8" by (simp add: mask_eq_exp_minus_1)
  then have "low_byte v = ucast (take_bit 8 v)"
    by (simp only: low_byte_def take_bit_eq_mask)
  then show ?thesis by (simp only:) (rule bit_word_eqI, auto simp: bit_simps)
qed

lemma join_u16_bytes [simp]: "join_u16 (low_byte v) (low_byte (drop_bit 8 v)) = v"
  for v :: u16
  unfolding join_u16_def low_byte_ucast
  by (rule bit_word_eqI) (auto simp: bit_simps)

lemma join_u32_bytes [simp]:
  "join_u32 (low_byte v) (low_byte (drop_bit 8 v)) (low_byte (drop_bit 16 v))
     (low_byte (drop_bit 24 v)) = v"
  for v :: u32
  unfolding join_u32_def low_byte_ucast
proof (rule bit_word_eqI)
  fix n :: nat assume "n < LENGTH(32)"
  then consider "n < 8" | "8 \<le> n" "n < 16" | "16 \<le> n" "n < 24" | "24 \<le> n" "n < 32" by fastforce
  then show "bit (ucast (ucast v :: byte) OR push_bit 8 (ucast (ucast (drop_bit 8 v) :: byte))
      OR push_bit 16 (ucast (ucast (drop_bit 16 v) :: byte))
      OR push_bit 24 (ucast (ucast (drop_bit 24 v) :: byte)) :: u32) n = bit v n"
    by cases (auto simp: bit_simps)
qed

lemma join_constants:
  "join_u16 (low_byte (2 :: u16)) (low_byte (0 :: u16)) = 2"
  "join_u16 (low_byte (1 :: u16)) (low_byte (0 :: u16)) = 1"
  "join_u16 (low_byte (16 :: u16)) (low_byte (0 :: u16)) = 16"
  "join_u32 (low_byte (16 :: u32)) (low_byte (0 :: u32)) (low_byte (0 :: u32)) (low_byte (0 :: u32)) = 16"
  by (simp_all add: join_u16_def join_u32_def low_byte_def)

lemma read_pcm_bytes [simp]: "read_pcm (concat (map u16_bytes vs)) = vs"
  by (induction vs) (simp_all add: u16_bytes_def)

text \<open>Reading back a header with as many sample bytes after it as it announces.\<close>

lemma parse_wav_header:
  assumes "2 * length vs = unat (n * 2 :: u32)" and "unat (36 + n * 2 :: u32) = 36 + 2 * length vs"
  shows "parse_wav (build_wav_header sr n @ concat (map u16_bytes vs))
           = Some (unat (word_of_int sr :: u32), vs)"
proof -
  have l: "length (concat (map u16_bytes vs)) = 2 * length vs"
    by (induction vs) (simp_all add: u16_bytes_def)
  show ?thesis using assms l
    by (simp add: parse_wav_def build_wav_header_layout tag_bytes_def u32_bytes_def u16_bytes_def
        tag_at_def read_u32_def read_u16_def join_constants)
qed

subsection \<open>The sample loop\<close>

definition sample_word :: "(rat \<Rightarrow> rat) \<Rightarrow> cfloat \<Rightarrow> u16" where
  "sample_word fl x = word_of_int (pcm_sample fl x)"

lemma write_samples_eq:
  assumes "i + n \<le> length ss" and "44 + 2 * (i + n) \<le> length wav"
  shows "write_samples fl ss i n wav = Some (take (44 + 2 * i) wav
           @ concat (map (\<lambda>x. u16_bytes (sample_word fl x)) (take n (drop i ss)))
           @ drop (44 + 2 * (i + n)) wav)"
  using assms
proof (induction n arbitrary: i wav)
  case 0
  then show ?case by simp
next
  case (Suc n)
  let ?b = "u16_bytes (sample_word fl (ss ! i))"
  let ?wav = "wav[44 + i * 2 := ?b ! 0, 44 + i * 2 + 1 := ?b ! 1]"
  have tail: "drop (44 + 2 * i) wav = wav ! (44 + 2 * i) # wav ! (44 + 2 * i + 1) # drop (46 + 2 * i) wav"
    using Suc.prems Cons_nth_drop_Suc [of "44 + 2 * i" wav] Cons_nth_drop_Suc [of "45 + 2 * i" wav]
    by simp
  have split: "wav = take (44 + 2 * i) wav @ [wav ! (44 + 2 * i), wav ! (44 + 2 * i + 1)]
      @ drop (46 + 2 * i) wav"
    using append_take_drop_id [of "44 + 2 * i" wav] unfolding tail by simp
  have upd: "?wav = take (44 + 2 * i) wav @ ?b @ drop (46 + 2 * i) wav"
    by (subst split) (use Suc.prems in \<open>simp add: list_update_append u16_bytes_def mult.commute\<close>)
  have t: "take (44 + 2 * Suc i) ?wav = take (44 + 2 * i) wav @ ?b"
    and d: "drop (44 + 2 * (Suc i + n)) ?wav = drop (44 + 2 * (i + Suc n)) wav"
    unfolding upd using Suc.prems by (simp_all add: u16_bytes_def algebra_simps)
  have s: "take (Suc n) (drop i ss) = ss ! i # take n (drop (Suc i) ss)"
    using Suc.prems by (simp add: take_Suc_conv_app_nth Cons_nth_drop_Suc [symmetric])
  have "write_samples fl ss i (Suc n) wav = write_samples fl ss (Suc i) n ?wav"
    using Suc.prems by (simp add: Let_def sample_word_def u16_bytes_def)
  also have "\<dots> = Some (take (44 + 2 * Suc i) ?wav
      @ concat (map (\<lambda>x. u16_bytes (sample_word fl x)) (take n (drop (Suc i) ss)))
      @ drop (44 + 2 * (Suc i + n)) ?wav)"
    by (rule Suc.IH) (use Suc.prems in simp_all)
  finally show ?case unfolding t d s by simp
qed

lemma unat_u32_double: "n < 2147483648 \<Longrightarrow> unat (word_of_nat n * 2 :: u32) = 2 * n"
  by (simp add: unat_word_ariths unat_of_nat)

lemma unat_u32_plus_double:
  "k + 2 * n < 4294967296 \<Longrightarrow> unat (word_of_nat k + word_of_nat n * 2 :: u32) = k + 2 * n"
  by (simp add: unat_word_ariths unat_of_nat)

text \<open>The samples the writer is right for: with more, the 32-bit size of the buffer wraps.\<close>

definition max_wav_samples :: nat where "max_wav_samples = 2147483625"

text \<open>As many samples as are asked for, when the engine's buffer has them.\<close>

lemma build_wav_from_buffer:
  assumes "0 < n" and "n \<le> length ss" and "n \<le> max_wav_samples"
  shows "build_wav_from_float_samples fl (Some ss) (int n) sr =
    Some (build_wav_header sr (word_of_nat n) @ concat (map u16_bytes (map (sample_word fl) (take n ss))))"
proof -
  let ?hdr = "build_wav_header sr (word_of_nat n)"
  have bound: "n < 2147483648" "44 + 2 * n < 4294967296"
    using assms(3) by (simp_all add: max_wav_samples_def)
  have size: "unat (44 + word_of_nat n * 2 :: u32) = 44 + 2 * n"
    using unat_u32_plus_double [OF bound(2)] by simp
  have num: "unat (word_of_int (int n) :: u32) = n"
    using bound(1) by (simp add: unat_of_nat)
  let ?wav = "resize (44 + 2 * n) ?hdr"
  have "write_samples fl ss 0 n ?wav = Some (take (44 + 2 * 0) ?wav
      @ concat (map (\<lambda>x. u16_bytes (sample_word fl x)) (take n (drop 0 ss)))
      @ drop (44 + 2 * (0 + n)) ?wav)"
    by (rule write_samples_eq) (use assms(2) in \<open>simp_all add: resize_def\<close>)
  then show ?thesis using assms(1) num size
    by (simp add: build_wav_from_float_samples_def resize_def Let_def o_def)
qed

lemma build_wav_from_float_samples_eq:
  assumes "ss \<noteq> []" and "length ss \<le> max_wav_samples"
  shows "build_wav_from_float_samples fl (Some ss) (int (length ss)) sr =
    Some (build_wav_header sr (word_of_nat (length ss))
      @ concat (map u16_bytes (map (sample_word fl) ss)))"
  using build_wav_from_buffer [of "length ss" ss fl sr] assms by simp

lemma build_silent_wav_eq:
  assumes "0 < sr" and "0 \<le> dur" and "\<lfloor>of_int sr * dur\<rfloor> = int n" and "n \<le> max_wav_samples"
  shows "build_silent_wav sr dur =
    build_wav_header sr (word_of_nat n) @ concat (map u16_bytes (replicate n 0))"
proof -
  have "44 + 2 * n < 4294967296" using assms(4) by (simp add: max_wav_samples_def)
  then have size: "unat (44 + word_of_nat n * 2 :: u32) = 44 + 2 * n"
    using unat_u32_plus_double [of 44 n] by simp
  have z: "concat (map u16_bytes (replicate n 0)) = replicate (2 * n) 0"
    by (induction n) (simp_all add: u16_bytes_def low_byte_def)
  show ?thesis using assms size z by (simp add: build_silent_wav_def resize_def Let_def)
qed

text \<open>Every file the writer builds within the bound is read back.\<close>

lemma parse_written:
  assumes "length vs \<le> max_wav_samples"
  shows "parse_wav (build_wav_header sr (word_of_nat (length vs)) @ concat (map u16_bytes vs))
           = Some (unat (word_of_int sr :: u32), vs)"
proof (rule parse_wav_header)
  have b: "length vs < 2147483648" "36 + 2 * length vs < 4294967296"
    using assms by (simp_all add: max_wav_samples_def)
  show "2 * length vs = unat (word_of_nat (length vs) * 2 :: u32)"
    using unat_u32_double [OF b(1)] by simp
  show "unat (36 + word_of_nat (length vs) * 2 :: u32) = 36 + 2 * length vs"
    using unat_u32_plus_double [OF b(2)] by simp
qed

text \<open>The rounding of a \<^verbatim>\<open>float\<close> operation, as IEEE 754 defines it: it keeps the order, and keeps
  the integers of up to 24 bits.\<close>

definition float_rounding :: "(rat \<Rightarrow> rat) \<Rightarrow> bool" where
  "float_rounding fl \<longleftrightarrow> (\<forall>x y. x \<le> y \<longrightarrow> fl x \<le> fl y)
     \<and> (\<forall>k. \<bar>k\<bar> \<le> 16777216 \<longrightarrow> fl (of_int k) = of_int k)"

lemma rat_trunc_bounds: "of_int (- k) \<le> r \<Longrightarrow> r \<le> of_int k \<Longrightarrow> - k \<le> rat_trunc r \<and> rat_trunc r \<le> k"
  unfolding rat_trunc_def by (auto simp: le_floor_iff floor_le_iff ceiling_le_iff le_ceiling_iff; linarith)

lemma pcm_sample_bounds:
  assumes "float_rounding fl"
  shows "- 32767 \<le> pcm_sample fl x \<and> pcm_sample fl x \<le> 32767"
proof -
  have mono: "\<And>x y. x \<le> y \<Longrightarrow> fl x \<le> fl y"
    and exact: "\<And>k. \<bar>k\<bar> \<le> 16777216 \<Longrightarrow> fl (of_int k) = of_int k"
    using assms unfolding float_rounding_def by auto
  have "- 1 \<le> clamp x" "clamp x \<le> 1" by (auto simp: clamp_def split: cfloat.split)
  then have "of_int (- 32767) \<le> clamp x * 32767" "clamp x * 32767 \<le> of_int 32767" by auto
  then have "of_int (- 32767) \<le> fl (clamp x * 32767)" "fl (clamp x * 32767) \<le> of_int 32767"
    using mono [of "of_int (- 32767)" "clamp x * 32767"] mono [of "clamp x * 32767" "of_int 32767"]
      exact [of 32767] exact [of "- 32767"] by simp_all
  then show ?thesis unfolding pcm_sample_def by (rule rat_trunc_bounds)
qed

lemma sint_sample_word:
  assumes "float_rounding fl"
  shows "sint (sample_word fl x) = pcm_sample fl x"
  using pcm_sample_bounds [OF assms, of x]
  by (simp add: sample_word_def signed_of_int signed_take_bit_int_eq_self_iff)

lemma unat_rate:
  assumes "0 \<le> sr" and "sr \<le> INT_MAX"
  shows "unat (word_of_int sr :: u32) = nat sr"
proof -
  obtain n where "sr = int n" using assms(1) nonneg_int_cases by blast
  then show ?thesis using assms(2) by (simp add: INT_MAX_def unat_of_nat)
qed

lemma length_resize: "length (resize n v) = n"
  by (simp add: resize_def)

lemma write_samples_short: "length wav \<le> 45 \<Longrightarrow> 0 < n \<Longrightarrow> write_samples fl ss 0 n wav = None"
  by (cases n) simp_all

lemma write_samples_past_end:
  "i \<le> length ss \<Longrightarrow> length ss < i + n \<Longrightarrow> write_samples fl ss i n wav = None"
  by (induction n arbitrary: i wav) (simp_all add: Let_def)

text \<open>Beyond \<open>max_wav_samples\<close> the 32-bit buffer size wraps round to almost nothing and the loop
  writes past the end of the buffer; and it reads past the end of the engine's buffer when that has
  fewer samples than reported.\<close>

lemma build_wav_overrun:
  assumes "int n \<le> INT_MAX" and "max_wav_samples < n \<or> length ss < n"
  shows "build_wav_from_float_samples fl (Some ss) (int n) sr = None"
proof -
  let ?wav = "resize (unat (44 + word_of_nat n * 2 :: u32)) (build_wav_header sr (word_of_nat n))"
  have pos: "0 < n" using assms(2) by (auto simp: max_wav_samples_def)
  have num: "unat (word_of_int (int n) :: u32) = n" using assms(1) by (simp add: unat_of_nat INT_MAX_def)
  have "write_samples fl ss 0 n ?wav = None"
  proof (cases "length ss < n")
    case True
    then show ?thesis by (intro write_samples_past_end) simp_all
  next
    case False
    then have b: "2147483625 < n" "n \<le> 2147483647"
      using assms by (simp_all add: max_wav_samples_def INT_MAX_def)
    have "unat (44 + word_of_nat n * 2 :: u32) = (44 + n * 2) mod 4294967296"
      by (simp add: unat_word_ariths unat_of_nat mod_simps)
    also have "\<dots> = 44 + n * 2 - 4294967296" using b by (simp add: mod_if)
    finally have "unat (44 + word_of_nat n * 2 :: u32) \<le> 45" using b by simp
    then show ?thesis using pos by (intro write_samples_short) (simp_all only: length_resize)
  qed
  then show ?thesis using pos num by (simp add: build_wav_from_float_samples_def Let_def)
qed

subsection \<open>Properties\<close>

text \<open>C31. Writing and reading a recording: for up to \<open>max_wav_samples\<close> float samples the writer
  stays within its buffer, and a reader that checks every tag, format field and size of the
  file gets back the sample rate and, sample by sample, the clamped and scaled value, which fits
  16 bits whatever the engine delivered (also an infinity or a NaN).\<close>

theorem wav_roundtrip:
  assumes "float_rounding fl" and "ss \<noteq> []" and "length ss \<le> max_wav_samples"
    and "0 < sr" and "sr \<le> INT_MAX"
  shows "\<exists>wav pcm. build_wav_from_float_samples fl (Some ss) (int (length ss)) sr = Some wav
     \<and> parse_wav wav = Some (nat sr, pcm)
     \<and> map sint pcm = map (pcm_sample fl) ss
     \<and> (\<forall>i \<in> set (map sint pcm). - 32767 \<le> i \<and> i \<le> 32767)"
proof -
  let ?pcm = "map (sample_word fl) ss"
  have "build_wav_from_float_samples fl (Some ss) (int (length ss)) sr =
      Some (build_wav_header sr (word_of_nat (length ?pcm)) @ concat (map u16_bytes ?pcm))"
    using build_wav_from_float_samples_eq [OF assms(2,3)] by simp
  moreover have "parse_wav (build_wav_header sr (word_of_nat (length ?pcm)) @ concat (map u16_bytes ?pcm))
      = Some (nat sr, ?pcm)"
    using parse_written [of ?pcm sr] unat_rate assms(3-5) by simp
  moreover have "map sint ?pcm = map (pcm_sample fl) ss"
    using sint_sample_word [OF assms(1)] by simp
  moreover have "\<forall>i \<in> set (map (pcm_sample fl) ss). - 32767 \<le> i \<and> i \<le> 32767"
    using pcm_sample_bounds [OF assms(1)] by auto
  ultimately show ?thesis by metis
qed

theorem wav_roundtrip_witness:
  "\<exists>wav pcm. build_wav_from_float_samples (\<lambda>x. x) (Some [Finite 0, NaN]) 2 24000 = Some wav
     \<and> parse_wav wav = Some (24000, pcm) \<and> map sint pcm = [0, 32767]"
proof -
  have "pcm_sample (\<lambda>x. x) (Finite 0) = 0" "pcm_sample (\<lambda>x. x) NaN = 32767"
    by (simp_all add: pcm_sample_def clamp_def rat_trunc_def)
  then show ?thesis
    using wav_roundtrip [of "\<lambda>x. x" "[Finite 0, NaN]" 24000]
    by (auto simp: float_rounding_def max_wav_samples_def INT_MAX_def)
qed

text \<open>Silence: for a positive rate and a duration that is not negative the file reads back as
  that many zero samples at that rate; for any other argument it is empty.\<close>

theorem silent_wav_roundtrip:
  assumes "sr \<le> INT_MAX" and "nat \<lfloor>of_int sr * dur\<rfloor> \<le> max_wav_samples"
  shows "if 0 < sr \<and> 0 \<le> dur
    then parse_wav (build_silent_wav sr dur) = Some (nat sr, replicate (nat \<lfloor>of_int sr * dur\<rfloor>) 0)
      \<and> length (build_silent_wav sr dur) = 44 + 2 * nat \<lfloor>of_int sr * dur\<rfloor>
    else build_silent_wav sr dur = []"
proof (cases "0 < sr \<and> 0 \<le> dur")
  case True
  define n where "n = nat \<lfloor>of_int sr * dur\<rfloor>"
  have n: "\<lfloor>of_int sr * dur\<rfloor> = int n" using True by (simp add: n_def)
  have "n \<le> max_wav_samples" using assms(2) by (simp add: n_def)
  then have "build_silent_wav sr dur =
      build_wav_header sr (word_of_nat n) @ concat (map u16_bytes (replicate n 0))"
    using build_silent_wav_eq n True by blast
  moreover have "length (concat (map u16_bytes (replicate n 0))) = 2 * n"
    by (induction n) (simp_all add: u16_bytes_def)
  ultimately show ?thesis
    using True assms parse_written [of "replicate n 0" sr] unat_rate [of sr] \<open>n \<le> max_wav_samples\<close>
    unfolding n_def by simp
next
  case False
  then show ?thesis by (auto simp: build_silent_wav_def)
qed

theorem silent_wav_roundtrip_witness:
  "parse_wav (build_silent_wav 24000 1) = Some (24000, replicate 24000 0)"
  using silent_wav_roundtrip [of 24000 1] by (simp add: INT_MAX_def max_wav_samples_def)

text \<open>Beyond that bound the 32-bit buffer size wraps round to almost nothing and the sample
  loop writes past the end of the buffer.\<close>

theorem wav_size_wraps:
  assumes "max_wav_samples < length ss" and "int (length ss) \<le> INT_MAX"
  shows "build_wav_from_float_samples fl (Some ss) (int (length ss)) sr = None"
  using assms by (intro build_wav_overrun) simp_all

theorem wav_size_wraps_witness:
  "build_wav_from_float_samples (\<lambda>x. x) (Some (replicate 2147483626 NaN)) 2147483626 24000 = None"
  using wav_size_wraps [of "replicate 2147483626 NaN" "\<lambda>x. x" 24000]
  by (simp add: max_wav_samples_def INT_MAX_def)

end
