(* ===== verification/Backend.thy ===== *)
theory Backend
  imports Wav
begin

text \<open>
  The synthesis port \<^verbatim>\<open>include/tts/backend.hpp\<close> and its two implementations: the engine adapter
  \<^verbatim>\<open>src/tts/voxtral_backend.cpp\<close> and the configurable \<^verbatim>\<open>src/tts/mock_backend.hpp\<close>. An
  exception is its message. The C engine (a submodule that is not part of
  the repository), the file system and the clock are arguments.
\<close>

subsection \<open>The port\<close>

record SynthesisRequest =
  sr_text :: string
  sr_voice :: string
  sr_model :: string
  sr_response_format :: string
  sr_speed :: cfloat

definition default_SynthesisRequest :: SynthesisRequest where
  "default_SynthesisRequest = \<lparr>sr_text = [], sr_voice = [], sr_model = [],
     sr_response_format = ''wav'', sr_speed = Finite 1\<rparr>"

text \<open>Durations are rationals; the rounding of the doubles is not modelled.\<close>

record SynthesisResult =
  audio_data :: bytes
  sample_rate :: int
  duration_seconds :: rat
  inference_time_seconds :: rat

definition default_SynthesisResult :: SynthesisResult where
  "default_SynthesisResult = \<lparr>audio_data = [], sample_rate = 24000, duration_seconds = 0,
     inference_time_seconds = 0\<rparr>"

text \<open>The outcome of a call: its value, the exception it throws, or none defined, when it
  leaves its buffers or dereferences a null context.\<close>

datatype 'a outcome = Returns 'a | Throws string | Undefined

text \<open>What a client may rely on: a successful initialization makes the backend ready, a failed one
  leaves it as it was, and a ready backend stays ready under every call.\<close>

locale tts_backend =
  fixes init :: "'i \<Rightarrow> 'b \<Rightarrow> bool \<times> 'b"
    and synth :: "'r \<Rightarrow> 'b \<Rightarrow> SynthesisResult outcome \<times> 'b"
    and ready :: "'b \<Rightarrow> bool"
  assumes init_ok: "init i b = (True, b') \<Longrightarrow> ready b'"
    and init_failed: "init i b = (False, b') \<Longrightarrow> b' = b"
    and synth_ready: "ready (snd (synth r b)) \<longleftrightarrow> ready b"
begin

text \<open>A history of calls, initializations on the left and requests on the right.\<close>

definition call :: "'i + 'r \<Rightarrow> 'b \<Rightarrow> 'b" where
  "call c b = (case c of Inl i \<Rightarrow> snd (init i b) | Inr r \<Rightarrow> snd (synth r b))"

lemma call_keeps_ready: "ready b \<Longrightarrow> ready (call c b)"
proof (cases c)
  case (Inl i)
  assume r: "ready b"
  obtain ok b' where i: "init i b = (ok, b')" by (cases "init i b")
  then have "ready b'" using r by (cases ok) (auto dest: init_ok init_failed)
  with i Inl show ?thesis by (simp add: call_def)
next
  case (Inr r)
  then show "ready b \<Longrightarrow> ?thesis" using synth_ready by (simp add: call_def)
qed

lemma ready_from_init:
  assumes "ready (fold call cs b)" and "\<not> ready b"
  shows "\<exists>before i after. cs = before @ Inl i # after \<and> fst (init i (fold call before b))"
  using assms
proof (induction cs rule: rev_induct)
  case Nil
  then show ?case by simp
next
  case (snoc c cs)
  let ?b = "fold call cs b"
  show ?case
  proof (cases "ready ?b")
    case True
    with snoc obtain before i after where
      "cs = before @ Inl i # after" "fst (init i (fold call before b))" by blast
    then have "cs @ [c] = before @ Inl i # (after @ [c]) \<and> fst (init i (fold call before b))" by simp
    then show ?thesis by blast
  next
    case False
    have r: "ready (call c ?b)" using snoc.prems by simp
    then obtain i where c: "c = Inl i"
      using False synth_ready by (cases c) (auto simp: call_def)
    obtain ok b' where i: "init i ?b = (ok, b')" by (cases "init i ?b")
    have ok using r c i False init_failed by (cases ok) (auto simp: call_def)
    with c i have "cs @ [c] = cs @ Inl i # [] \<and> fst (init i ?b)" by simp
    then show ?thesis by blast
  qed
qed

lemma ready_iff_init:
  assumes "\<not> ready b"
  shows "ready (fold call cs b) \<longleftrightarrow>
    (\<exists>before i after. cs = before @ Inl i # after \<and> fst (init i (fold call before b)))"
proof
  assume "\<exists>before i after. cs = before @ Inl i # after \<and> fst (init i (fold call before b))"
  then obtain before i after where cs: "cs = before @ Inl i # after"
    and ok: "fst (init i (fold call before b))" by blast
  have "ready (call (Inl i) (fold call before b))"
    using ok init_ok [of i "fold call before b"] by (cases "init i (fold call before b)") (auto simp: call_def)
  then have "ready (fold call after (call (Inl i) (fold call before b)))"
    by (induction after rule: rev_induct) (auto intro: call_keeps_ready)
  then show "ready (fold call cs b)" by (simp add: cs)
qed (rule ready_from_init [OF _ assms])

end

subsection \<open>VoxtralBackend\<close>

text \<open>What \<^verbatim>\<open>std::filesystem\<close> answers for a path: whether it exists and whether the query failed,
  and what it is.\<close>

record file_system =
  fs_exists :: "string \<Rightarrow> bool"
  fs_error :: "string \<Rightarrow> bool"
  fs_is_regular_file :: "string \<Rightarrow> bool"
  fs_is_directory :: "string \<Rightarrow> bool"

text \<open>The answer of \<^verbatim>\<open>tts_generate\<close>: return code, sample buffer (null is \<open>None\<close>) and count, which is
  an \<^verbatim>\<open>int\<close>.\<close>

record generated =
  gen_rc :: int
  gen_samples :: "cfloat list option"
  gen_n_samples :: "32 word"

text \<open>The linked engine, absent in a build without \<^verbatim>\<open>TTS_HAS_VOXTRAL_ENGINE\<close>.\<close>

record 'ctx engine =
  tts_load :: "string \<Rightarrow> 'ctx option"
  tts_generate :: "'ctx \<Rightarrow> string \<Rightarrow> string \<Rightarrow> generated"

record 'ctx VoxtralBackend =
  vb_initialized :: bool
  vb_model_path :: string
  vb_ctx :: "'ctx option"
  vb_use_real_engine :: bool

definition new_VoxtralBackend :: "'ctx VoxtralBackend" where
  "new_VoxtralBackend = \<lparr>vb_initialized = False, vb_model_path = [], vb_ctx = None,
     vb_use_real_engine = False\<rparr>"

text \<open>The text a C function reads from \<^verbatim>\<open>s.c_str()\<close>.\<close>

definition c_str :: "string \<Rightarrow> string" where
  "c_str s = takeWhile (\<lambda>c. c \<noteq> CHR 0x00) s"

definition voxtral_initialize ::
  "file_system \<Rightarrow> 'ctx engine option \<Rightarrow> string \<Rightarrow> 'ctx VoxtralBackend \<Rightarrow> bool \<times> 'ctx VoxtralBackend"
where
  "voxtral_initialize fs eng model_path b =
     (if model_path = [] then (False, b)
      else if \<not> fs_exists fs model_path \<or> fs_error fs model_path then (False, b)
      else if \<not> fs_is_regular_file fs model_path \<and> \<not> fs_is_directory fs model_path then (False, b)
      else
        let b = (case eng of
                   None \<Rightarrow> b
                 | Some e \<Rightarrow>
                     (case tts_load e (c_str model_path) of
                        Some ctx \<Rightarrow> b\<lparr>vb_ctx := Some ctx, vb_use_real_engine := True\<rparr>
                      | None \<Rightarrow> b\<lparr>vb_use_real_engine := False\<rparr>));
            b = b\<lparr>vb_model_path := model_path, vb_initialized := True\<rparr>
        in (True, b))"

text \<open>The context freed by the destructor.\<close>

definition voxtral_destroy :: "'ctx engine option \<Rightarrow> 'ctx VoxtralBackend \<Rightarrow> 'ctx option" where
  "voxtral_destroy eng b = (case eng of None \<Rightarrow> None | Some _ \<Rightarrow> vb_ctx b)"

definition TTS_SAMPLE_RATE :: int where "TTS_SAMPLE_RATE = 24000"

definition elapsed_double :: "time_point \<Rightarrow> time_point \<Rightarrow> rat" where
  "elapsed_double t0 t1 = of_int (t1 - t0) / of_int ns_per_sec"

definition voxtral_synthesize ::
  "(rat \<Rightarrow> rat) \<Rightarrow> 'ctx engine option \<Rightarrow> time_point \<Rightarrow> time_point \<Rightarrow> SynthesisRequest
     \<Rightarrow> 'ctx VoxtralBackend \<Rightarrow> SynthesisResult outcome" where
  "voxtral_synthesize fl eng t_start t_end request b =
     (if \<not> vb_initialized b then
        Throws ''VoxtralBackend::synthesize() called before successful initialize()''
      else case (eng, vb_use_real_engine b) of
        (Some e, True) \<Rightarrow>
          (case vb_ctx b of
             None \<Rightarrow> Undefined
           | Some ctx \<Rightarrow>
               let g = tts_generate e ctx (c_str (sr_text request)) (c_str (sr_voice request));
                   n_samples = sint (gen_n_samples g) in
               if gen_rc g \<noteq> 0 \<or> gen_samples g = None \<or> n_samples \<le> 0 then
                 Throws ''TTS inference failed''
               else case build_wav_from_float_samples fl (gen_samples g) n_samples TTS_SAMPLE_RATE of
                 None \<Rightarrow> Undefined
               | Some wav \<Rightarrow>
                   Returns (default_SynthesisResult\<lparr>audio_data := wav,
                     sample_rate := TTS_SAMPLE_RATE,
                     duration_seconds := of_int n_samples / of_int TTS_SAMPLE_RATE,
                     inference_time_seconds := elapsed_double t_start t_end\<rparr>))
      | _ \<Rightarrow>
          Returns (default_SynthesisResult\<lparr>audio_data := build_silent_wav 24000 1,
            sample_rate := 24000, duration_seconds := 1,
            inference_time_seconds := elapsed_double t_start t_end\<rparr>))"

definition voxtral_is_ready :: "'ctx VoxtralBackend \<Rightarrow> bool" where
  "voxtral_is_ready b = vb_initialized b"

definition voxtral_model_name :: string where
  "voxtral_model_name = ''voxtral-4b''"

subsection \<open>MockBackend\<close>

text \<open>The simulated latency is not modelled; \<^verbatim>\<open>call_count\<close> is the 32-bit atomic counter.\<close>

record MockBackend =
  mb_should_fail :: bool
  mb_fail_message :: string
  mb_audio_data :: bytes
  mb_sample_rate :: int
  mb_duration_seconds :: rat
  mb_fail_initialize :: bool
  mb_call_count :: "32 word"
  mb_last_request :: SynthesisRequest
  mb_initialized :: bool

definition new_MockBackend :: MockBackend where
  "new_MockBackend = \<lparr>mb_should_fail = False, mb_fail_message = ''Mock backend failure'',
     mb_audio_data = [], mb_sample_rate = 24000, mb_duration_seconds = 1,
     mb_fail_initialize = False, mb_call_count = 0, mb_last_request = default_SynthesisRequest,
     mb_initialized = False\<rparr>"

definition minimal_wav_header :: bytes where
  "minimal_wav_header =
     (let p = replicate 44 0;
          p = p[0 := of_char CHR ''R'', 1 := of_char CHR ''I'', 2 := of_char CHR ''F'', 3 := of_char CHR ''F''];
          p = p[4 := 36, 5 := 0, 6 := 0, 7 := 0];
          p = p[8 := of_char CHR ''W'', 9 := of_char CHR ''A'', 10 := of_char CHR ''V'', 11 := of_char CHR ''E''];
          p = p[12 := of_char CHR ''f'', 13 := of_char CHR ''m'', 14 := of_char CHR ''t'', 15 := of_char CHR '' ''];
          p = p[16 := 16];
          p = p[20 := 1];
          p = p[22 := 1];
          p = p[24 := 0xC0, 25 := 0x5D];
          p = p[28 := 0x80, 29 := 0xBB];
          p = p[32 := 2];
          p = p[34 := 16];
          p = p[36 := of_char CHR ''d'', 37 := of_char CHR ''a'', 38 := of_char CHR ''t'', 39 := of_char CHR ''a'']
      in p)"

definition mock_initialize :: "string \<Rightarrow> MockBackend \<Rightarrow> bool \<times> MockBackend" where
  "mock_initialize model_path b =
     (if mb_fail_initialize b then (False, b) else (True, b\<lparr>mb_initialized := True\<rparr>))"

definition mock_synthesize ::
  "SynthesisRequest \<Rightarrow> MockBackend \<Rightarrow> SynthesisResult outcome \<times> MockBackend" where
  "mock_synthesize request b =
     (let b = b\<lparr>mb_call_count := mb_call_count b + 1, mb_last_request := request\<rparr> in
      if mb_should_fail b then (Throws (mb_fail_message b), b)
      else (Returns (default_SynthesisResult\<lparr>
              audio_data := (if mb_audio_data b \<noteq> [] then mb_audio_data b else minimal_wav_header),
              sample_rate := mb_sample_rate b,
              duration_seconds := mb_duration_seconds b,
              inference_time_seconds := 1 / 1000\<rparr>), b))"

definition mock_is_ready :: "MockBackend \<Rightarrow> bool" where
  "mock_is_ready b = mb_initialized b"

definition mock_model_name :: string where
  "mock_model_name = ''mock-backend''"

subsection \<open>The port's laws\<close>

lemma voxtral_initialize_cases:
  "voxtral_initialize fs eng path b = (ok, b') \<Longrightarrow>
     (ok \<longrightarrow> voxtral_is_ready b') \<and> (\<not> ok \<longrightarrow> b' = b)"
  by (auto simp: voxtral_initialize_def voxtral_is_ready_def Let_def
      split: if_splits option.splits)

text \<open>One request at the engine adapter: rounding, clock readings and the request; it changes nothing.\<close>

definition voxtral_synth_call ::
  "'ctx engine option \<Rightarrow> (rat \<Rightarrow> rat) \<times> time_point \<times> time_point \<times> SynthesisRequest
     \<Rightarrow> 'ctx VoxtralBackend \<Rightarrow> SynthesisResult outcome \<times> 'ctx VoxtralBackend" where
  "voxtral_synth_call eng r b =
     (case r of (fl, t0, t1, req) \<Rightarrow> (voxtral_synthesize fl eng t0 t1 req b, b))"

interpretation voxtral: tts_backend "voxtral_initialize fs eng" "voxtral_synth_call eng" voxtral_is_ready
  for fs eng
  by unfold_locales (auto simp: voxtral_synth_call_def dest: voxtral_initialize_cases)

interpretation mock: tts_backend mock_initialize mock_synthesize mock_is_ready
  by unfold_locales
    (auto simp: mock_initialize_def mock_synthesize_def mock_is_ready_def Let_def split: if_splits)

definition usable_model_path :: "file_system \<Rightarrow> string \<Rightarrow> bool" where
  "usable_model_path fs path \<longleftrightarrow> path \<noteq> [] \<and> fs_exists fs path \<and> \<not> fs_error fs path
     \<and> (fs_is_regular_file fs path \<or> fs_is_directory fs path)"

lemma voxtral_initialize_ok: "fst (voxtral_initialize fs eng path b) \<longleftrightarrow> usable_model_path fs path"
  by (auto simp: voxtral_initialize_def usable_model_path_def Let_def split: option.split)

subsection \<open>The engine adapter's state\<close>

definition voxtral_inv :: "'ctx VoxtralBackend \<Rightarrow> bool" where
  "voxtral_inv b \<longleftrightarrow> (vb_use_real_engine b \<longrightarrow> vb_ctx b \<noteq> None)"

lemma voxtral_inv_new: "voxtral_inv new_VoxtralBackend"
  by (simp add: voxtral_inv_def new_VoxtralBackend_def)

lemma voxtral_inv_initialize: "voxtral_inv b \<Longrightarrow> voxtral_inv (snd (voxtral_initialize fs eng path b))"
  by (auto simp: voxtral_initialize_def voxtral_inv_def Let_def split: option.split)

lemma voxtral_inv_history:
  "voxtral_inv (fold (\<lambda>path b. snd (voxtral_initialize fs eng path b)) paths new_VoxtralBackend)"
  by (induction paths rule: rev_induct) (auto simp: voxtral_inv_new voxtral_inv_initialize)

text \<open>Where a call leaves its buffers: the engine reports success with more samples than are in the
  buffer it hands over, or more than \<open>max_wav_samples\<close>. Nothing under \<^verbatim>\<open>src\<close> excludes it: the comment
  on the conversion says that the count is the number of samples, and no bound is given anywhere.\<close>

definition overrun :: "generated \<Rightarrow> bool" where
  "overrun g \<longleftrightarrow> gen_rc g = 0 \<and> (case gen_samples g of None \<Rightarrow> False
     | Some ss \<Rightarrow> int (length ss) < sint (gen_n_samples g) \<or> int max_wav_samples < sint (gen_n_samples g))"

definition overruns :: "'ctx engine option \<Rightarrow> 'ctx VoxtralBackend \<Rightarrow> SynthesisRequest \<Rightarrow> bool" where
  "overruns eng b req \<longleftrightarrow> vb_initialized b \<and> vb_use_real_engine b \<and>
     (case (eng, vb_ctx b) of
        (Some e, Some ctx) \<Rightarrow> overrun (tts_generate e ctx (c_str (sr_text req)) (c_str (sr_voice req)))
      | _ \<Rightarrow> False)"

definition well_formed_result :: "SynthesisResult \<Rightarrow> bool" where
  "well_formed_result r \<longleftrightarrow> sample_rate r = 24000 \<and>
     (case parse_wav (audio_data r) of
        None \<Rightarrow> False
      | Some (rate, pcm) \<Rightarrow> rate = 24000 \<and> pcm \<noteq> []
          \<and> duration_seconds r = of_nat (length pcm) / 24000)"

lemma silent_second: "parse_wav (build_silent_wav 24000 1) = Some (24000, replicate 24000 0)"
proof -
  have "build_silent_wav 24000 1 =
      build_wav_header 24000 (word_of_nat 24000) @ concat (map u16_bytes (replicate 24000 0))"
    by (rule build_silent_wav_eq) (simp_all add: max_wav_samples_def)
  then show ?thesis
    using parse_written [of "replicate 24000 0" 24000] by (simp add: max_wav_samples_def)
qed

lemma voxtral_generated:
  assumes "gen_samples g = Some ss" and "gen_rc g = 0" and "0 < sint (gen_n_samples g)"
  shows "if overrun g
    then build_wav_from_float_samples fl (Some ss) (sint (gen_n_samples g)) TTS_SAMPLE_RATE = None
    else \<exists>wav pcm. build_wav_from_float_samples fl (Some ss) (sint (gen_n_samples g)) TTS_SAMPLE_RATE = Some wav
      \<and> parse_wav wav = Some (24000, pcm) \<and> sint (gen_n_samples g) = int (length pcm) \<and> pcm \<noteq> []"
proof -
  define n where "n = nat (sint (gen_n_samples g))"
  have n: "sint (gen_n_samples g) = int n" "0 < n" using assms(3) by (simp_all add: n_def)
  have max: "int n \<le> INT_MAX"
    using sint_less [of "gen_n_samples g"] by (simp add: n(1) [symmetric] INT_MAX_def)
  have o: "overrun g \<longleftrightarrow> max_wav_samples < n \<or> length ss < n"
    using assms(1,2) n(1) by (auto simp: overrun_def)
  show ?thesis
  proof (cases "overrun g")
    case True
    then show ?thesis using build_wav_overrun [OF max] by (simp add: o n(1))
  next
    case False
    then have le: "n \<le> length ss" "n \<le> max_wav_samples" by (auto simp: o)
    then have "parse_wav (build_wav_header 24000 (word_of_nat n) @ concat (map u16_bytes (map (sample_word fl) (take n ss))))
        = Some (24000, map (sample_word fl) (take n ss))"
      using parse_written [of "map (sample_word fl) (take n ss)" 24000] by (simp add: min_absorb2)
    with False le n show ?thesis
      using build_wav_from_buffer [OF n(2) le, of fl 24000]
      by (auto simp: TTS_SAMPLE_RATE_def intro!: exI [of _ "map (sample_word fl) (take n ss)"])
  qed
qed

lemma voxtral_outcome:
  assumes "voxtral_inv b" and "vb_initialized b"
  shows "if overruns eng b req then voxtral_synthesize fl eng t0 t1 req b = Undefined
    else (\<exists>r. voxtral_synthesize fl eng t0 t1 req b = Returns r \<and> well_formed_result r)
       \<or> voxtral_synthesize fl eng t0 t1 req b = Throws ''TTS inference failed''"
proof (cases "eng \<noteq> None \<and> vb_use_real_engine b")
  case False
  then have "voxtral_synthesize fl eng t0 t1 req b =
      Returns (default_SynthesisResult\<lparr>audio_data := build_silent_wav 24000 1, sample_rate := 24000,
        duration_seconds := 1, inference_time_seconds := elapsed_double t0 t1\<rparr>)"
    using assms(2) by (cases eng) (auto simp: voxtral_synthesize_def)
  moreover have "\<not> overruns eng b req" using False by (auto simp: overruns_def)
  ultimately show ?thesis by (simp add: well_formed_result_def silent_second)
next
  case True
  then obtain e where e: "eng = Some e" and real: "vb_use_real_engine b" by auto
  from real assms(1) obtain ctx where ctx: "vb_ctx b = Some ctx" by (auto simp: voxtral_inv_def)
  define g where "g = tts_generate e ctx (c_str (sr_text req)) (c_str (sr_voice req))"
  have o: "overruns eng b req \<longleftrightarrow> overrun g"
    using assms(2) e real ctx by (simp add: overruns_def g_def)
  show ?thesis
  proof (cases "gen_rc g \<noteq> 0 \<or> gen_samples g = None \<or> sint (gen_n_samples g) \<le> 0")
    case True
    then have "\<not> overrun g" by (auto simp: overrun_def max_wav_samples_def split: option.splits)
    with True show ?thesis using e real ctx assms(2) o
      by (simp add: voxtral_synthesize_def Let_def flip: g_def)
  next
    case False
    then obtain ss where ss: "gen_samples g = Some ss" and ok: "gen_rc g = 0" "0 < sint (gen_n_samples g)"
      by auto
    from voxtral_generated [OF ss ok, of fl] show ?thesis
      using e real ctx assms(2) ss ok o
      by (auto simp: voxtral_synthesize_def Let_def well_formed_result_def TTS_SAMPLE_RATE_def
          simp flip: g_def split: if_splits)
  qed
qed

text \<open>What a call comes to does not depend on the rounding or the clock.\<close>

lemma voxtral_defined:
  assumes "voxtral_inv b"
  shows "fst (voxtral_synth_call eng (fl, t0, t1, req) b) = Undefined \<longleftrightarrow> overruns eng b req"
proof (cases "vb_initialized b")
  case True
  from voxtral_outcome [OF assms True, of eng req fl t0 t1] show ?thesis
    by (auto simp: voxtral_synth_call_def split: if_splits)
qed (simp add: voxtral_synth_call_def voxtral_synthesize_def overruns_def)

subsection \<open>Properties\<close>

text \<open>The engine adapter is ready exactly when some initialization in its history was given a
  path that is not empty and names an existing file or directory; neither a failed
  initialization nor any synthesis takes readiness away, and a model the engine cannot load does
  not prevent it.\<close>

theorem voxtral_ready_iff_initialized:
  "voxtral_is_ready (fold (voxtral.call fs eng) cs new_VoxtralBackend)
     \<longleftrightarrow> (\<exists>path. Inl path \<in> set cs \<and> usable_model_path fs path)"
proof -
  have "\<not> voxtral_is_ready new_VoxtralBackend"
    by (simp add: voxtral_is_ready_def new_VoxtralBackend_def)
  from voxtral.ready_iff_init [OF this] show ?thesis
    unfolding voxtral_initialize_ok in_set_conv_decomp by blast
qed

text \<open>C32. What a synthesis comes to, exactly, after a successful initialization and whatever the linked
  engine answers, for a model it could not load and for a build without it: the call leaves its buffers
  exactly when the engine reports success with more samples than its buffer has, or with more than
  \<open>max_wav_samples\<close>; in every other case it throws the inference error or returns a file that a strict
  reader accepts, at 24000 Hz, with at least one sample, whose duration is the one reported. A null
  context is never used.\<close>

theorem voxtral_audio_well_formed:
  fixes fs :: file_system and eng :: "'ctx engine option" and paths :: "string list"
  defines "b \<equiv> fold (\<lambda>path b. snd (voxtral_initialize fs eng path b)) paths new_VoxtralBackend"
  assumes "voxtral_is_ready b"
  shows "if overruns eng b req then voxtral_synthesize fl eng t0 t1 req b = Undefined
    else (\<exists>r. voxtral_synthesize fl eng t0 t1 req b = Returns r \<and> well_formed_result r)
       \<or> voxtral_synthesize fl eng t0 t1 req b = Throws ''TTS inference failed''"
  using assms voxtral_inv_history
  by (intro voxtral_outcome) (auto simp: voxtral_is_ready_def b_def)

definition example_engine :: "nat engine" where
  "example_engine = \<lparr>tts_load = (\<lambda>_. Some 7),
     tts_generate = (\<lambda>ctx text voice. \<lparr>gen_rc = 0, gen_samples = Some [Finite (1 / 2), NaN], gen_n_samples = 2\<rparr>)\<rparr>"

definition example_fs :: file_system where
  "example_fs = \<lparr>fs_exists = (\<lambda>_. True), fs_error = (\<lambda>_. False), fs_is_regular_file = (\<lambda>_. True),
     fs_is_directory = (\<lambda>_. False)\<rparr>"

text \<open>The adapter with that engine, its model loaded.\<close>

definition example_backend :: "nat VoxtralBackend" where
  "example_backend = snd (voxtral_initialize example_fs (Some example_engine) ''m'' new_VoxtralBackend)"

lemma example_backend_ok:
  "voxtral_inv example_backend" "\<not> overruns (Some example_engine) example_backend req"
  "vb_use_real_engine example_backend" "vb_initialized example_backend"
  by (simp_all add: example_backend_def voxtral_initialize_def example_fs_def example_engine_def
      voxtral_inv_def overruns_def overrun_def max_wav_samples_def)

theorem voxtral_audio_well_formed_witness:
  "((\<exists>r. voxtral_synthesize (\<lambda>x. x) (Some example_engine) 0 5 default_SynthesisRequest example_backend = Returns r
      \<and> well_formed_result r)
   \<or> voxtral_synthesize (\<lambda>x. x) (Some example_engine) 0 5 default_SynthesisRequest example_backend
      = Throws ''TTS inference failed'')
   \<and> vb_use_real_engine example_backend"
  using voxtral_audio_well_formed [of example_fs "Some example_engine" "[''m'']" default_SynthesisRequest "\<lambda>x. x" 0 5]
    example_backend_ok
  by (simp add: voxtral_is_ready_def flip: example_backend_def)

text \<open>The engine reads C strings: of a text with a NUL character it is given only what comes
  before, so two texts that agree up to it give the same result.\<close>

theorem text_after_nul_is_not_spoken:
  assumes "CHR 0x00 \<notin> set spoken"
  shows "voxtral_synthesize fl eng t0 t1 (req\<lparr>sr_text := spoken @ CHR 0x00 # rest\<rparr>) b
       = voxtral_synthesize fl eng t0 t1 (req\<lparr>sr_text := spoken\<rparr>) b"
proof -
  have "c_str (spoken @ CHR 0x00 # rest) = spoken" "c_str spoken = spoken"
    using assms by (auto simp: c_str_def takeWhile_tail)
  then show ?thesis by (simp add: voxtral_synthesize_def split: option.split bool.split)
qed

theorem text_after_nul_is_not_spoken_witness:
  "voxtral_synthesize (\<lambda>x. x) (Some example_engine) 0 5
      (default_SynthesisRequest\<lparr>sr_text := ''hello'' @ CHR 0x00 # '' world''\<rparr>) new_VoxtralBackend
   = voxtral_synthesize (\<lambda>x. x) (Some example_engine) 0 5
      (default_SynthesisRequest\<lparr>sr_text := ''hello''\<rparr>) new_VoxtralBackend"
  by (rule text_after_nul_is_not_spoken) simp

text \<open>The header the mock writes by hand is the one the writer builds for an empty recording at
  24000 Hz, so both implementations of the port produce the same format.\<close>

theorem mock_header_is_wav_header:
  "minimal_wav_header = build_wav_header 24000 0
   \<and> parse_wav minimal_wav_header = Some (24000, [])"
proof -
  have "minimal_wav_header = build_wav_header 24000 0"
    unfolding build_wav_header_layout
    by (simp add: minimal_wav_header_def zero_header list_update_numeral Let_def tag_bytes_def
        u32_bytes_def u16_bytes_def low_byte_def)
  moreover have "parse_wav (build_wav_header 24000 0) = Some (24000, [])"
    using parse_written [of "[]" 24000] by (simp add: max_wav_samples_def)
  ultimately show ?thesis by simp
qed

end
