(* ===== verification/Pool.thy ===== *)
theory Pool
  imports Backend
begin

text \<open>
  The bounded single-worker inference queue: \<^verbatim>\<open>include/tts/inference_pool.hpp\<close> and
  \<^verbatim>\<open>src/tts/inference_pool.cpp\<close>. The worker thread is a program counter and an executable step
  per atomic section of \<^verbatim>\<open>worker_loop\<close>; callers of \<^verbatim>\<open>submit\<close> and \<^verbatim>\<open>shutdown\<close> interleave with it in the
  step relation \<open>pool_step\<close>, which also keeps the history of accepted jobs and of answers. A clock
  reading is an argument of the step that makes it; the backend is the port of \<open>Backend\<close>.
\<close>

subsection \<open>Jobs and the pool\<close>

text \<open>The two callbacks are known by whether they are set, and by the call whose variables they
  capture, the job's owner; calling one is an answer to the owner. What they throw is caught and
  logged.\<close>

record InferenceJob =
  job_request :: SynthesisRequest
  job_deadline :: time_point
  has_on_success :: bool
  has_on_error :: bool
  job_owner :: nat

datatype answer = Succeeded SynthesisResult | Failed string

text \<open>Where the worker is: waiting, holding a popped job, in the guarded section before the
  inference, after it with its result, or past the end of the loop.\<close>

datatype worker =
    Waiting
  | In_Hand InferenceJob
  | Running InferenceJob
  | Synthesized InferenceJob SynthesisResult
  | Exited

record 'b InferencePool =
  pool_backend :: 'b
  max_depth :: int
  timeout_seconds :: int
  queue :: "InferenceJob list"
  accepting :: bool
  active :: int
  expired :: int
  worker :: worker

definition new_InferencePool :: "'b option \<Rightarrow> int \<Rightarrow> int \<Rightarrow> string + 'b InferencePool" where
  "new_InferencePool backend max_queue_depth request_timeout_seconds =
     (case backend of
        None \<Rightarrow> Inl ''InferencePool requires a non-null backend''
      | Some b \<Rightarrow>
          if max_queue_depth < 1 then Inl ''max_queue_depth must be >= 1''
          else if request_timeout_seconds < 1 then Inl ''request_timeout_seconds must be >= 1''
          else Inr \<lparr>pool_backend = b, max_depth = max_queue_depth,
                 timeout_seconds = request_timeout_seconds, queue = [], accepting = True,
                 active = 0, expired = 0, worker = Waiting\<rparr>)"

text \<open>The default deadline of a job that has the epoch sentinel.\<close>

definition stamp :: "int \<Rightarrow> time_point \<Rightarrow> InferenceJob \<Rightarrow> InferenceJob" where
  "stamp timeout now job =
     (if job_deadline job = 0 then job\<lparr>job_deadline := now + timeout * ns_per_sec\<rparr> else job)"

definition submit :: "time_point \<Rightarrow> InferenceJob \<Rightarrow> 'b InferencePool \<Rightarrow> bool \<times> 'b InferencePool" where
  "submit now job p =
     (let job = stamp (timeout_seconds p) now job in
      if \<not> accepting p then (False, p)
      else if size_to_int (length (queue p)) \<ge> max_depth p then (False, p)
      else (True, p\<lparr>queue := queue p @ [job]\<rparr>))"

text \<open>\<^verbatim>\<open>shutdown\<close> stops the intake and then joins the worker: it returns once the worker has exited.\<close>

definition stop_accepting :: "'b InferencePool \<Rightarrow> 'b InferencePool" where
  "stop_accepting p = p\<lparr>accepting := False\<rparr>"

definition shutdown_returns :: "'b InferencePool \<Rightarrow> bool" where
  "shutdown_returns p \<longleftrightarrow> \<not> accepting p \<and> worker p = Exited"

definition queue_depth :: "'b InferencePool \<Rightarrow> int" where
  "queue_depth p = size_to_int (length (queue p))"

definition active_jobs :: "'b InferencePool \<Rightarrow> int" where
  "active_jobs p = active p"

definition is_accepting :: "'b InferencePool \<Rightarrow> bool" where
  "is_accepting p = accepting p"

definition expired_jobs :: "'b InferencePool \<Rightarrow> int" where
  "expired_jobs p = expired p"

subsection \<open>The worker loop\<close>

text \<open>What one step did: took the next job, left the loop, gave a job to the backend, or answered
  it.\<close>

datatype action = Took InferenceJob | Left | Entered InferenceJob | Inferred InferenceJob
  | Answered InferenceJob answer

definition timed_out_in_queue :: string where
  "timed_out_in_queue = ''Request timed out in queue''"

definition exceeded_deadline :: string where
  "exceeded_deadline = ''Request exceeded deadline during inference''"

definition inference_failed :: string where
  "inference_failed = ''Inference failed: ''"

text \<open>\<open>None\<close>: the worker waits on the condition variable, or has exited, or the backend call has no
  defined outcome.\<close>

definition worker_step ::
  "(SynthesisRequest \<Rightarrow> 'b \<Rightarrow> SynthesisResult outcome \<times> 'b) \<Rightarrow> time_point
     \<Rightarrow> 'b InferencePool \<Rightarrow> (action \<times> 'b InferencePool) option" where
  "worker_step synth now p =
     (case worker p of
        Waiting \<Rightarrow>
          if accepting p \<and> queue p = [] then None
          else (case queue p of
                  [] \<Rightarrow> Some (Left, p\<lparr>worker := Exited\<rparr>)
                | job # rest \<Rightarrow> Some (Took job, p\<lparr>queue := rest, worker := In_Hand job\<rparr>))
      | In_Hand job \<Rightarrow>
          if now \<ge> job_deadline job
          then Some (Answered job (Failed timed_out_in_queue),
                 p\<lparr>expired := expired p + 1, worker := Waiting\<rparr>)
          else Some (Entered job, p\<lparr>active := active p + 1, worker := Running job\<rparr>)
      | Running job \<Rightarrow>
          (case synth (job_request job) (pool_backend p) of
             (Throws what, b) \<Rightarrow>
               Some (Answered job (Failed (inference_failed @ what)),
                 p\<lparr>pool_backend := b, active := active p - 1, worker := Waiting\<rparr>)
           | (Returns result, b) \<Rightarrow>
               Some (Inferred job, p\<lparr>pool_backend := b, worker := Synthesized job result\<rparr>)
           | (Undefined, b) \<Rightarrow> None)
      | Synthesized job result \<Rightarrow>
          Some (Answered job (if now \<ge> job_deadline job then Failed exceeded_deadline
                              else Succeeded result),
            p\<lparr>active := active p - 1, worker := Waiting\<rparr>)
      | Exited \<Rightarrow> None)"

text \<open>Whether an answer reaches a callback.\<close>

definition calls_back :: "InferenceJob \<Rightarrow> answer \<Rightarrow> bool" where
  "calls_back job a = (case a of Succeeded _ \<Rightarrow> has_on_success job | Failed _ \<Rightarrow> has_on_error job)"

subsection \<open>Interleavings\<close>

text \<open>What has happened so far: the jobs accepted, the jobs given to the backend, and the answers
  with the clock reading of the step that gave them.\<close>

record history =
  accepted_jobs :: "InferenceJob list"
  entered_jobs :: "InferenceJob list"
  answers :: "(InferenceJob \<times> answer \<times> time_point) list"

definition no_history :: history where
  "no_history = \<lparr>accepted_jobs = [], entered_jobs = [], answers = []\<rparr>"

definition log_action :: "time_point \<Rightarrow> action \<Rightarrow> history \<Rightarrow> history" where
  "log_action now act h =
     (case act of
        Entered job \<Rightarrow> h\<lparr>entered_jobs := entered_jobs h @ [job]\<rparr>
      | Answered job a \<Rightarrow> h\<lparr>answers := answers h @ [(job, a, now)]\<rparr>
      | _ \<Rightarrow> h)"

definition log_submit :: "bool \<Rightarrow> InferenceJob \<Rightarrow> history \<Rightarrow> history" where
  "log_submit ok job h = (if ok then h\<lparr>accepted_jobs := accepted_jobs h @ [job]\<rparr> else h)"

inductive pool_step ::
  "(SynthesisRequest \<Rightarrow> 'b \<Rightarrow> SynthesisResult outcome \<times> 'b)
     \<Rightarrow> 'b InferencePool \<times> history \<Rightarrow> 'b InferencePool \<times> history \<Rightarrow> bool"
  for synth where
  Submit: "submit now job p = (ok, p') \<Longrightarrow>
     pool_step synth (p, h) (p', log_submit ok (stamp (timeout_seconds p) now job) h)"
| Shutdown: "pool_step synth (p, h) (stop_accepting p, h)"
| Work: "worker_step synth now p = Some (act, p') \<Longrightarrow> pool_step synth (p, h) (p', log_action now act h)"

inductive reachable ::
  "(SynthesisRequest \<Rightarrow> 'b \<Rightarrow> SynthesisResult outcome \<times> 'b) \<Rightarrow> 'b InferencePool
     \<Rightarrow> 'b InferencePool \<times> history \<Rightarrow> bool"
  for synth p0 where
  Start: "reachable synth p0 (p0, no_history)"
| Step: "reachable synth p0 s \<Longrightarrow> pool_step synth s s' \<Longrightarrow> reachable synth p0 s'"

inductive_cases pool_stepE: "pool_step synth (p, h) s'"

subsection \<open>The invariant\<close>

fun in_hand :: "worker \<Rightarrow> InferenceJob list" where
  "in_hand (In_Hand job) = [job]"
| "in_hand (Running job) = [job]"
| "in_hand (Synthesized job _) = [job]"
| "in_hand Waiting = []"
| "in_hand Exited = []"

fun in_service :: "worker \<Rightarrow> InferenceJob list" where
  "in_service (Running job) = [job]"
| "in_service (Synthesized job _) = [job]"
| "in_service (In_Hand job) = []"
| "in_service Waiting = []"
| "in_service Exited = []"

definition answered :: "history \<Rightarrow> InferenceJob list" where
  "answered h = map fst (answers h)"

definition skipped :: "InferenceJob \<times> answer \<times> time_point \<Rightarrow> bool" where
  "skipped e = (fst (snd e) = Failed timed_out_in_queue)"

text \<open>No job is lost, doubled or overtaken.\<close>

definition fifo_inv :: "'b InferencePool \<Rightarrow> history \<Rightarrow> bool" where
  "fifo_inv p h \<longleftrightarrow> accepted_jobs h = answered h @ in_hand (worker p) @ queue p"

definition bounds_inv :: "int \<Rightarrow> 'b InferencePool \<Rightarrow> bool" where
  "bounds_inv depth p \<longleftrightarrow> max_depth p = depth \<and> int (length (queue p)) \<le> depth
     \<and> active p = int (length (in_service (worker p)))
     \<and> (worker p = Exited \<longrightarrow> \<not> accepting p \<and> queue p = [])"

definition service_inv :: "'b InferencePool \<Rightarrow> history \<Rightarrow> bool" where
  "service_inv p h \<longleftrightarrow>
     expired p = int (length (filter skipped (answers h)))
     \<and> entered_jobs h = map fst (filter (\<lambda>e. \<not> skipped e) (answers h)) @ in_service (worker p)"

text \<open>What an answer given at time \<open>t\<close> says about the deadline.\<close>

definition answer_ok :: "InferenceJob \<times> answer \<times> time_point \<Rightarrow> bool" where
  "answer_ok e = (case e of (job, a, t) \<Rightarrow>
     (case a of
        Succeeded _ \<Rightarrow> t < job_deadline job
      | Failed m \<Rightarrow> m \<noteq> []
          \<and> (m = timed_out_in_queue \<or> m = exceeded_deadline \<longrightarrow> job_deadline job \<le> t)
          \<and> (m = timed_out_in_queue \<or> m = exceeded_deadline
               \<or> take (length inference_failed) m = inference_failed)))"

definition pool_inv :: "int \<Rightarrow> 'b InferencePool \<times> history \<Rightarrow> bool" where
  "pool_inv depth s = (case s of (p, h) \<Rightarrow>
     fifo_inv p h \<and> bounds_inv depth p \<and> service_inv p h \<and> list_all answer_ok (answers h))"

lemmas pool_inv_defs = pool_inv_def fifo_inv_def bounds_inv_def service_inv_def

lemma message_texts [simp]:
  "inference_failed @ what \<noteq> timed_out_in_queue" "inference_failed @ what \<noteq> exceeded_deadline"
  "exceeded_deadline \<noteq> timed_out_in_queue" "timed_out_in_queue \<noteq> exceeded_deadline"
  "timed_out_in_queue \<noteq> []" "exceeded_deadline \<noteq> []" "inference_failed \<noteq> []"
  by (simp_all add: inference_failed_def timed_out_in_queue_def exceeded_deadline_def)

lemma submit_inv [pool_inv_intros]:
  assumes "pool_inv depth (p, h)" and "submit now job p = (ok, p')" and "depth \<le> INT_MAX"
  shows "pool_inv depth (p', log_submit ok (stamp (timeout_seconds p) now job) h)"
proof (cases ok)
  case False
  then have "p' = p" using assms(2) by (auto simp: submit_def Let_def split: if_splits)
  with assms(1) False show ?thesis by (simp add: log_submit_def)
next
  case True
  then have acc: "accepting p" and lt: "size_to_int (length (queue p)) < max_depth p"
    and p': "p' = p\<lparr>queue := queue p @ [stamp (timeout_seconds p) now job]\<rparr>"
    using assms(2) by (auto simp: submit_def Let_def split: if_splits)
  have "int (length (queue p)) \<le> INT_MAX"
    using assms(1,3) by (simp add: pool_inv_defs)
  then have "size_to_int (length (queue p)) = int (length (queue p))"
    by (intro size_to_int_small) (simp add: INT_MAX_def)
  with assms(1) True acc lt p' show ?thesis
    by (auto simp: pool_inv_defs log_submit_def answered_def)
qed

lemma stop_inv [pool_inv_intros]: "pool_inv depth (p, h) \<Longrightarrow> pool_inv depth (stop_accepting p, h)"
  by (auto simp: pool_inv_defs stop_accepting_def)

lemma worker_inv [pool_inv_intros]:
  assumes "pool_inv depth (p, h)" and "worker_step synth now p = Some (act, p')"
  shows "pool_inv depth (p', log_action now act h)"
proof (cases "worker p")
  case Waiting
  with assms show ?thesis
    by (auto simp: worker_step_def pool_inv_defs log_action_def answered_def
        split: if_splits list.splits)
next
  case (In_Hand job)
  with assms show ?thesis
    by (auto simp: worker_step_def pool_inv_defs log_action_def answered_def skipped_def answer_ok_def
        split: if_splits)
next
  case (Running job)
  with assms show ?thesis
    by (auto simp: worker_step_def pool_inv_defs log_action_def answered_def skipped_def answer_ok_def
        split: outcome.splits prod.splits)
next
  case (Synthesized job r)
  with assms show ?thesis
    by (auto simp: worker_step_def pool_inv_defs log_action_def answered_def skipped_def answer_ok_def)
next
  case Exited
  with assms(2) show ?thesis by (simp add: worker_step_def)
qed

lemma new_pool_inv:
  assumes "new_InferencePool (Some b) depth timeout = Inr p"
  shows "pool_inv depth (p, no_history)"
  using assms
  by (auto simp: new_InferencePool_def pool_inv_defs no_history_def answered_def split: if_splits)

lemma pool_step_inv:
  assumes "pool_step synth s s'" and "pool_inv depth s" and "depth \<le> INT_MAX"
  shows "pool_inv depth s'"
  using assms by cases (auto intro: pool_inv_intros)

lemma reachable_inv:
  assumes "reachable synth p0 s" and "new_InferencePool (Some b) depth timeout = Inr p0"
    and "depth \<le> INT_MAX"
  shows "pool_inv depth s"
  using assms by (induction rule: reachable.induct) (auto intro: new_pool_inv pool_step_inv)

subsection \<open>After a shutdown\<close>

lemma stopped_step:
  assumes "pool_step synth s s'" and "\<not> accepting (fst s)"
  shows "\<not> accepting (fst s') \<and> accepted_jobs (snd s') = accepted_jobs (snd s)"
  using assms
proof cases
  case (Submit now job p ok p' h)
  then show ?thesis using assms(2)
    by (auto simp: submit_def Let_def log_submit_def split: if_splits)
next
  case (Work now p act p' h)
  then show ?thesis using assms(2)
    by (auto simp: worker_step_def log_action_def Let_def
        split: worker.splits if_splits list.splits outcome.splits prod.splits action.splits)
qed (auto simp: stop_accepting_def)

subsection \<open>The worker's progress\<close>

text \<open>The worker alone for up to \<open>n\<close> steps, under any clock.\<close>

fun worker_run ::
  "(SynthesisRequest \<Rightarrow> 'b \<Rightarrow> SynthesisResult outcome \<times> 'b) \<Rightarrow> (nat \<Rightarrow> time_point) \<Rightarrow> nat
     \<Rightarrow> 'b InferencePool \<times> history \<Rightarrow> 'b InferencePool \<times> history" where
  "worker_run synth clock 0 s = s"
| "worker_run synth clock (Suc n) (p, h) =
     (case worker_step synth (clock n) p of
        None \<Rightarrow> (p, h)
      | Some (act, p') \<Rightarrow> worker_run synth clock n (p', log_action (clock n) act h))"

lemma log_action_accepted [simp]: "accepted_jobs (log_action now act h) = accepted_jobs h"
  by (simp add: log_action_def split: action.split)

text \<open>The steps the worker needs at most until it has nothing to do.\<close>

definition worker_rank :: "'b InferencePool \<Rightarrow> nat" where
  "worker_rank p = 4 * length (queue p) +
     (case worker p of Exited \<Rightarrow> 0 | Waiting \<Rightarrow> 1 | Synthesized _ _ \<Rightarrow> 2 | Running _ \<Rightarrow> 3 | In_Hand _ \<Rightarrow> 4)"

text \<open>The jobs without an answer.\<close>

definition open_jobs :: "'b InferencePool \<Rightarrow> InferenceJob list" where
  "open_jobs p = in_hand (worker p) @ queue p"

lemma worker_open_jobs:
  "worker_step synth now p = Some (act, p') \<Longrightarrow> set (open_jobs p') \<subseteq> set (open_jobs p)"
  by (cases "worker p") (auto simp: worker_step_def open_jobs_def
      split: if_splits list.splits outcome.splits prod.splits)

definition quiet :: "'b InferencePool \<Rightarrow> bool" where
  "quiet p \<longleftrightarrow> in_hand (worker p) = [] \<and> queue p = [] \<and> (worker p = Exited \<or> accepting p)"

text \<open>A backend whose calls keep its state within \<open>ok\<close>, where they return or throw for exactly the
  requests that are \<open>fine\<close>.\<close>

locale total_backend =
  fixes synth :: "SynthesisRequest \<Rightarrow> 'b \<Rightarrow> SynthesisResult outcome \<times> 'b" and ok :: "'b \<Rightarrow> bool"
    and fine :: "SynthesisRequest \<Rightarrow> bool"
  assumes ok_synth: "ok b \<Longrightarrow> ok (snd (synth r b))"
    and ok_defined: "ok b \<Longrightarrow> fst (synth r b) = Undefined \<longleftrightarrow> \<not> fine r"
begin

lemma worker_progress:
  assumes "ok (pool_backend p)" and "worker p = Exited \<longrightarrow> queue p = []" and "\<not> quiet p"
    and "\<And>job. worker p = Running job \<Longrightarrow> fine (job_request job)"
  shows "\<exists>act p'. worker_step synth now p = Some (act, p') \<and> worker_rank p' < worker_rank p
     \<and> ok (pool_backend p') \<and> accepting p' = accepting p"
proof (cases "worker p")
  case Waiting
  with assms show ?thesis
    by (cases "queue p") (auto simp: worker_step_def worker_rank_def quiet_def)
next
  case (In_Hand job)
  with assms show ?thesis by (auto simp: worker_step_def worker_rank_def)
next
  case (Running job)
  obtain o' b' where s: "synth (job_request job) (pool_backend p) = (o', b')"
    by (cases "synth (job_request job) (pool_backend p)")
  then have "ok b'" "o' \<noteq> Undefined"
    using ok_synth [OF assms(1), of "job_request job"] ok_defined [OF assms(1), of "job_request job"]
      assms(4) [OF Running] by auto
  with s Running show ?thesis by (cases o') (auto simp: worker_step_def worker_rank_def)
next
  case (Synthesized job r)
  with assms show ?thesis by (auto simp: worker_step_def worker_rank_def)
next
  case Exited
  with assms show ?thesis by (simp add: quiet_def)
qed

text \<open>It has no step while it runs a job that is not.\<close>

lemma worker_stuck:
  assumes "ok (pool_backend p)" and "worker p = Running job" and "\<not> fine (job_request job)"
  shows "worker_step synth now p = None"
  using assms ok_defined [OF assms(1), of "job_request job"]
  by (cases "synth (job_request job) (pool_backend p)") (simp add: worker_step_def)

lemma reachable_ok:
  assumes "reachable synth p0 s" and "ok (pool_backend p0)"
  shows "ok (pool_backend (fst s))"
  using assms
proof (induction rule: reachable.induct)
  case (Step s s')
  from Step.hyps(2) have "ok (pool_backend (fst s')) \<or> \<not> ok (pool_backend (fst s))"
  proof cases
    case (Submit now job p good p' h)
    then show ?thesis by (auto simp: submit_def Let_def split: if_splits)
  next
    case (Work now p act p' h)
    have "ok (pool_backend p) \<Longrightarrow> ok (pool_backend p')"
      using Work(3) ok_synth
      by (auto simp: worker_step_def split: worker.splits if_splits list.splits outcome.splits
          prod.splits dest!: arg_cong [where f = snd])
    with Work show ?thesis by auto
  qed (auto simp: stop_accepting_def)
  with Step show ?case by auto
qed simp

lemma run_quiet:
  assumes "pool_inv depth (p, h)" and "ok (pool_backend p)" and "worker_rank p \<le> n"
    and "\<forall>job \<in> set (open_jobs p). fine (job_request job)"
  shows "\<exists>p' h'. worker_run synth clock n (p, h) = (p', h') \<and> quiet p' \<and> pool_inv depth (p', h')
     \<and> accepting p' = accepting p \<and> accepted_jobs h' = accepted_jobs h"
  using assms
proof (induction n arbitrary: p h)
  case 0
  then have "quiet p"
    by (cases "worker p") (auto simp: quiet_def worker_rank_def)
  with 0 show ?case by simp
next
  case (Suc n)
  have ex: "worker p = Exited \<longrightarrow> queue p = []" using Suc.prems(1) by (simp add: pool_inv_defs)
  show ?case
  proof (cases "quiet p")
    case True
    then have "worker_step synth (clock n) p = None"
      by (cases "worker p") (auto simp: quiet_def worker_step_def)
    with True Suc.prems show ?thesis by simp
  next
    case False
    have "fine (job_request job)" if "worker p = Running job" for job
      using that Suc.prems(4) by (simp add: open_jobs_def)
    from worker_progress [OF Suc.prems(2) ex False this, of "clock n"]
    obtain act p' where st: "worker_step synth (clock n) p = Some (act, p')"
      and r: "worker_rank p' < worker_rank p" and ok': "ok (pool_backend p')" "accepting p' = accepting p"
      by blast
    have "pool_inv depth (p', log_action (clock n) act h)"
      using Suc.prems(1) st by (rule worker_inv)
    moreover have "worker_rank p' \<le> n" using r Suc.prems(3) by simp
    moreover have "\<forall>job \<in> set (open_jobs p'). fine (job_request job)"
      using worker_open_jobs [OF st] Suc.prems(4) by blast
    ultimately show ?thesis using Suc.IH [of p' "log_action (clock n) act h"] ok' st by simp
  qed
qed

lemma all_answered:
  assumes "reachable synth p0 (p, h)" and "new_InferencePool (Some b) depth timeout = Inr p0"
    and "ok b" and "depth \<le> INT_MAX" and "\<forall>job \<in> set (open_jobs p). fine (job_request job)"
  shows "\<exists>p' h'. worker_run synth clock (worker_rank p) (p, h) = (p', h')
     \<and> accepted_jobs h' = accepted_jobs h \<and> answered h' = accepted_jobs h
     \<and> (if accepting p then worker p' = Waiting else shutdown_returns p')"
proof -
  have "ok (pool_backend p0)" using assms(2,3) by (auto simp: new_InferencePool_def split: if_splits)
  then have ok': "ok (pool_backend p)" using reachable_ok [OF assms(1)] by simp
  have inv: "pool_inv depth (p, h)" by (rule reachable_inv [OF assms(1,2,4)])
  obtain p' h' where run: "worker_run synth clock (worker_rank p) (p, h) = (p', h')"
    and q: "quiet p'" and inv': "pool_inv depth (p', h')"
    and same: "accepting p' = accepting p" "accepted_jobs h' = accepted_jobs h"
    using run_quiet [OF inv ok' order_refl assms(5), of clock] by blast
  have "answered h' = accepted_jobs h'" using q inv' by (simp add: quiet_def pool_inv_defs)
  moreover have "if accepting p then worker p' = Waiting else shutdown_returns p'"
    using q inv' same by (cases "worker p'") (auto simp: quiet_def pool_inv_defs shutdown_returns_def)
  ultimately show ?thesis using run same by auto
qed

end

interpretation mock_pool: total_backend mock_synthesize "\<lambda>b. True" "\<lambda>req. True"
  by unfold_locales (auto simp: mock_synthesize_def Let_def)

text \<open>The engine adapter is the one that was handed to the pool; the calls leave it as it is.\<close>

definition voxtral_is :: "'ctx VoxtralBackend \<Rightarrow> 'ctx VoxtralBackend \<Rightarrow> bool" where
  "voxtral_is b b' \<longleftrightarrow> b' = b \<and> voxtral_inv b"

interpretation voxtral_pool: total_backend
    "\<lambda>req. voxtral_synth_call eng (fl, t0, t1, req)" "voxtral_is b" "\<lambda>req. \<not> overruns eng b req"
  for eng fl t0 t1 b
  by unfold_locales (auto simp: voxtral_is_def voxtral_defined, simp add: voxtral_synth_call_def)

subsection \<open>What the results are like\<close>

text \<open>A total backend all of whose results are good.\<close>

locale quality_backend = total_backend +
  fixes good :: "SynthesisResult \<Rightarrow> bool"
  assumes good_result: "ok b \<Longrightarrow> fst (synth r b) = Returns res \<Longrightarrow> good res"
begin

definition results_good :: "'b InferencePool \<times> history \<Rightarrow> bool" where
  "results_good s \<longleftrightarrow> (\<forall>job r. worker (fst s) = Synthesized job r \<longrightarrow> good r)
     \<and> list_all (\<lambda>e. case fst (snd e) of Succeeded r \<Rightarrow> good r | Failed _ \<Rightarrow> True) (answers (snd s))"

lemma work_good:
  assumes "worker_step synth now p = Some (act, p')" and "ok (pool_backend p)" and "results_good (p, h)"
  shows "ok (pool_backend p') \<and> results_good (p', log_action now act h)"
proof (cases "worker p")
  case Waiting
  with assms show ?thesis
    by (auto simp: worker_step_def results_good_def log_action_def split: if_splits list.splits)
next
  case (In_Hand job)
  with assms show ?thesis
    by (auto simp: worker_step_def results_good_def log_action_def split: if_splits)
next
  case (Running job)
  obtain o' b' where s: "synth (job_request job) (pool_backend p) = (o', b')"
    by (cases "synth (job_request job) (pool_backend p)")
  then have "ok b'" using ok_synth [OF assms(2), of "job_request job"] by simp
  moreover have "\<And>res. o' = Returns res \<Longrightarrow> good res"
    using good_result [OF assms(2), of "job_request job"] s by simp
  ultimately show ?thesis using assms Running s
    by (cases o') (auto simp: worker_step_def results_good_def log_action_def)
next
  case (Synthesized job r)
  with assms show ?thesis
    by (auto simp: worker_step_def results_good_def log_action_def split: if_splits)
next
  case Exited
  with assms show ?thesis by (simp add: worker_step_def)
qed

lemma run_good:
  "ok (pool_backend (fst s)) \<Longrightarrow> results_good s \<Longrightarrow> results_good (worker_run synth clock n s)"
proof (induction n arbitrary: s)
  case (Suc n)
  obtain p h where s: "s = (p, h)" by (cases s)
  show ?case
  proof (cases "worker_step synth (clock n) p")
    case None
    with Suc.prems s show ?thesis by simp
  next
    case (Some ap)
    obtain act p' where ap: "ap = (act, p')" by (cases ap)
    from work_good [of "clock n" p act p' h] Suc.prems Some ap s
    have "ok (pool_backend p')" "results_good (p', log_action (clock n) act h)" by simp_all
    with Suc.IH [of "(p', log_action (clock n) act h)"] Some ap s show ?thesis by simp
  qed
qed simp

lemma reachable_good:
  assumes "reachable synth p0 s" and "ok (pool_backend p0)" and "worker p0 = Waiting"
  shows "results_good s"
  using assms
proof (induction rule: reachable.induct)
  case Start
  then show ?case by (simp add: results_good_def no_history_def)
next
  case (Step s s')
  have ok: "ok (pool_backend (fst s))" using reachable_ok [OF Step.hyps(1) Step.prems(1)] .
  have good: "results_good s" using Step by blast
  from Step.hyps(2) show ?case
  proof cases
    case (Submit now job p a p' h)
    with good show ?thesis
      by (auto simp: submit_def Let_def results_good_def log_submit_def split: if_splits)
  next
    case (Shutdown p h)
    with good show ?thesis by (simp add: stop_accepting_def results_good_def)
  next
    case (Work now p act p' h)
    with work_good ok good show ?thesis by auto
  qed
qed

end

interpretation voxtral_quality: quality_backend
    "\<lambda>req. voxtral_synth_call eng (fl, t0, t1, req)" "voxtral_is b" "\<lambda>req. \<not> overruns eng b req" well_formed_result
  for eng fl t0 t1 b
proof
  fix b' :: "'a VoxtralBackend" and r res
  assume ok: "voxtral_is b b'" and res: "fst (voxtral_synth_call eng (fl, t0, t1, r) b') = Returns res"
  then have "vb_initialized b'"
    by (auto simp: voxtral_synth_call_def voxtral_synthesize_def split: if_splits)
  with ok voxtral_outcome [of b' eng r fl t0 t1] res show "well_formed_result res"
    by (auto simp: voxtral_synth_call_def voxtral_is_def split: if_splits)
qed

subsection \<open>An example history\<close>

definition demo_pool :: "'b \<Rightarrow> 'b InferencePool" where
  "demo_pool b = \<lparr>pool_backend = b, max_depth = 2, timeout_seconds = 30, queue = [],
     accepting = True, active = 0, expired = 0, worker = Waiting\<rparr>"

definition demo_job :: InferenceJob where
  "demo_job = \<lparr>job_request = default_SynthesisRequest, job_deadline = 0, has_on_success = True,
     has_on_error = True, job_owner = 0\<rparr>"

definition demo_stamped :: InferenceJob where
  "demo_stamped = demo_job\<lparr>job_deadline := 30000000005\<rparr>"

definition demo_history :: history where
  "demo_history = \<lparr>accepted_jobs = [demo_stamped], entered_jobs = [], answers = []\<rparr>"

lemma demo_new: "new_InferencePool (Some b) 2 30 = Inr (demo_pool b)"
  by (simp add: new_InferencePool_def demo_pool_def)

lemma demo_queued:
  "reachable synth (demo_pool b) ((demo_pool b)\<lparr>queue := [demo_stamped]\<rparr>, demo_history)"
proof -
  have sub: "submit 5 demo_job (demo_pool b) = (True, (demo_pool b)\<lparr>queue := [demo_stamped]\<rparr>)"
    and h: "log_submit True (stamp (timeout_seconds (demo_pool b)) 5 demo_job) no_history = demo_history"
    by (simp_all add: submit_def demo_pool_def demo_job_def stamp_def demo_stamped_def size_to_int_def
        log_submit_def no_history_def demo_history_def ns_per_sec_def)
  from pool_step.Submit [OF sub, of synth no_history] show ?thesis
    unfolding h by (rule reachable.Step [OF reachable.Start])
qed

lemma demo_taken:
  "reachable synth (demo_pool b) ((demo_pool b)\<lparr>worker := In_Hand demo_stamped\<rparr>, demo_history)"
proof -
  have st: "worker_step synth 6 ((demo_pool b)\<lparr>queue := [demo_stamped]\<rparr>)
      = Some (Took demo_stamped, (demo_pool b)\<lparr>worker := In_Hand demo_stamped\<rparr>)"
    by (simp add: worker_step_def demo_pool_def)
  from pool_step.Work [OF st, of demo_history] show ?thesis
    by (intro reachable.Step [OF demo_queued]) (simp add: log_action_def)
qed

subsection \<open>Properties\<close>

text \<open>C10. In every interleaving of submissions, shutdowns and worker steps, no accepted job is lost,
  answered twice or overtaken: the jobs accepted so far are, in order, those answered, the one
  the worker holds, and those queued; once \<^verbatim>\<open>shutdown\<close> can return, every accepted job has had
  its answer.\<close>

theorem jobs_answered_once_in_order:
  assumes "reachable synth p0 (p, h)" and "new_InferencePool (Some b) depth timeout = Inr p0"
    and "depth \<le> INT_MAX"
  shows "accepted_jobs h = map fst (answers h) @ in_hand (worker p) @ queue p
    \<and> (shutdown_returns p \<longrightarrow> map fst (answers h) = accepted_jobs h)"
  using reachable_inv [OF assms]
  by (auto simp: pool_inv_defs answered_def shutdown_returns_def)

theorem jobs_answered_once_in_order_witness:
  "accepted_jobs demo_history = map fst (answers demo_history) @ in_hand (In_Hand demo_stamped) @ []"
  using jobs_answered_once_in_order [OF demo_taken [of mock_synthesize new_MockBackend] demo_new]
  by (simp add: INT_MAX_def demo_pool_def)

text \<open>C12. Bounds: at every moment at most \<^verbatim>\<open>max_queue_depth\<close> jobs wait, at most one is active, and
  exactly when the worker is between the start of an inference and its answer; the expired
  counter is the number of answers that reported a timeout in the queue.\<close>

theorem pool_stays_bounded:
  assumes "reachable synth p0 (p, h)" and "new_InferencePool (Some b) depth timeout = Inr p0"
    and "depth \<le> INT_MAX"
  shows "0 \<le> queue_depth p \<and> queue_depth p \<le> depth
    \<and> active_jobs p = (if in_service (worker p) = [] then 0 else 1)
    \<and> expired_jobs p = int (length (filter (\<lambda>(job, a, t). a = Failed timed_out_in_queue) (answers h)))"
proof -
  have inv: "pool_inv depth (p, h)" by (rule reachable_inv [OF assms])
  then have "int (length (queue p)) \<le> depth" by (simp add: pool_inv_defs)
  then have "queue_depth p = int (length (queue p))"
    using assms(3) unfolding queue_depth_def by (intro size_to_int_small) (simp add: INT_MAX_def)
  moreover have "skipped = (\<lambda>(job, a, t). a = Failed timed_out_in_queue)"
    by (auto simp: skipped_def fun_eq_iff)
  ultimately show ?thesis using inv
    by (cases "worker p") (auto simp: pool_inv_defs active_jobs_def expired_jobs_def)
qed

theorem pool_stays_bounded_witness:
  "queue_depth ((demo_pool new_MockBackend)\<lparr>queue := [demo_stamped]\<rparr>) \<le> 2
   \<and> active_jobs ((demo_pool new_MockBackend)\<lparr>queue := [demo_stamped]\<rparr>) = 0"
  using pool_stays_bounded [OF demo_queued [of mock_synthesize new_MockBackend] demo_new]
  by (simp add: INT_MAX_def demo_pool_def)

text \<open>C13. Deadlines: a success is only ever delivered before the deadline of its job, a timeout is
  only reported after it, every other failure is an inference error with its prefix; and a job
  whose wait in the queue is reported as timed out was never given to the backend, while every
  other answered job was, in the order of the queue.\<close>

theorem deadlines_respected:
  assumes "reachable synth p0 (p, h)" and "new_InferencePool (Some b) depth timeout = Inr p0"
    and "depth \<le> INT_MAX"
  shows "list_all answer_ok (answers h)
    \<and> entered_jobs h = map fst (filter (\<lambda>(job, a, t). a \<noteq> Failed timed_out_in_queue) (answers h))
        @ in_service (worker p)"
proof -
  have "(\<lambda>e. \<not> skipped e) = (\<lambda>(job, a, t). a \<noteq> Failed timed_out_in_queue)"
    by (auto simp: skipped_def fun_eq_iff)
  then show ?thesis using reachable_inv [OF assms] by (simp add: pool_inv_defs)
qed

theorem deadlines_respected_witness:
  "list_all answer_ok (answers demo_history)"
  using deadlines_respected [OF demo_taken [of mock_synthesize new_MockBackend] demo_new]
  by (simp add: INT_MAX_def)

text \<open>After a shutdown began nothing is accepted any more, whatever calls and worker steps
  follow.\<close>

theorem shutdown_stops_intake:
  assumes "(pool_step synth)\<^sup>*\<^sup>* (stop_accepting p, h) (p', h')"
  shows "\<not> is_accepting p' \<and> accepted_jobs h' = accepted_jobs h"
proof -
  have "\<not> accepting (fst s') \<and> accepted_jobs (snd s') = accepted_jobs h"
    if "(pool_step synth)\<^sup>*\<^sup>* (stop_accepting p, h) s'" for s'
    using that
  proof (induction rule: rtranclp_induct)
    case base
    then show ?case by (simp add: stop_accepting_def)
  next
    case (step s s')
    then show ?case using stopped_step [OF step.hyps(2)] by simp
  qed
  from this [OF assms] show ?thesis by (simp add: is_accepting_def)
qed

theorem shutdown_stops_intake_witness:
  "\<not> is_accepting (stop_accepting (demo_pool new_MockBackend))"
  using shutdown_stops_intake [of mock_synthesize "demo_pool new_MockBackend" demo_history] by blast

end
