(* ===== verification/RequestId.thy ===== *)
theory RequestId
  imports Prelude
begin

text \<open>
  Request ids: \<^verbatim>\<open>generate_request_id\<close> of \<^verbatim>\<open>src/server/request_handler.cpp\<close>, with the bit
  operations on 32-bit words and the hexadecimal output of \<^verbatim>\<open>snprintf\<close>.
\<close>

unbundle bit_operations_syntax

subsection \<open>Generation\<close>

definition hex_digit :: "nat \<Rightarrow> char" where
  "hex_digit d = (if d < 10 then char_of (48 + d) else char_of (87 + d))"

text \<open>The \<open>k\<close> hexadecimal digits \<^verbatim>\<open>%0<k>x\<close> prints of a value of at most \<open>k\<close> digits.\<close>

primrec hex_pad :: "nat \<Rightarrow> nat \<Rightarrow> string" where
  "hex_pad 0 n = []"
| "hex_pad (Suc k) n = hex_pad k (n div 16) @ [hex_digit (n mod 16)]"

text \<open>The arguments are the four draws from the random generator.\<close>

definition generate_request_id :: "u32 \<Rightarrow> u32 \<Rightarrow> u32 \<Rightarrow> u32 \<Rightarrow> string" where
  "generate_request_id a b c d =
     (let b = (b AND 0xFFFF0FFF) OR 0x00004000;
          c = (c AND 0x3FFFFFFF) OR 0x80000000
      in hex_pad 8 (unat a) @ ''-'' @ hex_pad 4 (unat (drop_bit 16 b AND 0xFFFF)) @ ''-''
         @ hex_pad 4 (unat (b AND 0xFFFF)) @ ''-'' @ hex_pad 4 (unat (drop_bit 16 c AND 0xFFFF)) @ ''-''
         @ hex_pad 4 (unat (c AND 0xFFFF)) @ hex_pad 8 (unat d))"

subsection \<open>Lemmas: bits\<close>

lemma bit_index_cases:
  fixes n :: nat
  assumes "n < 32"
  shows "n \<in> {0, 1, 2, 3, 4, 5, 6, 7, 8, 9, 10, 11, 12, 13, 14, 15, 16, 17, 18, 19, 20, 21, 22, 23,
    24, 25, 26, 27, 28, 29, 30, 31}"
proof -
  have "n \<in> set [0..<32]" using assms by simp
  also have "[0..<32] = [0, 1, 2, 3, 4, 5, 6, 7, 8, 9, 10, 11, 12, 13, 14, 15, 16, 17, 18, 19, 20,
      21, 22, 23, 24, 25, 26, 27, 28, 29, 30, 31]" by code_simp
  finally show ?thesis by simp
qed

lemma version_nibble:
  "drop_bit 12 (((b AND 0xFFFF0FFF) OR 0x00004000) AND 0xFFFF) = (4 :: u32)"
proof (rule bit_word_eqI)
  fix n :: nat assume "n < LENGTH(32)"
  then have "n < 32" by simp
  from bit_index_cases [OF this]
  show "bit (drop_bit 12 (((b AND 0xFFFF0FFF) OR 0x00004000) AND 0xFFFF) :: u32) n = bit (4 :: u32) n"
    by (elim insertE emptyE) (simp_all add: bit_simps)
qed

lemma variant_bits:
  "drop_bit 14 (drop_bit 16 ((c AND 0x3FFFFFFF) OR 0x80000000) AND 0xFFFF) = (2 :: u32)"
proof (rule bit_word_eqI)
  fix n :: nat assume "n < LENGTH(32)"
  then have "n < 32" by simp
  from bit_index_cases [OF this]
  show "bit (drop_bit 14 (drop_bit 16 ((c AND 0x3FFFFFFF) OR 0x80000000) AND 0xFFFF) :: u32) n = bit (2 :: u32) n"
    by (elim insertE emptyE) (simp_all add: bit_simps)
qed

lemma halves_eq_iff:
  "drop_bit 16 x AND 0xFFFF = drop_bit 16 y AND 0xFFFF \<and> x AND 0xFFFF = y AND 0xFFFF \<longleftrightarrow> x = y"
  for x y :: u32
proof
  assume e: "drop_bit 16 x AND 0xFFFF = drop_bit 16 y AND 0xFFFF \<and> x AND 0xFFFF = y AND 0xFFFF"
  have m: "(0xFFFF :: u32) = mask 16" by (simp add: mask_eq_exp_minus_1)
  show "x = y"
  proof (rule bit_word_eqI)
    fix n :: nat assume n: "n < LENGTH(32)"
    show "bit x n = bit y n"
    proof (cases "n < 16")
      case True
      from e have "bit (x AND 0xFFFF) n = bit (y AND 0xFFFF) n" by simp
      with True n show ?thesis unfolding m by (simp add: bit_simps)
    next
      case False
      from e have "bit (drop_bit 16 x AND 0xFFFF) (n - 16) = bit (drop_bit 16 y AND 0xFFFF) (n - 16)" by simp
      moreover have "n - 16 < 16" using n by simp
      ultimately show ?thesis using False n unfolding m by (simp add: bit_simps)
    qed
  qed
qed simp

lemma masked_eq_iff:
  "(x AND 0xFFFF0FFF) OR 0x00004000 = (y AND 0xFFFF0FFF) OR 0x00004000
     \<longleftrightarrow> x AND 0xFFFF0FFF = y AND 0xFFFF0FFF"
  "(x AND 0x3FFFFFFF) OR 0x80000000 = (y AND 0x3FFFFFFF) OR 0x80000000
     \<longleftrightarrow> x AND 0x3FFFFFFF = y AND 0x3FFFFFFF"
  for x y :: u32
proof -
  have a: "((z AND 0xFFFF0FFF) OR 0x00004000) AND 0xFFFF0FFF = z AND 0xFFFF0FFF" for z :: u32
    by (simp add: bit.conj_disj_distrib2 and.assoc)
  have b: "((z AND 0x3FFFFFFF) OR 0x80000000) AND 0x3FFFFFFF = z AND 0x3FFFFFFF" for z :: u32
    by (simp add: bit.conj_disj_distrib2 and.assoc)
  show "(x AND 0xFFFF0FFF) OR 0x00004000 = (y AND 0xFFFF0FFF) OR 0x00004000
     \<longleftrightarrow> x AND 0xFFFF0FFF = y AND 0xFFFF0FFF" by (metis a)
  show "(x AND 0x3FFFFFFF) OR 0x80000000 = (y AND 0x3FFFFFFF) OR 0x80000000
     \<longleftrightarrow> x AND 0x3FFFFFFF = y AND 0x3FFFFFFF" by (metis b)
qed

subsection \<open>Lemmas: hexadecimal output\<close>

lemma length_hex_pad [simp]: "length (hex_pad k n) = k"
  by (induction k arbitrary: n) auto

lemma hex_digit_value: "d < 16 \<Longrightarrow> (of_char (hex_digit d) :: nat) = (if d < 10 then 48 + d else 87 + d)"
  by (simp add: hex_digit_def)

lemma hex_digit_inject:
  assumes "a < 16" and "b < 16"
  shows "hex_digit a = hex_digit b \<longleftrightarrow> a = b"
proof
  assume "hex_digit a = hex_digit b"
  then have "(of_char (hex_digit a) :: nat) = of_char (hex_digit b)" by simp
  then show "a = b" unfolding hex_digit_value [OF assms(1)] hex_digit_value [OF assms(2)]
    using assms by (simp split: if_splits)
qed simp

lemma base16_eq_iff: "r < 16 \<Longrightarrow> s < 16 \<Longrightarrow> 16 * a + r = 16 * b + s \<longleftrightarrow> a = b \<and> r = s" for a :: nat
  by presburger

lemma hex_pad_inject: "hex_pad k n = hex_pad k m \<longleftrightarrow> n mod 16 ^ k = m mod 16 ^ k"
proof (induction k arbitrary: n m)
  case (Suc k)
  have split: "i mod 16 ^ Suc k = 16 * (i div 16 mod 16 ^ k) + i mod 16" for i :: nat
    by (simp add: mod_mult2_eq)
  have "n mod 16 < 16" "m mod 16 < 16" by simp_all
  then have "16 * (n div 16 mod 16 ^ k) + n mod 16 = 16 * (m div 16 mod 16 ^ k) + m mod 16
      \<longleftrightarrow> n div 16 mod 16 ^ k = m div 16 mod 16 ^ k \<and> n mod 16 = m mod 16"
    by (rule base16_eq_iff)
  with Suc show ?case by (simp only: hex_pad.simps append1_eq_conv split) (simp add: hex_digit_inject)
qed simp

lemma hex_pad_first: "hex_pad (Suc k) n = hex_digit (n div 16 ^ k mod 16) # hex_pad k n"
proof (induction k arbitrary: n)
  case (Suc k)
  have "hex_pad (Suc (Suc k)) n = hex_pad (Suc k) (n div 16) @ [hex_digit (n mod 16)]" by simp
  also have "\<dots> = hex_digit (n div 16 div 16 ^ k mod 16) # hex_pad (Suc k) n"
    by (subst Suc.IH) simp
  also have "n div 16 div 16 ^ k = n div 16 ^ Suc k" by (simp add: div_mult2_eq)
  finally show ?case .
qed simp

definition hex_digits :: string where
  "hex_digits = ''0123456789abcdef''"

lemma hex_digit_in: "d < 16 \<Longrightarrow> hex_digit d \<in> set hex_digits"
proof -
  have "list_all (\<lambda>d. hex_digit d \<in> set hex_digits) [0..<16]" by code_simp
  then show "d < 16 \<Longrightarrow> ?thesis" by (simp add: list_all_iff)
qed

lemma hex_pad_in: "set (hex_pad k n) \<subseteq> set hex_digits"
  by (induction k arbitrary: n) (auto simp: hex_digit_in)

lemma unat_shift: "unat (drop_bit n w) = unat w div 2 ^ n"
  unfolding unat_drop_bit_eq by (rule drop_bit_eq_div)

lemma top_nibble: "unat w div 16 ^ 3 = unat (drop_bit 12 w)"
  unfolding unat_shift by simp

lemma hex_digit_values:
  "hex_digit 4 = CHR ''4''" "hex_digit 8 = CHR ''8''" "hex_digit 9 = CHR ''9''"
  "hex_digit 10 = CHR ''a''" "hex_digit 11 = CHR ''b''"
  by code_simp+

lemma hex_pad_4: "hex_pad 4 (unat w) = hex_digit (unat (drop_bit 12 w) mod 16) # hex_pad 3 (unat w)"
proof -
  have "hex_pad (Suc 3) (unat w) = hex_digit (unat w div 16 ^ 3 mod 16) # hex_pad 3 (unat w)"
    by (rule hex_pad_first)
  moreover have "Suc 3 = 4" by simp
  ultimately show ?thesis by (simp only: top_nibble)
qed

lemma version_digit:
  "hex_pad 4 (unat (((b AND 0xFFFF0FFF) OR 0x00004000) AND 0xFFFF :: u32))
     = CHR ''4'' # hex_pad 3 (unat (((b AND 0xFFFF0FFF) OR 0x00004000) AND 0xFFFF :: u32))"
proof -
  have "unat (4 :: u32) mod 16 = 4" by simp
  then show ?thesis by (simp only: hex_pad_4 version_nibble hex_digit_values)
qed

lemma variant_digit:
  "\<exists>v \<in> set ''89ab''. hex_pad 4 (unat (drop_bit 16 ((c AND 0x3FFFFFFF) OR 0x80000000) AND 0xFFFF :: u32))
     = v # hex_pad 3 (unat (drop_bit 16 ((c AND 0x3FFFFFFF) OR 0x80000000) AND 0xFFFF :: u32))"
proof -
  define w where "w = (drop_bit 16 ((c AND 0x3FFFFFFF) OR 0x80000000) AND 0xFFFF :: u32)"
  have "unat (drop_bit 14 w) = 2" unfolding w_def variant_bits by simp
  then have "unat w div 16384 = 2" unfolding unat_shift by simp
  then have "unat w div 4096 \<in> {8, 9, 10, 11}" by simp linarith
  moreover have "unat (drop_bit 12 w) = unat w div 4096" unfolding unat_shift by simp
  ultimately have "unat (drop_bit 12 w) mod 16 \<in> {8, 9, 10, 11}" by auto
  then have "hex_digit (unat (drop_bit 12 w) mod 16) \<in> set ''89ab''"
    by (elim insertE emptyE) (simp_all only: hex_digit_values list.set insert_iff simp_thms)
  then show ?thesis using hex_pad_4 [of w] unfolding w_def by (rule bexI [rotated])
qed

subsection \<open>Properties\<close>

text \<open>C39. Request ids are version 4 UUIDs: 36 characters, groups of 8, 4, 4, 4 and 12 lower case
  hexadecimal digits with dashes between them, the third group starting with the version 4 and
  the fourth with the variant 8, 9, a or b, whatever the random numbers are.\<close>

theorem request_id_is_uuid_v4:
  "\<exists>g1 g2 g3 v g4 g5. generate_request_id a b c d
       = g1 @ ''-'' @ g2 @ ''-'' @ (CHR ''4'' # g3) @ ''-'' @ (v # g4) @ ''-'' @ g5
     \<and> map length [g1, g2, g3, g4, g5] = [8, 4, 3, 3, 12] \<and> v \<in> set ''89ab''
     \<and> set (g1 @ g2 @ g3 @ g4 @ g5) \<subseteq> set hex_digits"
proof -
  obtain v where v: "v \<in> set ''89ab''"
    and w: "hex_pad 4 (unat (drop_bit 16 ((c AND 0x3FFFFFFF) OR 0x80000000) AND 0xFFFF :: u32))
      = v # hex_pad 3 (unat (drop_bit 16 ((c AND 0x3FFFFFFF) OR 0x80000000) AND 0xFFFF :: u32))"
    using variant_digit [of c] by (elim bexE)
  let ?b = "(b AND 0xFFFF0FFF) OR 0x00004000" and ?c = "(c AND 0x3FFFFFFF) OR 0x80000000"
  have e: "generate_request_id a b c d = hex_pad 8 (unat a) @ ''-'' @ hex_pad 4 (unat (drop_bit 16 ?b AND 0xFFFF))
      @ ''-'' @ (CHR ''4'' # hex_pad 3 (unat (?b AND 0xFFFF))) @ ''-''
      @ (v # hex_pad 3 (unat (drop_bit 16 ?c AND 0xFFFF))) @ ''-''
      @ (hex_pad 4 (unat (?c AND 0xFFFF)) @ hex_pad 8 (unat d))"
    unfolding generate_request_id_def Let_def version_digit w by (simp only: append_assoc append_Cons append_Nil)
  have h: "set (hex_pad 8 (unat a) @ hex_pad 4 (unat (drop_bit 16 ?b AND 0xFFFF))
      @ hex_pad 3 (unat (?b AND 0xFFFF)) @ hex_pad 3 (unat (drop_bit 16 ?c AND 0xFFFF))
      @ (hex_pad 4 (unat (?c AND 0xFFFF)) @ hex_pad 8 (unat d))) \<subseteq> set hex_digits"
    by (simp only: set_append Un_subset_iff hex_pad_in simp_thms)
  have l: "map length [hex_pad 8 (unat a), hex_pad 4 (unat (drop_bit 16 ?b AND 0xFFFF)),
      hex_pad 3 (unat (?b AND 0xFFFF)), hex_pad 3 (unat (drop_bit 16 ?c AND 0xFFFF)),
      hex_pad 4 (unat (?c AND 0xFFFF)) @ hex_pad 8 (unat d)] = [8, 4, 3, 3, 12]"
    by simp
  show ?thesis by (intro exI conjI, rule e, rule l, rule v, rule h)
qed

text \<open>The id keeps every random bit outside the version and variant fields: two ids are equal
  exactly when the four draws agree on those 122 bits.\<close>

theorem request_ids_equal_iff:
  "generate_request_id a b c d = generate_request_id a' b' c' d'
     \<longleftrightarrow> a = a' \<and> b AND 0xFFFF0FFF = b' AND 0xFFFF0FFF \<and> c AND 0x3FFFFFFF = c' AND 0x3FFFFFFF \<and> d = d'"
proof -
  have w32: "hex_pad 8 (unat x) = hex_pad 8 (unat y) \<longleftrightarrow> x = y" for x y :: u32
  proof -
    have "unat z < 16 ^ 8" for z :: u32 using unsigned_less [of z, where 'a = nat] by simp
    then show ?thesis by (simp only: hex_pad_inject mod_less word_unat_eq_iff)
  qed
  have lo: "unat (x AND 0xFFFF) < 16 ^ 4" for x :: u32
  proof -
    have "(0xFFFF :: u32) = mask 16" by (simp add: mask_eq_exp_minus_1)
    then have "unat (x AND 0xFFFF) = unat x mod 2 ^ 16"
      by (simp only: flip: take_bit_eq_mask) (simp only: unsigned_take_bit_eq, simp add: take_bit_eq_mod)
    then show ?thesis by simp
  qed
  have w16: "hex_pad 4 (unat (x AND 0xFFFF)) = hex_pad 4 (unat (y AND 0xFFFF))
      \<longleftrightarrow> x AND 0xFFFF = y AND 0xFFFF" for x y :: u32
    using lo [of x] lo [of y] by (simp only: hex_pad_inject mod_less word_unat_eq_iff)
  have groups: "x1 @ ''-'' @ x2 @ ''-'' @ x3 @ ''-'' @ x4 @ ''-'' @ x5 @ x6
        = y1 @ ''-'' @ y2 @ ''-'' @ y3 @ ''-'' @ y4 @ ''-'' @ y5 @ y6
      \<longleftrightarrow> x1 = y1 \<and> (x2 = y2 \<and> x3 = y3) \<and> (x4 = y4 \<and> x5 = y5) \<and> x6 = y6"
    if "length x1 = length y1" "length x2 = length y2" "length x3 = length y3"
      "length x4 = length y4" "length x5 = length y5" for x1 x2 x3 x4 x5 x6 y1 y2 y3 y4 y5 y6 :: string
    using that by auto
  show ?thesis
    unfolding generate_request_id_def Let_def
    by (subst groups) (simp_all only: length_hex_pad w32 w16 halves_eq_iff masked_eq_iff)
qed

end
