(* ===== verification/Handlers.thy ===== *)
theory Handlers
  imports Auth Config Metrics Pool RequestId
begin

text \<open>
  The route handlers: \<^verbatim>\<open>src/server/request_handler.hpp\<close> and \<^verbatim>\<open>src/server/request_handler.cpp\<close>.
  The JSON library is a record of functions: parsing, the two typed \<^verbatim>\<open>value\<close> lookups, and
  \<^verbatim>\<open>dump\<close> on the documents the handlers build. A handler returns its response together with its
  calls on the metrics. \<^verbatim>\<open>handle_speech\<close> is split where another thread can act: the checks, the
  submission, and what follows the wait for the answer.
\<close>

subsection \<open>Requests, responses and dependencies\<close>

record HttpRequest =
  req_method :: string
  req_path :: string
  req_body :: string
  req_headers :: headers
  req_remote_addr :: string

definition header :: "HttpRequest \<Rightarrow> string \<Rightarrow> string" where
  "header req name = (case lookup (req_headers req) name of Some v \<Rightarrow> v | None \<Rightarrow> [])"

record HttpResponse =
  resp_status :: int
  resp_headers :: headers
  resp_body :: string
  binary_body :: bytes

definition new_HttpResponse :: HttpResponse where
  "new_HttpResponse = \<lparr>resp_status = 200, resp_headers = [], resp_body = [], binary_body = []\<rparr>"

definition is_binary :: "HttpResponse \<Rightarrow> bool" where
  "is_binary r \<longleftrightarrow> binary_body r \<noteq> []"

definition set_header :: "string \<Rightarrow> string \<Rightarrow> HttpResponse \<Rightarrow> HttpResponse" where
  "set_header name v r = r\<lparr>resp_headers := put name v (resp_headers r)\<rparr>"

text \<open>The documents the handlers build, and the library: \<open>Parse_Error\<close> is the exception the
  handler catches, \<open>Parse_Throws\<close> any other one; a lookup is \<open>None\<close> when it throws.\<close>

datatype json = JNull | JBool bool | JInt int | JString string | JArray "json list"
  | JObject "(string \<times> json) list"

datatype 'j parsed = Parsed 'j | Parse_Error | Parse_Throws

record 'j json_library =
  json_parse :: "string \<Rightarrow> 'j parsed"
  value_string :: "'j \<Rightarrow> string \<Rightarrow> string \<Rightarrow> string option"
  value_float :: "'j \<Rightarrow> string \<Rightarrow> cfloat \<Rightarrow> cfloat option"
  json_dump :: "json \<Rightarrow> string"

text \<open>The pointers of \<^verbatim>\<open>HandlerDeps\<close>; of the backend the handlers only ask whether it is ready.\<close>

record 'b HandlerDeps =
  deps_backend_ready :: "bool option"
  deps_voice_catalog :: "VoiceCatalog option"
  deps_pool :: "'b InferencePool option"
  deps_config :: "ServerConfig option"
  deps_start_time :: time_point

subsection \<open>Response helpers\<close>

definition apply_security_headers :: "HttpResponse \<Rightarrow> string \<Rightarrow> HttpResponse" where
  "apply_security_headers resp request_id =
     (let resp = set_header ''X-Content-Type-Options'' ''nosniff'' resp;
          resp = set_header ''Cache-Control'' ''no-store'' resp
      in set_header ''X-Request-Id'' request_id resp)"

definition json_response :: "'j json_library \<Rightarrow> int \<Rightarrow> json \<Rightarrow> HttpResponse" where
  "json_response lib status body =
     (set_header ''Content-Type'' ''application/json'' (new_HttpResponse\<lparr>resp_status := status\<rparr>))
       \<lparr>resp_body := json_dump lib body\<rparr>"

definition error_document :: "string \<Rightarrow> string \<Rightarrow> string \<Rightarrow> string \<Rightarrow> json" where
  "error_document error_type error_code message param =
     JObject [(''error'', JObject [(''message'', JString message), (''type'', JString error_type),
       (''param'', if param = [] then JNull else JString param), (''code'', JString error_code)])]"

definition make_error_response ::
  "'j json_library \<Rightarrow> int \<Rightarrow> string \<Rightarrow> string \<Rightarrow> string \<Rightarrow> string \<Rightarrow> HttpResponse" where
  "make_error_response lib status error_type error_code message param =
     json_response lib status (error_document error_type error_code message param)"

definition make_error_from_validation :: "'j json_library \<Rightarrow> ValidationResult \<Rightarrow> HttpResponse" where
  "make_error_from_validation lib v =
     make_error_response lib (val_status v) (val_type v) (val_code v) (val_message v) (val_param v)"

subsection \<open>Probes and voices\<close>

definition handle_health :: "'j json_library \<Rightarrow> string \<Rightarrow> time_point \<Rightarrow> 'b HandlerDeps \<Rightarrow> HttpResponse" where
  "handle_health lib version now deps =
     json_response lib 200 (JObject [(''status'', JString ''ok''), (''version'', JString version),
       (''uptime_seconds'', JInt (to_seconds (now - deps_start_time deps)))])"

definition handle_ready :: "'j json_library \<Rightarrow> 'b HandlerDeps \<Rightarrow> HttpResponse" where
  "handle_ready lib deps =
     (let model_loaded = (deps_backend_ready deps = Some True);
          pool_accepting = (case deps_pool deps of None \<Rightarrow> False | Some p \<Rightarrow> is_accepting p);
          ready = (model_loaded \<and> pool_accepting);
          q_depth = (case deps_pool deps of None \<Rightarrow> 0 | Some p \<Rightarrow> queue_depth p);
          q_capacity = (case deps_config deps of None \<Rightarrow> 0 | Some cfg \<Rightarrow> max_queue_depth cfg)
      in json_response lib (if ready then 200 else 503)
           (JObject [(''ready'', JBool ready), (''model_loaded'', JBool model_loaded),
              (''queue_depth'', JInt q_depth), (''queue_capacity'', JInt q_capacity)]))"

definition voice_document :: "Voice \<Rightarrow> json" where
  "voice_document v = JObject [(''id'', JString (voice_id v)), (''name'', JString (voice_name v)),
     (''language'', JString (voice_language v))]"

definition handle_voices :: "'j json_library \<Rightarrow> 'b HandlerDeps \<Rightarrow> HttpResponse" where
  "handle_voices lib deps =
     (let voices = (case deps_voice_catalog deps of
                      None \<Rightarrow> []
                    | Some catalog \<Rightarrow> map voice_document (all_voices catalog))
      in json_response lib 200 (JObject [(''voices'', JArray voices)]))"

text \<open>The argument is the text the registry serializes to.\<close>

definition handle_metrics :: "string \<Rightarrow> HttpResponse" where
  "handle_metrics serialized =
     (set_header ''Content-Type'' ''text/plain; version=0.0.4; charset=utf-8''
        (new_HttpResponse\<lparr>resp_status := 200\<rparr>))\<lparr>resp_body := serialized\<rparr>"

subsection \<open>Speech: the checks\<close>

text \<open>What a part of the handler comes to: a response, an exception that leaves the handler, or on.\<close>

datatype 'a progress = Responds HttpResponse | Escapes | Continues 'a

type_synonym 'a traced = "'a progress \<times> metric_call list"

definition refuse :: "'j json_library \<Rightarrow> int \<Rightarrow> ValidationResult \<Rightarrow> 'a traced" where
  "refuse lib counted v = (Responds (make_error_from_validation lib v), [Requests_Total counted])"

definition max_body_bytes :: nat where "max_body_bytes = 1048576"

definition speech_checks ::
  "'j json_library \<Rightarrow> HttpRequest \<Rightarrow> 'b HandlerDeps \<Rightarrow> SynthesisRequest traced" where
  "speech_checks lib req deps =
    (let ct_result = validate_content_type (header req ''content-type'') in
     if \<not> valid ct_result then refuse lib 400 ct_result else
     let sz_result = validate_body_size (length (req_body req)) max_body_bytes in
     if \<not> valid sz_result then refuse lib (val_status sz_result) sz_result else
     case json_parse lib (req_body req) of
       Parse_Throws \<Rightarrow> (Escapes, [])
     | Parse_Error \<Rightarrow>
         (Responds (make_error_response lib 400 ''invalid_request_error'' ''invalid_content_type''
            ''Invalid JSON in request body.'' []), [Requests_Total 400])
     | Parsed parsed \<Rightarrow>
     (case value_string lib parsed ''model'' [] of None \<Rightarrow> (Escapes, []) | Some model \<Rightarrow>
     let model_v = validate_model model in
     if \<not> valid model_v then refuse lib 400 model_v else
     (case value_string lib parsed ''input'' [] of None \<Rightarrow> (Escapes, []) | Some input \<Rightarrow>
     let max_chars = (case deps_config deps of Some cfg \<Rightarrow> max_input_chars cfg | None \<Rightarrow> 4096);
         input_v = validate_input input max_chars in
     if \<not> valid input_v then refuse lib 400 input_v else
     (case value_string lib parsed ''voice'' [] of None \<Rightarrow> (Escapes, []) | Some voice \<Rightarrow>
     let voice_v = (case deps_voice_catalog deps of
                      Some catalog \<Rightarrow> validate_voice voice catalog
                    | None \<Rightarrow> default_ValidationResult) in
     if \<not> valid voice_v then refuse lib 400 voice_v else
     (case value_string lib parsed ''response_format'' ''wav'' of None \<Rightarrow> (Escapes, []) | Some response_format \<Rightarrow>
     let fmt_v = validate_response_format response_format in
     if \<not> valid fmt_v then refuse lib 400 fmt_v else
     (case value_float lib parsed ''speed'' (Finite 1) of None \<Rightarrow> (Escapes, []) | Some speed \<Rightarrow>
     let spd_v = validate_speed speed in
     if \<not> valid spd_v then refuse lib 400 spd_v else
     (Continues \<lparr>sr_text = input, sr_voice = voice, sr_model = model,
        sr_response_format = response_format, sr_speed = speed\<rparr>, [])))))))"

subsection \<open>Speech: the submission\<close>

definition not_ready_response :: "'j json_library \<Rightarrow> HttpResponse" where
  "not_ready_response lib = make_error_response lib 503 ''server_error'' ''model_not_ready''
     ''The model is not ready to accept requests. Try again later.'' []"

definition queue_full_response :: "'j json_library \<Rightarrow> HttpResponse" where
  "queue_full_response lib = make_error_response lib 503 ''server_error'' ''queue_full''
     ''Server is at capacity. Please try again later.'' []"

text \<open>The job of a request: both callbacks are set, they capture the variables of this call, and the
  deadline is left to the pool.\<close>

definition speech_job :: "nat \<Rightarrow> SynthesisRequest \<Rightarrow> InferenceJob" where
  "speech_job owner request = \<lparr>job_request = request, job_deadline = 0, has_on_success = True,
     has_on_error = True, job_owner = owner\<rparr>"

text \<open>The calls on the metrics before the submission, the last one with the queue depth it reads, and
  after a submission that was refused.\<close>

definition counted_before :: "SynthesisRequest \<Rightarrow> int \<Rightarrow> metric_call list" where
  "counted_before request q_depth =
     [Input_Characters_Total (length (sr_text request)), Input_Characters (length (sr_text request)),
      Voice_Requests_Total (sr_voice request), Active_Jobs_Increment, Queue_Depth_Set q_depth]"

definition counted_refused :: "metric_call list" where
  "counted_refused = [Active_Jobs_Decrement, Requests_Total 503]"

lemmas counted_defs [simp] = counted_before_def counted_refused_def

text \<open>The pool as it is when its readiness is read, and when the job is submitted.\<close>

definition speech_submit ::
  "'j json_library \<Rightarrow> time_point \<Rightarrow> nat \<Rightarrow> 'b InferencePool option \<Rightarrow> 'b InferencePool
     \<Rightarrow> SynthesisRequest \<Rightarrow> 'b InferencePool traced" where
  "speech_submit lib now owner checked p request =
     (if (case checked of None \<Rightarrow> True | Some c \<Rightarrow> \<not> is_accepting c) then
        (Responds (not_ready_response lib), [Requests_Total 503])
      else
        let before = counted_before request (queue_depth p);
            (ok, p') = submit now (speech_job owner request) p
        in if \<not> ok then
             (Responds (queue_full_response lib), before @ counted_refused)
           else (Continues p', before @ [Queue_Depth_Set (queue_depth p')]))"

subsection \<open>Speech: after the wait\<close>

definition inference_failed_response :: "'j json_library \<Rightarrow> HttpResponse" where
  "inference_failed_response lib = make_error_response lib 500 ''server_error'' ''inference_failed''
     ''An error occurred during speech synthesis.'' []"

text \<open>The arguments are the clock at the start and at the end, the queue depth read after the wait,
  and the answer the callback stored.\<close>

definition speech_finish ::
  "'j json_library \<Rightarrow> time_point \<Rightarrow> time_point \<Rightarrow> int \<Rightarrow> answer \<Rightarrow> HttpResponse \<times> metric_call list" where
  "speech_finish lib synthesis_start synthesis_end q_depth a =
     (let synth_error = (case a of Failed err \<Rightarrow> err | Succeeded _ \<Rightarrow> []);
          synth_result = (case a of Succeeded r \<Rightarrow> r | Failed _ \<Rightarrow> default_SynthesisResult);
          after_wait = [Active_Jobs_Decrement, Queue_Depth_Set q_depth]
      in if synth_error \<noteq> [] then
           (inference_failed_response lib, after_wait @ [Errors_Total, Requests_Total 500])
         else
           (let resp = new_HttpResponse\<lparr>resp_status := 200\<rparr>;
                resp = set_header ''Content-Type'' ''audio/wav'' resp;
                resp = set_header ''Content-Length''
                         (nat_to_string (length (audio_data synth_result))) resp
            in resp\<lparr>binary_body := audio_data synth_result\<rparr>,
            after_wait @
              [Synthesis_Duration (elapsed_double synthesis_start synthesis_end),
               Inference_Duration (inference_time_seconds synth_result),
               Audio_Duration (duration_seconds synth_result),
               Audio_Bytes_Generated_Total (length (audio_data synth_result)),
               Requests_Total 200]))"

subsection \<open>Speech: the whole handler\<close>

text \<open>How the handler ends: with a response, by an exception, or not at all. The environment holds
  the clock readings, the pool as it is at the submission, and what the wait for the callback
  yields for the pool and job after it: the answer and the pool as it is then.\<close>

datatype reply = Reply HttpResponse | Exception | No_Answer

record 'b speech_env =
  env_start :: time_point
  env_submit :: time_point
  env_owner :: nat
  env_end :: time_point
  env_pool :: "'b InferencePool"
  env_wait :: "'b InferencePool \<Rightarrow> InferenceJob \<Rightarrow> (answer \<times> 'b InferencePool) option"

definition submitted_job :: "'b speech_env \<Rightarrow> SynthesisRequest \<Rightarrow> InferenceJob" where
  "submitted_job env request =
     stamp (timeout_seconds (env_pool env)) (env_submit env) (speech_job (env_owner env) request)"

text \<open>The third component is the pool as the handler leaves it: as it was when the checks end the
  handler, as it is at the submission when that is refused, and as it is after the wait otherwise.\<close>

definition handle_speech ::
  "'j json_library \<Rightarrow> 'b speech_env \<Rightarrow> HttpRequest \<Rightarrow> 'b HandlerDeps
     \<Rightarrow> reply \<times> metric_call list \<times> 'b InferencePool option" where
  "handle_speech lib env req deps =
     (case speech_checks lib req deps of
        (Responds r, m) \<Rightarrow> (Reply r, m, deps_pool deps)
      | (Escapes, m) \<Rightarrow> (Exception, m, deps_pool deps)
      | (Continues request, m) \<Rightarrow>
          (case speech_submit lib (env_submit env) (env_owner env) (deps_pool deps) (env_pool env) request of
             (Responds r, m2) \<Rightarrow> (Reply r, m @ m2, map_option (\<lambda>_. env_pool env) (deps_pool deps))
           | (Escapes, m2) \<Rightarrow> (Exception, m @ m2, map_option (\<lambda>_. env_pool env) (deps_pool deps))
           | (Continues p', m2) \<Rightarrow>
               (case env_wait env p' (submitted_job env request) of
                  None \<Rightarrow> (No_Answer, m @ m2, Some p')
                | Some (a, p'') \<Rightarrow>
                    let (r, m3) = speech_finish lib (env_start env) (env_end env) (queue_depth p'') a
                    in (Reply r, m @ m2 @ m3, Some p''))))"

subsection \<open>Lemmas: responses\<close>

lemma set_header_fields [simp, reply_simps]:
  "resp_status (set_header n v r) = resp_status r"
  "resp_body (set_header n v r) = resp_body r"
  "binary_body (set_header n v r) = binary_body r"
  "lookup (resp_headers (set_header n v r)) k = (if k = n then Some v else lookup (resp_headers r) k)"
  by (simp_all add: set_header_def update_conv)

lemma json_response_fields [reply_simps]:
  "resp_status (json_response lib status body) = status"
  "resp_body (json_response lib status body) = json_dump lib body"
  "binary_body (json_response lib status body) = []"
  "lookup (resp_headers (json_response lib status body)) k =
     (if k = ''Content-Type'' then Some ''application/json'' else None)"
  by (simp_all add: json_response_def new_HttpResponse_def)

lemma error_response_fields [reply_simps]:
  "resp_status (make_error_response lib status t c m prm) = status"
  "resp_body (make_error_response lib status t c m prm) = json_dump lib (error_document t c m prm)"
  "binary_body (make_error_response lib status t c m prm) = []"
  by (simp_all add: make_error_response_def reply_simps)

lemma validation_response_status [reply_simps]:
  "resp_status (make_error_from_validation lib v) = val_status v"
  by (simp add: make_error_from_validation_def reply_simps)

text \<open>A part of the handler that counts the status it responds with, once, and leaves the gauge of
  active jobs as it was.\<close>

definition counts_reply :: "'a traced \<Rightarrow> bool" where
  "counts_reply t = (case t of
     (Responds r, m) \<Rightarrow> counted_statuses m = [resp_status r] \<and> jobs_change m = 0
   | (Escapes, m) \<Rightarrow> m = []
   | (Continues _, m) \<Rightarrow> counted_statuses m = [])"

lemma refuse_counts:
  "val_status v = counted \<Longrightarrow> counts_reply (refuse lib counted v)"
  by (simp add: counts_reply_def refuse_def reply_simps)

lemma default_result_valid [simp]: "valid default_ValidationResult"
  by (simp add: default_ValidationResult_def)

lemma speech_checks_counts: "counts_reply (speech_checks lib req deps)"
  using content_type.refusal(1) model.refusal(1) input.refusal(1) voice.refusal(1)
    response_format.refusal(1) speed.refusal(1)
  unfolding speech_checks_def Let_def
  by (auto simp: refuse_counts split: parsed.split option.split)
    (auto simp: counts_reply_def reply_simps)

subsection \<open>Lemmas: which requests pass the checks\<close>

definition input_limit :: "'b HandlerDeps \<Rightarrow> int" where
  "input_limit deps = (case deps_config deps of Some cfg \<Rightarrow> max_input_chars cfg | None \<Rightarrow> 4096)"

definition known_voice :: "'b HandlerDeps \<Rightarrow> string \<Rightarrow> bool" where
  "known_voice deps voice = (case deps_voice_catalog deps of
     Some catalog \<Rightarrow> voice \<noteq> [] \<and> is_valid catalog voice | None \<Rightarrow> True)"

text \<open>The request a body stands for.\<close>

definition body_fields :: "'j json_library \<Rightarrow> 'j \<Rightarrow> SynthesisRequest \<Rightarrow> bool" where
  "body_fields lib parsed r \<longleftrightarrow>
     value_string lib parsed ''model'' [] = Some (sr_model r)
     \<and> value_string lib parsed ''input'' [] = Some (sr_text r)
     \<and> value_string lib parsed ''voice'' [] = Some (sr_voice r)
     \<and> value_string lib parsed ''response_format'' ''wav'' = Some (sr_response_format r)
     \<and> value_float lib parsed ''speed'' (Finite 1) = Some (sr_speed r)"

definition fields_ok :: "'b HandlerDeps \<Rightarrow> SynthesisRequest \<Rightarrow> bool" where
  "fields_ok deps r \<longleftrightarrow> sr_model r = ''voxtral-4b'' \<and> ok_input (input_limit deps) (sr_text r)
     \<and> known_voice deps (sr_voice r) \<and> sr_response_format r \<in> {[], ''wav''} \<and> ok_speed (sr_speed r)"

definition acceptable :: "'j json_library \<Rightarrow> HttpRequest \<Rightarrow> 'b HandlerDeps \<Rightarrow> SynthesisRequest \<Rightarrow> bool" where
  "acceptable lib req deps r \<longleftrightarrow>
     contains ''application/json'' (header req ''content-type'')
     \<and> length (req_body req) \<le> max_body_bytes
     \<and> (\<exists>parsed. json_parse lib (req_body req) = Parsed parsed \<and> body_fields lib parsed r)
     \<and> fields_ok deps r"

lemma voice_check: "valid (case deps_voice_catalog deps of
    Some catalog \<Rightarrow> validate_voice voice catalog | None \<Rightarrow> default_ValidationResult) \<longleftrightarrow> known_voice deps voice"
  by (simp add: known_voice_def voice.valid_iff split: option.split)

lemmas checks_valid = content_type.valid_iff body_size.valid_iff model.valid_iff input.valid_iff
  voice_check response_format.valid_iff speed.valid_iff

lemma refuse_not_continues [simp]: "refuse lib n v \<noteq> (Continues x, m)"
  by (simp add: refuse_def)

lemma speech_checks_passes:
  "speech_checks lib req deps = (Continues r, m) \<longleftrightarrow> m = [] \<and> acceptable lib req deps r"
proof -
  obtain t v mo f sp where r: "r = \<lparr>sr_text = t, sr_voice = v, sr_model = mo,
      sr_response_format = f, sr_speed = sp\<rparr>" by (cases r) auto
  show ?thesis
    unfolding speech_checks_def Let_def checks_valid r input_limit_def [symmetric]
    by (auto simp: acceptable_def body_fields_def fields_ok_def split: parsed.split option.split)
qed

lemma speech_submit_counts: "counts_reply (speech_submit lib now owner checked p request)"
  by (auto simp: speech_submit_def counts_reply_def Let_def not_ready_response_def
      queue_full_response_def reply_simps split: option.split prod.split)

lemma speech_submit_jobs:
  "speech_submit lib now owner checked p request = (t, m) \<Longrightarrow>
     jobs_change m = (case t of Continues _ \<Rightarrow> 1 | _ \<Rightarrow> 0)"
  by (auto simp: speech_submit_def Let_def split: if_splits prod.splits)

lemma speech_submit_escapes: "speech_submit lib now owner checked p request \<noteq> (Escapes, m)"
  by (auto simp: speech_submit_def Let_def split: prod.split)

lemma speech_finish_counts:
  "speech_finish lib t0 t1 q a = (r, m) \<Longrightarrow>
     counted_statuses m = [resp_status r] \<and> jobs_change m = - 1"
  by (auto simp: speech_finish_def Let_def inference_failed_response_def reply_simps
      new_HttpResponse_def split: if_splits)

lemma speech_finish_success:
  "speech_finish lib t0 t1 q (Succeeded res) = (r, m) \<Longrightarrow>
     resp_status r = 200 \<and> binary_body r = audio_data res
     \<and> lookup (resp_headers r) ''Content-Length'' = Some (nat_to_string (length (audio_data res)))
     \<and> lookup (resp_headers r) ''Content-Type'' = Some ''audio/wav''"
  by (auto simp: speech_finish_def Let_def new_HttpResponse_def)

lemma speech_finish_failure:
  "speech_finish lib t0 t1 q (Failed e) = (r, m) \<Longrightarrow> e \<noteq> [] \<Longrightarrow> resp_status r = 500"
  by (auto simp: speech_finish_def Let_def inference_failed_response_def reply_simps)

lemma handle_speech_metrics:
  assumes "handle_speech lib env req deps = (out, m, left)"
  shows "case out of
      Reply r \<Rightarrow> counted_statuses m = [resp_status r] \<and> jobs_change m = 0
    | Exception \<Rightarrow> m = []
    | No_Answer \<Rightarrow> counted_statuses m = [] \<and> jobs_change m = 1"
proof -
  obtain c m1 where c: "speech_checks lib req deps = (c, m1)" by (cases "speech_checks lib req deps")
  have c_ok: "counts_reply (c, m1)" using speech_checks_counts [of lib req deps] c by simp
  show ?thesis
  proof (cases c)
    case (Continues request)
    have m1: "m1 = []" using c Continues by (simp add: speech_checks_passes)
    obtain s m2 where s: "speech_submit lib (env_submit env) (env_owner env) (deps_pool deps) (env_pool env) request = (s, m2)"
      by (cases "speech_submit lib (env_submit env) (env_owner env) (deps_pool deps) (env_pool env) request")
    have s_ok: "counts_reply (s, m2)" "jobs_change m2 = (case s of Continues _ \<Rightarrow> 1 | _ \<Rightarrow> 0)" "s \<noteq> Escapes"
      using speech_submit_counts [of lib "env_submit env" "env_owner env" "deps_pool deps" "env_pool env" request]
        speech_submit_jobs [OF s] speech_submit_escapes [of lib "env_submit env" "env_owner env" "deps_pool deps" "env_pool env" request] s
      by auto
    show ?thesis
    proof (cases s)
      case (Continues p')
      show ?thesis
      proof (cases "env_wait env p' (submitted_job env request)")
        case None
        with assms c s \<open>c = Continues request\<close> Continues m1 s_ok show ?thesis
          by (simp add: handle_speech_def counts_reply_def)
      next
        case (Some aq)
        obtain a p2 where aq: "aq = (a, p2)" by (cases aq)
        obtain r m3 where f: "speech_finish lib (env_start env) (env_end env) (queue_depth p2) a = (r, m3)"
          by (cases "speech_finish lib (env_start env) (env_end env) (queue_depth p2) a")
        from assms c s \<open>c = Continues request\<close> Continues m1 Some aq f
        have "out = Reply r" "m = m2 @ m3" by (simp_all add: handle_speech_def)
        with speech_finish_counts [OF f] s_ok Continues show ?thesis
          by (simp add: counts_reply_def)
      qed
    qed (use assms c s \<open>c = Continues request\<close> m1 s_ok in
        \<open>auto simp: handle_speech_def counts_reply_def\<close>)
  qed (use assms c c_ok in \<open>auto simp: handle_speech_def counts_reply_def\<close>)
qed

lemma speech_checks_status:
  "speech_checks lib req deps = (Responds r, m) \<Longrightarrow> resp_status r \<in> {400, 413}"
  using content_type.refusal(1) body_size.refusal(1) model.refusal(1) input.refusal(1) voice.refusal(1)
    response_format.refusal(1) speed.refusal(1)
  unfolding speech_checks_def Let_def
  by (auto simp: refuse_def reply_simps split: if_splits parsed.splits option.splits)

lemma speech_submit_status:
  "speech_submit lib now owner checked p request = (Responds r, m) \<Longrightarrow> resp_status r = 503"
  by (auto simp: speech_submit_def Let_def not_ready_response_def queue_full_response_def reply_simps
      split: if_splits prod.splits)

text \<open>When the handler is left by an exception: the content type and the size are right, and the library
  throws something else than its parse error, or one of the five fields has a value of a wrong type.\<close>

definition throws_on :: "'j json_library \<Rightarrow> HttpRequest \<Rightarrow> bool" where
  "throws_on lib req \<longleftrightarrow> contains ''application/json'' (header req ''content-type'')
     \<and> length (req_body req) \<le> max_body_bytes
     \<and> (case json_parse lib (req_body req) of
          Parse_Throws \<Rightarrow> True
        | Parse_Error \<Rightarrow> False
        | Parsed parsed \<Rightarrow>
            value_string lib parsed ''model'' [] = None \<or> value_string lib parsed ''input'' [] = None
            \<or> value_string lib parsed ''voice'' [] = None
            \<or> value_string lib parsed ''response_format'' ''wav'' = None
            \<or> value_float lib parsed ''speed'' (Finite 1) = None)"

lemma speech_checks_escapes: "fst (speech_checks lib req deps) = Escapes \<Longrightarrow> throws_on lib req"
  unfolding speech_checks_def Let_def checks_valid throws_on_def
  by (auto simp: refuse_def split: if_splits parsed.splits option.splits)

lemma handle_speech_exception:
  "fst (handle_speech lib env req deps) = Exception \<longleftrightarrow> fst (speech_checks lib req deps) = Escapes"
  by (auto simp: handle_speech_def speech_submit_escapes Let_def split: prod.splits progress.splits option.splits)

text \<open>The handler neither makes nor loses the pool.\<close>

lemma handle_speech_pool:
  "handle_speech lib env req deps = (out, m, left) \<Longrightarrow> left = None \<longleftrightarrow> deps_pool deps = None"
  by (auto simp: handle_speech_def speech_submit_def Let_def split: prod.splits progress.splits option.splits if_splits)

text \<open>How a reply with status 200 came about.\<close>

lemma handle_speech_200:
  assumes "handle_speech lib env req deps = (Reply r, m, left)" and "resp_status r = 200"
    and "\<forall>p job a q. env_wait env p job = Some (a, q) \<longrightarrow> a \<noteq> Failed []"
  shows "\<exists>request p' res q. acceptable lib req deps request
     \<and> submit (env_submit env) (speech_job (env_owner env) request) (env_pool env) = (True, p')
     \<and> env_wait env p' (submitted_job env request) = Some (Succeeded res, q)
     \<and> binary_body r = audio_data res
     \<and> lookup (resp_headers r) ''Content-Type'' = Some ''audio/wav''
     \<and> lookup (resp_headers r) ''Content-Length'' = Some (nat_to_string (length (audio_data res)))"
proof -
  obtain c m1 where c: "speech_checks lib req deps = (c, m1)" by (cases "speech_checks lib req deps")
  have "\<not> (\<exists>x. c = Responds x)"
  proof
    assume "\<exists>x. c = Responds x"
    with c assms(1) have "speech_checks lib req deps = (Responds r, m1)"
      by (auto simp: handle_speech_def)
    from speech_checks_status [OF this] assms(2) show False by simp
  qed
  moreover have "c \<noteq> Escapes" using c assms(1) by (auto simp: handle_speech_def)
  ultimately obtain request where cc: "c = Continues request" by (cases c) auto
  have acc: "acceptable lib req deps request" using c cc by (simp add: speech_checks_passes)
  obtain s m2 where s: "speech_submit lib (env_submit env) (env_owner env) (deps_pool deps) (env_pool env) request = (s, m2)"
    by (cases "speech_submit lib (env_submit env) (env_owner env) (deps_pool deps) (env_pool env) request")
  have "\<not> (\<exists>x. s = Responds x)"
  proof
    assume "\<exists>x. s = Responds x"
    with c cc s assms(1) have "speech_submit lib (env_submit env) (env_owner env) (deps_pool deps) (env_pool env) request
        = (Responds r, m2)" by (auto simp: handle_speech_def)
    from speech_submit_status [OF this] assms(2) show False by simp
  qed
  moreover have "s \<noteq> Escapes" using s speech_submit_escapes by blast
  ultimately obtain p' where ss: "s = Continues p'" by (cases s) auto
  have sub: "submit (env_submit env) (speech_job (env_owner env) request) (env_pool env) = (True, p')"
    using s ss by (auto simp: speech_submit_def Let_def split: if_splits prod.splits)
  obtain a q m3 where w: "env_wait env p' (submitted_job env request) = Some (a, q)"
    and f: "speech_finish lib (env_start env) (env_end env) (queue_depth q) a = (r, m3)"
    using assms(1) c cc s ss by (auto simp: handle_speech_def split: option.splits prod.splits)
  have "a \<noteq> Failed []" using w assms(3) by blast
  with speech_finish_failure f assms(2) obtain res where res: "a = Succeeded res" by (cases a) fastforce+
  from speech_finish_success [OF f [unfolded res]] acc sub w res show ?thesis by blast
qed

subsection \<open>An example environment\<close>

definition example_request :: SynthesisRequest where
  "example_request = default_SynthesisRequest\<lparr>sr_text := ''hi'', sr_voice := ''v'', sr_model := ''voxtral-4b''\<rparr>"

text \<open>A library that reads every body as one document, given with its model field.\<close>

definition example_library :: "string option \<Rightarrow> SynthesisRequest json_library" where
  "example_library model = \<lparr>json_parse = (\<lambda>_. Parsed example_request),
     value_string = (\<lambda>r k d. if k = ''model'' then model else if k = ''input'' then Some (sr_text r)
        else if k = ''voice'' then Some (sr_voice r) else Some d),
     value_float = (\<lambda>r k d. Some d),
     json_dump = (\<lambda>_. ''{}'')\<rparr>"

definition example_deps :: "MockBackend HandlerDeps" where
  "example_deps = \<lparr>deps_backend_ready = Some True, deps_voice_catalog = None,
     deps_pool = Some (demo_pool new_MockBackend), deps_config = None, deps_start_time = 0\<rparr>"

definition example_http_request :: HttpRequest where
  "example_http_request = \<lparr>req_method = ''POST'', req_path = ''/v1/audio/speech'', req_body = ''{}'',
     req_headers = [(''content-type'', ''application/json'')], req_remote_addr = ''1.2.3.4''\<rparr>"

definition example_env :: "MockBackend speech_env" where
  "example_env = \<lparr>env_start = 0, env_submit = 1, env_owner = 0, env_end = 2, env_pool = demo_pool new_MockBackend,
     env_wait = (\<lambda>p job. Some (Succeeded (default_SynthesisResult\<lparr>audio_data := [1, 2]\<rparr>), demo_pool new_MockBackend))\<rparr>"

lemma example_acceptable:
  "acceptable (example_library (Some ''voxtral-4b'')) example_http_request example_deps example_request"
  by (simp add: acceptable_def example_library_def example_http_request_def example_deps_def
      example_request_def body_fields_def fields_ok_def header_def max_body_bytes_def
      default_SynthesisRequest_def known_voice_def input_limit_def ok_input_def ok_speed_def isspace_def
      size_to_int_def)

subsection \<open>Properties\<close>

text \<open>C14. Which speech requests get as far as the queue, exactly: the content type mentions JSON, the
  body is within 1 MiB and parses, its fields have the right types, the model is \<^verbatim>\<open>voxtral-4b\<close>,
  the input is not blank and within the limit, the voice is known, the format is empty or \<^verbatim>\<open>wav\<close>,
  and the speed is in 0.25..4; the request then carries those fields. Every response of the
  checks has status 400 or 413.\<close>

theorem speech_checks_exact:
  "(speech_checks lib req deps = (Continues r, m) \<longleftrightarrow> m = [] \<and> acceptable lib req deps r)
   \<and> (case speech_checks lib req deps of
        (Responds resp, m) \<Rightarrow> resp_status resp = 400 \<or> resp_status resp = 413
      | _ \<Rightarrow> True)"
  using speech_checks_passes speech_checks_status
  by (fastforce split: prod.split progress.split)

text \<open>The metrics of a speech request: whatever happens, a request that is answered is counted
  exactly once, under the status it is answered with, and the gauge of active jobs is back where
  it was; only a handler that never gets its answer leaves the gauge raised, and a handler left
  by an exception counts nothing at all.\<close>

theorem speech_counts_its_reply:
  "case handle_speech lib env req deps of
     (Reply r, m, _) \<Rightarrow> counted_statuses m = [resp_status r]
       \<and> fold record_metric m v (''opentts_active_jobs'', []) = v (''opentts_active_jobs'', [])
   | (Exception, m, _) \<Rightarrow> m = []
   | (No_Answer, m, _) \<Rightarrow> counted_statuses m = []
       \<and> fold record_metric m v (''opentts_active_jobs'', []) = v (''opentts_active_jobs'', []) + 1"
proof (cases "handle_speech lib env req deps")
  case (fields out m left)
  with handle_speech_metrics [OF this] show ?thesis
    by (cases out) (simp_all add: active_jobs_gauge)
qed

text \<open>A reply with status 200 is the backend's audio: it is given only for a request that passed
  every check and was accepted by the pool, whose callback was the success one, and its body and
  length are those of the audio. The callbacks' error texts are never empty, which the pool
  guarantees.\<close>

theorem speech_success_is_audio:
  assumes "handle_speech lib env req deps = (Reply r, m, left)" and "resp_status r = 200"
    and "\<forall>p job a q. env_wait env p job = Some (a, q) \<longrightarrow> a \<noteq> Failed []"
  shows "\<exists>request p' res q. acceptable lib req deps request
     \<and> submit (env_submit env) (speech_job (env_owner env) request) (env_pool env) = (True, p')
     \<and> env_wait env p' (submitted_job env request) = Some (Succeeded res, q)
     \<and> binary_body r = audio_data res
     \<and> lookup (resp_headers r) ''Content-Type'' = Some ''audio/wav''
     \<and> lookup (resp_headers r) ''Content-Length'' = Some (nat_to_string (length (audio_data res)))"
  using assms by (rule handle_speech_200)

lemma example_reply:
  "handle_speech (example_library (Some ''voxtral-4b'')) example_env example_http_request example_deps
     = (let (r, m3) = speech_finish (example_library (Some ''voxtral-4b'')) 0 2 0
              (Succeeded (default_SynthesisResult\<lparr>audio_data := [1, 2]\<rparr>))
        in (Reply r, snd (speech_submit (example_library (Some ''voxtral-4b'')) 1 0
              (Some (demo_pool new_MockBackend)) (demo_pool new_MockBackend) example_request) @ m3,
            Some (demo_pool new_MockBackend)))"
proof -
  have "speech_checks (example_library (Some ''voxtral-4b'')) example_http_request example_deps
      = (Continues example_request, [])"
    using example_acceptable by (simp add: speech_checks_passes)
  then show ?thesis
    by (simp add: handle_speech_def speech_submit_def example_env_def example_deps_def demo_pool_def
        is_accepting_def submit_def size_to_int_def queue_depth_def Let_def)
qed

theorem speech_success_is_audio_witness:
  "\<exists>r m left. handle_speech (example_library (Some ''voxtral-4b'')) example_env example_http_request example_deps
      = (Reply r, m, left) \<and> lookup (resp_headers r) ''Content-Type'' = Some ''audio/wav''"
proof -
  obtain r m left where e: "handle_speech (example_library (Some ''voxtral-4b'')) example_env
      example_http_request example_deps = (Reply r, m, left)" and s: "resp_status r = 200"
    unfolding example_reply by (simp add: speech_finish_def new_HttpResponse_def Let_def)
  have "\<forall>p job a q. env_wait example_env p job = Some (a, q) \<longrightarrow> a \<noteq> Failed []"
    by (simp add: example_env_def)
  from speech_success_is_audio [OF e s this] e show ?thesis by blast
qed

text \<open>A body whose \<^verbatim>\<open>model\<close> is not a string, or that is not an object, makes the library's
  lookup throw an exception the handler does not catch: there is no error response of the API's
  format and nothing is counted.\<close>

theorem wrong_type_escapes:
  assumes "contains ''application/json'' (header req ''content-type'')"
    and "length (req_body req) \<le> max_body_bytes"
    and "json_parse lib (req_body req) = Parsed parsed"
    and "value_string lib parsed ''model'' [] = None"
  shows "handle_speech lib env req deps = (Exception, [], deps_pool deps)"
proof -
  have "speech_checks lib req deps = (Escapes, [])"
    using assms unfolding speech_checks_def Let_def checks_valid by simp
  then show ?thesis by (simp add: handle_speech_def)
qed

theorem wrong_type_escapes_witness:
  "handle_speech (example_library None) example_env example_http_request example_deps
     = (Exception, [], deps_pool example_deps)"
  by (rule wrong_type_escapes [of _ _ example_request])
    (simp_all add: example_library_def example_http_request_def header_def max_body_bytes_def)

end
