(* ===== verification/Transition.thy ===== *)
theory Transition
  imports Main
begin

text \<open>
  The contracts the step relations of the development share: an invariant that every step
  keeps; a simulation, under such an invariant, of a detailed step relation by an abstract
  one that may also stand still; a rank that every step lowers; and progress to a goal under a fair
  schedule. The pool, the worker, the server, the process, the service and the system instantiate
  them.
\<close>

locale step_invariant =
  fixes step :: "'s \<Rightarrow> 's \<Rightarrow> bool" and inv :: "'s \<Rightarrow> bool"
  assumes inv_step: "step s s' \<Longrightarrow> inv s \<Longrightarrow> inv s'"
begin

lemma inv_steps: "step\<^sup>*\<^sup>* s s' \<Longrightarrow> inv s \<Longrightarrow> inv s'"
  by (induction rule: rtranclp_induct) (blast intro: inv_step)+

end

locale simulation = step_invariant step inv
  for step :: "'s \<Rightarrow> 's \<Rightarrow> bool" and inv +
  fixes spec :: "'a \<Rightarrow> 'a \<Rightarrow> bool" and abstr :: "'s \<Rightarrow> 'a"
  assumes sim_step: "step s s' \<Longrightarrow> inv s \<Longrightarrow> spec\<^sup>=\<^sup>= (abstr s) (abstr s')"
begin

lemma sim_steps: "step\<^sup>*\<^sup>* s s' \<Longrightarrow> inv s \<Longrightarrow> spec\<^sup>*\<^sup>* (abstr s) (abstr s')"
proof (induction rule: rtranclp_induct)
  case (step t u)
  then have "inv t" using inv_steps by blast
  then have "spec\<^sup>=\<^sup>= (abstr t) (abstr u)" using step.hyps(2) sim_step by blast
  with step show ?case by auto
qed simp

text \<open>What the specification keeps holds of the abstraction of every state reached.\<close>

lemma sim_invariant:
  assumes "step\<^sup>*\<^sup>* s s'" and "inv s" and "J (abstr s)"
    and "\<And>a b. spec a b \<Longrightarrow> J a \<Longrightarrow> J b"
  shows "J (abstr s')"
proof -
  have "spec\<^sup>*\<^sup>* (abstr s) (abstr s')" using assms(1,2) by (rule sim_steps)
  then show ?thesis using assms(3,4) by (induction rule: rtranclp_induct) blast+
qed

end

text \<open>Steps that lower a rank: no run of them is infinite, and none is longer than the rank.\<close>

locale ranked_step =
  fixes step :: "'s \<Rightarrow> 's \<Rightarrow> bool" and rank :: "'s \<Rightarrow> nat"
  assumes rank_step: "step s s' \<Longrightarrow> rank s' < rank s"
begin

lemma step_wf: "wfP (\<lambda>s' s. step s s')"
  by (rule wfp_if_convertible_to_nat [of _ rank]) (rule rank_step)

lemma run_length: "(step ^^ n) s s' \<Longrightarrow> n + rank s' \<le> rank s"
proof (induction n arbitrary: s')
  case (Suc n)
  then obtain t where "(step ^^ n) s t" "step t s'" by auto
  with Suc.IH [of t] rank_step [of t s'] show ?case by simp
qed auto

end

text \<open>Progress under a fair schedule: no step raises the rank, the steps of one actor lower it, and that
  actor can go on as long as the goal is not reached. Weak fairness asks that it does when it always can.\<close>

locale fair_progress = step_invariant step inv
  for step :: "'s \<Rightarrow> 's \<Rightarrow> bool" and inv +
  fixes takes :: "'s \<Rightarrow> 's \<Rightarrow> bool" and rank :: "'s \<Rightarrow> nat" and goal :: "'s \<Rightarrow> bool"
  assumes rank_le: "step s s' \<Longrightarrow> inv s \<Longrightarrow> rank s' \<le> rank s"
    and rank_less: "step s s' \<Longrightarrow> inv s \<Longrightarrow> takes s s' \<Longrightarrow> rank s' < rank s"
    and progress: "inv s \<Longrightarrow> \<not> goal s \<Longrightarrow> \<exists>s'. takes s s'"
begin

lemma run_inv: "\<forall>i. step (f i) (f (Suc i)) \<Longrightarrow> inv (f 0) \<Longrightarrow> inv (f i)"
  by (induction i) (blast intro: inv_step)+

lemma run_rank:
  assumes "\<forall>i. step (f i) (f (Suc i))" and "inv (f 0)" and "i \<le> j"
  shows "rank (f j) \<le> rank (f i)"
  using assms(3)
proof (induction j rule: dec_induct)
  case (step j)
  then show ?case using rank_le [OF spec [OF assms(1)] run_inv [OF assms(1,2)]] by (meson order_trans)
qed simp

lemma goal_reached:
  assumes run: "\<forall>i. step (f i) (f (Suc i))" and start: "inv (f 0)"
    and fair: "\<forall>i. (\<forall>j \<ge> i. \<exists>s'. takes (f j) s') \<longrightarrow> (\<exists>j \<ge> i. takes (f j) (f (Suc j)))"
  shows "\<exists>k. goal (f k)"
proof (rule ccontr)
  assume "\<nexists>k. goal (f k)"
  then have "\<forall>j. \<exists>s'. takes (f j) s'" using progress run_inv [OF run start] by blast
  with fair have often: "\<exists>j \<ge> i. takes (f j) (f (Suc j))" for i by blast
  have "\<exists>j. rank (f j) + m \<le> rank (f 0)" for m
  proof (induction m)
    case (Suc m)
    then obtain i where i: "rank (f i) + m \<le> rank (f 0)" by blast
    obtain j where j: "i \<le> j" "takes (f j) (f (Suc j))" using often by blast
    have "rank (f (Suc j)) < rank (f j)"
      using rank_less [OF spec [OF run] run_inv [OF run start] j(2)] .
    moreover have "rank (f j) \<le> rank (f i)" by (rule run_rank [OF run start j(1)])
    ultimately show ?case using i by (intro exI [of _ "Suc j"]) simp
  qed auto
  then obtain j where "rank (f j) + Suc (rank (f 0)) \<le> rank (f 0)" by blast
  then show False by simp
qed

text \<open>Such schedules exist from every state that satisfies the invariant.\<close>

lemma fair_run_exists:
  assumes "inv s" and "\<And>s. inv s \<Longrightarrow> \<not> goal s \<Longrightarrow> \<exists>s'. step s s' \<and> takes s s'"
    and "\<And>s. inv s \<Longrightarrow> goal s \<Longrightarrow> \<exists>s'. step s s'" and "\<And>s s'. goal s \<Longrightarrow> \<not> takes s s'"
  shows "\<exists>f. f 0 = s \<and> (\<forall>i. step (f i) (f (Suc i)))
    \<and> (\<forall>i. (\<forall>j \<ge> i. \<exists>s'. takes (f j) s') \<longrightarrow> (\<exists>j \<ge> i. takes (f j) (f (Suc j))))"
proof -
  have "\<forall>s. \<exists>s'. inv s \<longrightarrow> step s s' \<and> (goal s \<or> takes s s')" using assms(2,3) by blast
  then obtain g where g: "\<And>s. inv s \<Longrightarrow> step s (g s) \<and> (goal s \<or> takes s (g s))" by metis
  define f where "f i = (g ^^ i) s" for i
  have i: "inv (f i)" for i
  proof (induction i)
    case (Suc i)
    then show ?case using g inv_step by (simp add: f_def) blast
  qed (use assms(1) in \<open>simp add: f_def\<close>)
  then have steps: "step (f i) (f (Suc i)) \<and> (goal (f i) \<or> takes (f i) (f (Suc i)))" for i
    using g [of "f i"] by (simp add: f_def)
  have "(\<forall>j \<ge> i. \<exists>s'. takes (f j) s') \<longrightarrow> (\<exists>j \<ge> i. takes (f j) (f (Suc j)))" for i
    using steps [of i] assms(4) order_refl by blast
  moreover have "f 0 = s" by (simp add: f_def)
  ultimately show ?thesis using steps by blast
qed

end

end
