(* ===== verification/Server.thy ===== *)
theory Server
  imports RateLimit Handlers Transition
begin

text \<open>
  The server facade: \<^verbatim>\<open>include/tts/server.hpp\<close> and \<^verbatim>\<open>src/server/server.cpp\<close>. The backend is
  shared between the server and its pool; while there is a pool it is the pool's. The blocking
  part of \<^verbatim>\<open>shutdown\<close>, the joining of the worker, is an argument: the pool as the worker leaves it.
\<close>

record 'b TtsServer =
  srv_config :: ServerConfig
  srv_backend :: "'b option"
  srv_catalog :: "VoiceCatalog option"
  srv_pool :: "'b InferencePool option"
  srv_auth_limiter :: AuthRateLimiter
  srv_request_limiter :: RequestRateLimiter
  srv_start_time :: time_point
  srv_initialized :: bool

definition new_TtsServer ::
  "ServerConfig \<Rightarrow> 'b option \<Rightarrow> VoiceCatalog option \<Rightarrow> time_point \<Rightarrow> 'b TtsServer" where
  "new_TtsServer cfg backend catalog now =
     (let auth = \<lparr>max_failures = int_to_size (auth_rate_limit_max cfg),
                   window_secs = auth_rate_limit_window cfg,
                   auth_max_tracked_ips = 10000, auth_ip_states = []\<rparr>;
          reqs = \<lparr>max_rpm = int_to_size (request_rate_limit_rpm cfg),
                   request_max_tracked_ips = 10000, request_ip_states = []\<rparr>
      in \<lparr>srv_config = cfg, srv_backend = backend, srv_catalog = catalog, srv_pool = None,
           srv_auth_limiter = auth, srv_request_limiter = reqs, srv_start_time = now,
           srv_initialized = False\<rparr>)"

definition server_backend :: "'b TtsServer \<Rightarrow> 'b option" where
  "server_backend s = (case srv_pool s of Some p \<Rightarrow> Some (pool_backend p) | None \<Rightarrow> srv_backend s)"

definition server_initialize :: "('b \<Rightarrow> bool) \<Rightarrow> 'b TtsServer \<Rightarrow> bool \<times> 'b TtsServer" where
  "server_initialize ready s =
     (if srv_initialized s then (True, s)
      else case server_backend s of
        None \<Rightarrow> (False, s)
      | Some b \<Rightarrow>
          if \<not> ready b then (False, s)
          else case new_InferencePool (Some b) (max_queue_depth (srv_config s))
                      (request_timeout_seconds (srv_config s)) of
            Inl _ \<Rightarrow> (False, s)
          | Inr p \<Rightarrow> (True, s\<lparr>srv_pool := Some p, srv_initialized := True\<rparr>))"

definition server_shutdown :: "('b InferencePool \<Rightarrow> 'b InferencePool) \<Rightarrow> 'b TtsServer \<Rightarrow> 'b TtsServer" where
  "server_shutdown joined s =
     (if \<not> srv_initialized s then s
      else
        let s = (case srv_pool s of
                   None \<Rightarrow> s
                 | Some p \<Rightarrow> s\<lparr>srv_pool := Some (joined (stop_accepting p))\<rparr>)
        in s\<lparr>srv_initialized := False\<rparr>)"

text \<open>The destructor.\<close>

definition server_destroy :: "('b InferencePool \<Rightarrow> 'b InferencePool) \<Rightarrow> 'b TtsServer \<Rightarrow> 'b TtsServer" where
  "server_destroy joined s = (if srv_initialized s then server_shutdown joined s else s)"

definition server_is_ready :: "('b \<Rightarrow> bool) \<Rightarrow> 'b TtsServer \<Rightarrow> bool" where
  "server_is_ready ready s \<longleftrightarrow> srv_initialized s
     \<and> (case server_backend s of None \<Rightarrow> False | Some b \<Rightarrow> ready b)
     \<and> (case srv_pool s of None \<Rightarrow> False | Some p \<Rightarrow> is_accepting p)"

text \<open>\<^verbatim>\<open>HttpAdapter::make_deps\<close>.\<close>

definition make_deps :: "('b \<Rightarrow> bool) \<Rightarrow> 'b TtsServer \<Rightarrow> 'b HandlerDeps" where
  "make_deps ready s = \<lparr>deps_backend_ready = map_option ready (server_backend s),
     deps_voice_catalog = srv_catalog s, deps_pool = srv_pool s, deps_config = Some (srv_config s),
     deps_start_time = srv_start_time s\<rparr>"

subsection \<open>Lifecycle\<close>

text \<open>The states a server goes through: initializations, shutdowns whose join leaves the pool's
  intake closed, and activity of the pool in between, which changes neither the intake nor the
  readiness of the backend.\<close>

inductive server_step :: "('b \<Rightarrow> bool) \<Rightarrow> 'b TtsServer \<Rightarrow> 'b TtsServer \<Rightarrow> bool"
  for ready where
  Initialize: "server_initialize ready s = (ok, s') \<Longrightarrow> server_step ready s s'"
| Shutdown: "\<forall>p. \<not> accepting p \<longrightarrow> \<not> accepting (joined p) \<Longrightarrow>
     server_step ready s (server_shutdown joined s)"
| Activity: "srv_pool s = Some p \<Longrightarrow> accepting p' = accepting p \<Longrightarrow>
     ready (pool_backend p') = ready (pool_backend p) \<Longrightarrow>
     server_step ready s (s\<lparr>srv_pool := Some p'\<rparr>)"

text \<open>The pool takes jobs exactly while the server is initialized, and then its backend is ready.\<close>

definition server_inv :: "('b \<Rightarrow> bool) \<Rightarrow> 'b TtsServer \<Rightarrow> bool" where
  "server_inv ready s \<longleftrightarrow>
     (srv_initialized s \<longleftrightarrow> (case srv_pool s of None \<Rightarrow> False | Some p \<Rightarrow> accepting p))
     \<and> (srv_initialized s \<longrightarrow> (case srv_pool s of None \<Rightarrow> False | Some p \<Rightarrow> ready (pool_backend p)))"

lemma new_server_inv: "server_inv ready (new_TtsServer cfg backend catalog now)"
  by (simp add: server_inv_def new_TtsServer_def Let_def)

lemma new_pool_Inr:
  "new_InferencePool (Some b) depth timeout = Inr p \<longleftrightarrow>
     1 \<le> depth \<and> 1 \<le> timeout \<and> p = \<lparr>pool_backend = b, max_depth = depth, timeout_seconds = timeout,
       queue = [], accepting = True, active = 0, expired = 0, worker = Waiting\<rparr>"
  by (auto simp: new_InferencePool_def)

lemma server_step_inv: "server_step ready s s' \<Longrightarrow> server_inv ready s \<Longrightarrow> server_inv ready s'"
proof (induction rule: server_step.induct)
  case (Initialize s ok s')
  then show ?case
    by (auto simp: server_initialize_def server_inv_def new_pool_Inr
        split: if_splits option.splits sum.splits)
next
  case (Shutdown joined s)
  then show ?case
    by (auto simp: server_shutdown_def server_inv_def stop_accepting_def Let_def split: option.splits)
next
  case (Activity s p p')
  then show ?case by (auto simp: server_inv_def)
qed

interpretation server_life: step_invariant "server_step ready" "server_inv ready" for ready
  by unfold_locales (rule server_step_inv)

lemma initialize_succeeds:
  assumes "valid_config (srv_config s)" and "server_backend s = Some b" and "ready b"
  shows "\<exists>s'. server_initialize ready s = (True, s') \<and> (\<not> srv_initialized s \<longrightarrow>
     srv_initialized s' \<and> (\<exists>p. srv_pool s' = Some p \<and> accepting p \<and> queue p = []
        \<and> pool_backend p = b \<and> max_depth p = max_queue_depth (srv_config s)))"
proof -
  have "1 \<le> max_queue_depth (srv_config s)" "1 \<le> request_timeout_seconds (srv_config s)"
    using assms(1) by (simp_all add: valid_config_def)
  with assms(2,3) show ?thesis
    by (auto simp: server_initialize_def new_InferencePool_def)
qed

subsection \<open>Properties\<close>

text \<open>The readiness probe tells the truth: after any history of initializations, shutdowns and
  pool activity, \<^verbatim>\<open>GET /ready\<close> answers 200 exactly when the server is initialized, which is when
  \<^verbatim>\<open>is_ready\<close> holds, and 503 otherwise.\<close>

theorem ready_probe_exact:
  assumes "(server_step ready)\<^sup>*\<^sup>* (new_TtsServer cfg backend catalog now) s"
  shows "(server_is_ready ready s \<longleftrightarrow> srv_initialized s)
    \<and> resp_status (handle_ready lib (make_deps ready s)) = (if srv_initialized s then 200 else 503)"
proof -
  have "server_inv ready s" using server_life.inv_steps [OF assms new_server_inv] .
  then show ?thesis
    by (auto simp: server_inv_def server_is_ready_def handle_ready_def make_deps_def server_backend_def
        is_accepting_def Let_def json_response_fields split: option.splits)
qed

theorem ready_probe_exact_witness:
  "resp_status (handle_ready (example_library None) (make_deps mock_is_ready
     (new_TtsServer default_config None None 0))) = 503"
  using ready_probe_exact [where lib = "example_library None" and ready = mock_is_ready
      and cfg = default_config and backend = None and catalog = None and now = 0,
      OF rtranclp.rtrancl_refl]
  by (simp add: new_TtsServer_def Let_def)

text \<open>A loaded configuration that \<^verbatim>\<open>validate\<close> accepts reaches every component unchanged: with a
  ready backend the server initializes, with an accepting empty pool of the configured depth, and
  the limiters start empty with the configured limits, the casts to \<^verbatim>\<open>size_t\<close> losing nothing.\<close>

theorem accepted_configuration_starts:
  assumes "cfg = from_file_and_env file_exists parse_file env path" and "validate cfg = Inr ()"
    and "ready b"
  shows "\<exists>s p. server_initialize ready (new_TtsServer cfg (Some b) catalog now) = (True, s)
     \<and> server_is_ready ready s \<and> srv_pool s = Some p \<and> queue p = []
     \<and> max_depth p = max_queue_depth cfg
     \<and> srv_auth_limiter s = new_auth_limiter (nat (auth_rate_limit_max cfg)) (auth_rate_limit_window cfg)
     \<and> srv_request_limiter s = new_request_limiter (nat (request_rate_limit_rpm cfg))"
proof -
  let ?s = "new_TtsServer cfg (Some b) catalog now"
  have v: "valid_config cfg" using assms(2) by (simp add: validate_valid)
  have "ints_in_range cfg"
    unfolding assms(1) from_file_and_env_eq by (intro overrides_range file_config_range)
  then have r: "auth_rate_limit_max cfg \<le> INT_MAX" "request_rate_limit_rpm cfg \<le> INT_MAX"
    by (simp_all add: ints_in_range_def in_int_range_def)
  have "1 \<le> auth_rate_limit_max cfg" "1 \<le> request_rate_limit_rpm cfg"
    using v by (simp_all add: valid_config_def)
  with r have c: "int_to_size (auth_rate_limit_max cfg) = nat (auth_rate_limit_max cfg)"
    "int_to_size (request_rate_limit_rpm cfg) = nat (request_rate_limit_rpm cfg)"
    by (simp_all add: int_to_size_nonneg)
  have d: "1 \<le> max_queue_depth cfg" "1 \<le> request_timeout_seconds cfg"
    using v by (simp_all add: valid_config_def)
  show ?thesis using assms(3) c d
    by (simp add: server_initialize_def new_TtsServer_def server_backend_def new_InferencePool_def
        server_is_ready_def is_accepting_def new_auth_limiter_def new_request_limiter_def Let_def)
qed

theorem accepted_configuration_starts_witness:
  "\<exists>s. server_initialize (\<lambda>b. b = (3 :: nat)) (new_TtsServer
      (from_file_and_env (\<lambda>_. False) (\<lambda>_. None) [''TTS_MODEL_PATH'' \<mapsto> ''m''] ''c'') (Some 3) None 0) = (True, s)
     \<and> server_is_ready (\<lambda>b. b = (3 :: nat)) s"
proof -
  let ?cfg = "from_file_and_env (\<lambda>_. False) (\<lambda>_. None) [''TTS_MODEL_PATH'' \<mapsto> ''m''] ''c''"
  have "validate ?cfg = Inr ()"
    unfolding validate_valid valid_config_def
    by (simp add: from_file_and_env_eq apply_env_overrides_eq file_config_def default_config_def
        env_text_def env_int_def env_bool_def)
  from accepted_configuration_starts [OF refl this, of "\<lambda>b. b = (3 :: nat)" 3 None 0]
  show ?thesis by blast
qed

end
