(* ===== verification/HttpAdapter.thy ===== *)
theory HttpAdapter
  imports Server "HOL-Library.Sublist"
begin

text \<open>
  The HTTP adapter: \<^verbatim>\<open>src/server/http_adapter.hpp\<close> and \<^verbatim>\<open>src/server/http_adapter.cpp\<close>. The
  listening library is seen through its request record and through the calls made on its
  response object, which a route returns in order; matching a request to a route is the
  library's. The thread's log request id is a value the routes return as they leave it.
\<close>

subsection \<open>The library's request and response\<close>

record lib_request =
  lib_method :: string
  lib_path :: string
  lib_body :: string
  lib_remote_addr :: string
  lib_headers :: "(string \<times> string) list"

datatype response_call = Set_Status int | Set_Header string string | Set_Content string string

definition to_lower :: "string \<Rightarrow> string" where
  "to_lower s = map tolower s"

definition adapt_request :: "lib_request \<Rightarrow> HttpRequest" where
  "adapt_request req = \<lparr>req_method = lib_method req, req_path = lib_path req, req_body = lib_body req,
     req_headers = fold (\<lambda>(key, val) m. put (to_lower key) val m) (lib_headers req) [],
     req_remote_addr = lib_remote_addr req\<rparr>"

definition bytes_string :: "bytes \<Rightarrow> string" where
  "bytes_string bs = map (\<lambda>b. char_of (unat b)) bs"

definition adapt_response :: "HttpResponse \<Rightarrow> response_call list" where
  "adapt_response r =
     Set_Status (resp_status r)
     # map (\<lambda>(key, val). Set_Header key val) (resp_headers r)
     @ [if is_binary r
        then Set_Content (bytes_string (binary_body r))
               (case lookup (resp_headers r) ''Content-Type'' of Some t \<Rightarrow> t
                | None \<Rightarrow> ''application/octet-stream'')
        else Set_Content (resp_body r)
               (case lookup (resp_headers r) ''Content-Type'' of Some t \<Rightarrow> t | None \<Rightarrow> ''text/plain'')]"

subsection \<open>The middleware\<close>

text \<open>The clock readings of the three limiter calls (with the default of a new table entry), and
  the iteration orders after an insertion.\<close>

record middleware_env =
  mw_blocked_at :: time_point
  mw_request_at :: time_point
  mw_request_fresh :: time_point
  mw_failure_at :: time_point
  mw_failure_fresh :: time_point
  mw_request_order :: "(string \<times> RequestIpState) list \<Rightarrow> (string \<times> RequestIpState) list"
  mw_failure_order :: "(string \<times> AuthIpState) list \<Rightarrow> (string \<times> AuthIpState) list"

definition auth_limited_response :: "'j json_library \<Rightarrow> HttpResponse" where
  "auth_limited_response lib = set_header ''Retry-After'' ''60''
     (make_error_response lib 429 ''rate_limit_error'' ''auth_rate_limited''
        ''Too many authentication failures. Try again later.'' [])"

definition rate_limited_response :: "'j json_library \<Rightarrow> int \<Rightarrow> HttpResponse" where
  "rate_limited_response lib retry_after = set_header ''Retry-After'' (int_to_string retry_after)
     (make_error_response lib 429 ''rate_limit_error'' ''rate_limited''
        ''Rate limit exceeded. Please slow down.'' [])"

definition client_address :: "ServerConfig \<Rightarrow> HttpRequest \<Rightarrow> string" where
  "client_address cfg req = extract_client_ip (header req ''x-forwarded-for'') (req_remote_addr req)
     (trust_proxy cfg) (trusted_proxy_hops cfg)"

text \<open>\<^verbatim>\<open>std::nullopt\<close> is \<open>None\<close>. The blocked test is made only when authentication is required.\<close>

definition run_middleware ::
  "'j json_library \<Rightarrow> middleware_env \<Rightarrow> HttpRequest \<Rightarrow> 'b TtsServer
     \<Rightarrow> HttpResponse option \<times> metric_call list \<times> 'b TtsServer" where
  "run_middleware lib env req s =
    (let cfg = srv_config s in
     if is_internal_endpoint (req_path req) then (None, [], s) else
     let client_ip = client_address cfg req;
         (blocked, s) = (if require_auth cfg
            then (let (b, lim) = is_blocked (mw_blocked_at env) client_ip (srv_auth_limiter s)
                  in (b, s\<lparr>srv_auth_limiter := lim\<rparr>))
            else (False, s)) in
     if blocked then (Some (auth_limited_response lib), [Requests_Rejected_Auth], s) else
     let (retry_after, lim) = check_request (mw_request_order env) (mw_request_at env)
            (mw_request_fresh env) client_ip (srv_request_limiter s);
         s = s\<lparr>srv_request_limiter := lim\<rparr> in
     if retry_after > 0 then
       (Some (rate_limited_response lib retry_after), [Requests_Rejected_Rate_Limit], s) else
     if require_auth cfg then
       (let auth_result = check_bearer_auth (header req ''authorization'') (api_key cfg) in
        if \<not> authenticated auth_result then
          let (_, lim) = check_and_record_failure (mw_failure_order env) (mw_failure_at env)
                 (mw_failure_fresh env) client_ip (srv_auth_limiter s)
          in (Some (make_error_response lib 401 ''authentication_error'' (auth_error_code auth_result)
                (auth_error_message auth_result) []), [Requests_Rejected_Auth],
              s\<lparr>srv_auth_limiter := lim\<rparr>)
        else (None, [], s))
     else (None, [], s))"

subsection \<open>The routes\<close>

text \<open>What a route does: the calls on the response, or \<open>None\<close> when an exception leaves it; the
  calls on the metrics; and the thread's request id afterwards.\<close>

record route_result =
  rr_calls :: "response_call list option"
  rr_metrics :: "metric_call list"
  rr_request_id :: string

definition respond :: "string \<Rightarrow> HttpResponse \<Rightarrow> metric_call list \<Rightarrow> route_result" where
  "respond request_id response metrics =
     \<lparr>rr_calls = Some (adapt_response (apply_security_headers response request_id)),
      rr_metrics = metrics, rr_request_id = []\<rparr>"

definition route_health ::
  "'j json_library \<Rightarrow> string \<Rightarrow> time_point \<Rightarrow> string \<Rightarrow> ('b \<Rightarrow> bool) \<Rightarrow> 'b TtsServer \<Rightarrow> route_result" where
  "route_health lib version now request_id ready s =
     respond request_id (handle_health lib version now (make_deps ready s)) []"

definition route_ready ::
  "'j json_library \<Rightarrow> string \<Rightarrow> ('b \<Rightarrow> bool) \<Rightarrow> 'b TtsServer \<Rightarrow> route_result" where
  "route_ready lib request_id ready s = respond request_id (handle_ready lib (make_deps ready s)) []"

text \<open>This route sets no request id, so it leaves the thread's as it is.\<close>

definition route_metrics :: "string \<Rightarrow> string \<Rightarrow> route_result" where
  "route_metrics serialized thread_id =
     \<lparr>rr_calls = Some (adapt_response (handle_metrics serialized)), rr_metrics = [],
      rr_request_id = thread_id\<rparr>"

definition route_voices ::
  "'j json_library \<Rightarrow> middleware_env \<Rightarrow> string \<Rightarrow> ('b \<Rightarrow> bool) \<Rightarrow> lib_request \<Rightarrow> 'b TtsServer
     \<Rightarrow> route_result \<times> 'b TtsServer" where
  "route_voices lib env request_id ready req s =
     (let abstract_req = adapt_request req in
      case run_middleware lib env abstract_req s of
        (Some middleware_err, m, s') \<Rightarrow> (respond request_id middleware_err m, s')
      | (None, m, s') \<Rightarrow> (respond request_id (handle_voices lib (make_deps ready s')) m, s'))"

text \<open>The handler's environment may depend on the server after the middleware, whose pool it uses and
  leaves with its job submitted, or as the worker and the other handlers have made it in the meantime;
  a handler that never returns has no result.\<close>

definition route_speech ::
  "'j json_library \<Rightarrow> middleware_env \<Rightarrow> ('b TtsServer \<Rightarrow> 'b speech_env) \<Rightarrow> string \<Rightarrow> ('b \<Rightarrow> bool)
     \<Rightarrow> lib_request \<Rightarrow> 'b TtsServer \<Rightarrow> (route_result \<times> 'b TtsServer) option" where
  "route_speech lib env speech request_id ready req s =
     (let abstract_req = adapt_request req in
      case run_middleware lib env abstract_req s of
        (Some middleware_err, m, s') \<Rightarrow> Some (respond request_id middleware_err m, s')
      | (None, m, s') \<Rightarrow>
          (case handle_speech lib (speech s') abstract_req (make_deps ready s') of
             (Reply response, m2, pool') \<Rightarrow>
               Some (respond request_id response (m @ m2), s'\<lparr>srv_pool := pool'\<rparr>)
           | (Exception, m2, pool') \<Rightarrow>
               Some (\<lparr>rr_calls = None, rr_metrics = m @ m2, rr_request_id = request_id\<rparr>,
                     s'\<lparr>srv_pool := pool'\<rparr>)
           | (No_Answer, m2, pool') \<Rightarrow> None))"

text \<open>The error handler the library calls for a response without content, with its status.\<close>

definition error_handler :: "'j json_library \<Rightarrow> string \<Rightarrow> int \<Rightarrow> response_call list" where
  "error_handler lib request_id status =
     (if status = 404 then
        let response = apply_security_headers (make_error_response lib 404 ''invalid_request_error''
              ''not_found'' ''The requested endpoint does not exist.'' []) request_id
        in map (\<lambda>(key, val). Set_Header key val) (resp_headers response)
           @ [Set_Content (resp_body response) ''application/json'']
      else [])"

subsection \<open>The listener\<close>

text \<open>\<^verbatim>\<open>start\<close> sets the flag before it blocks in \<^verbatim>\<open>listen\<close> and clears it after; \<^verbatim>\<open>stop\<close> forwards to the
  library only while the flag is set. The flag here is the call of the library's \<^verbatim>\<open>stop\<close>; whether the
  library, called between the setting of the flag and the time its \<^verbatim>\<open>listen\<close> accepts, still stops is
  a matter of the library and not modelled.\<close>

record listener =
  running :: bool
  stop_requested :: bool

definition listener_begin :: "listener \<Rightarrow> listener" where
  "listener_begin l = l\<lparr>running := True\<rparr>"

definition listener_end :: "listener \<Rightarrow> listener" where
  "listener_end l = l\<lparr>running := False\<rparr>"

definition listener_stop :: "listener \<Rightarrow> listener" where
  "listener_stop l = (if running l then l\<lparr>stop_requested := True\<rparr> else l)"

definition is_running :: "listener \<Rightarrow> bool" where
  "is_running l = running l"

subsection \<open>Lemmas: headers\<close>

lemma folded_headers:
  "lookup (fold (\<lambda>(key, val) m. put (to_lower key) val m) hs m) n =
     (case filter (\<lambda>(key, val). to_lower key = n) hs of
        [] \<Rightarrow> lookup m n | x # xs \<Rightarrow> Some (snd (last (x # xs))))"
proof (induction hs arbitrary: m)
  case Nil
  then show ?case by simp
next
  case (Cons h hs)
  obtain key val where h: "h = (key, val)" by (cases h)
  show ?case
    by (simp add: h Cons.IH update_conv split: list.split)
qed

lemma set_header_in:
  "(n, v) \<in> set (resp_headers (set_header n v r))"
  "n \<noteq> k \<Longrightarrow> (n, v) \<in> set (resp_headers r) \<Longrightarrow> lookup (resp_headers r) n = Some v
     \<Longrightarrow> (n, v) \<in> set (resp_headers (set_header k w r))"
  by (rule map_of_SomeD, simp)+

text \<open>The three headers every API response carries.\<close>

definition security_headers :: "string \<Rightarrow> response_call list" where
  "security_headers request_id = [Set_Header ''X-Content-Type-Options'' ''nosniff'',
     Set_Header ''Cache-Control'' ''no-store'', Set_Header ''X-Request-Id'' request_id]"

lemma security_headers_in:
  "(''X-Content-Type-Options'', ''nosniff'') \<in> set (resp_headers (apply_security_headers r i))
   \<and> (''Cache-Control'', ''no-store'') \<in> set (resp_headers (apply_security_headers r i))
   \<and> (''X-Request-Id'', i) \<in> set (resp_headers (apply_security_headers r i))"
  by (intro conjI map_of_SomeD) (simp_all add: apply_security_headers_def Let_def)

lemma respond_secure:
  "set (security_headers i) \<subseteq> set (adapt_response (apply_security_headers r i))"
  using security_headers_in [of r i]
  by (force simp: security_headers_def adapt_response_def)

subsection \<open>Lemmas: the middleware\<close>

lemma check_request_nonneg: "0 \<le> fst (check_request order now fresh ip limiter)"
  by (auto simp: check_request_def Let_def split: prod.split)


definition mw_blocked :: "middleware_env \<Rightarrow> HttpRequest \<Rightarrow> 'b TtsServer \<Rightarrow> bool" where
  "mw_blocked env req s \<longleftrightarrow> require_auth (srv_config s) \<and>
     fst (is_blocked (mw_blocked_at env) (client_address (srv_config s) req) (srv_auth_limiter s))"

definition mw_answer :: "middleware_env \<Rightarrow> HttpRequest \<Rightarrow> 'b TtsServer \<Rightarrow> int" where
  "mw_answer env req s = fst (check_request (mw_request_order env) (mw_request_at env)
     (mw_request_fresh env) (client_address (srv_config s) req) (srv_request_limiter s))"

definition mw_authenticated :: "HttpRequest \<Rightarrow> 'b TtsServer \<Rightarrow> bool" where
  "mw_authenticated req s \<longleftrightarrow> \<not> require_auth (srv_config s)
     \<or> authenticated (check_bearer_auth (header req ''authorization'') (api_key (srv_config s)))"

lemma run_middleware_admits:
  "fst (run_middleware lib env req s) = None \<longleftrightarrow> is_internal_endpoint (req_path req)
     \<or> (\<not> mw_blocked env req s \<and> mw_answer env req s \<le> 0 \<and> mw_authenticated req s)"
  by (auto simp: run_middleware_def mw_blocked_def mw_answer_def mw_authenticated_def Let_def
      split: prod.splits)

lemma run_middleware_frame:
  "srv_config (snd (snd (run_middleware lib env req s))) = srv_config s"
  "srv_pool (snd (snd (run_middleware lib env req s))) = srv_pool s"
  "srv_catalog (snd (snd (run_middleware lib env req s))) = srv_catalog s"
  by (auto simp: run_middleware_def Let_def split: prod.splits)

lemma run_middleware_request_limiter:
  "srv_request_limiter (snd (snd (run_middleware lib env req s))) =
     (if is_internal_endpoint (req_path req) \<or> mw_blocked env req s then srv_request_limiter s
      else snd (check_request (mw_request_order env) (mw_request_at env) (mw_request_fresh env)
        (client_address (srv_config s) req) (srv_request_limiter s)))"
  by (auto simp: run_middleware_def mw_blocked_def Let_def split: prod.splits)

text \<open>What the middleware lets through to a protected path, with authentication required.\<close>

lemma admitted_with_key:
  assumes "fst (run_middleware lib env req s) = None" and "\<not> is_internal_endpoint (req_path req)"
    and "require_auth (srv_config s)"
  shows "(\<exists>token. header req ''authorization'' = ''Bearer '' @ token
      \<and> (token = api_key (srv_config s) \<or>
         256 \<le> max (length token) (length (api_key (srv_config s)))
         \<and> length token mod 256 = length (api_key (srv_config s)) mod 256
         \<and> take (min (length token) (length (api_key (srv_config s)))) token
             = take (min (length token) (length (api_key (srv_config s)))) (api_key (srv_config s))))
    \<and> \<not> mw_blocked env req s"
proof -
  have "mw_authenticated req s" and b: "\<not> mw_blocked env req s"
    using assms(1,2) by (auto simp: run_middleware_admits)
  then obtain token where t: "header req ''authorization'' = bearer_prefix @ token"
    and eq: "constant_time_equals token (api_key (srv_config s))"
    using assms(3) by (auto simp: mw_authenticated_def check_bearer_auth_accepts)
  show ?thesis
  proof (cases "256 \<le> max (length token) (length (api_key (srv_config s)))")
    case True
    with t eq b show ?thesis by (auto simp: constant_time_equals_iff bearer_prefix_def)
  next
    case False
    then have "length token = length (api_key (srv_config s))" using eq by (simp add: constant_time_equals_iff)
    with constant_time_equals_same_length eq have "token = api_key (srv_config s)" by blast
    with t b show ?thesis by (simp add: bearer_prefix_def)
  qed
qed

text \<open>The speech route answers through \<open>respond\<close>, or its handler was left by an exception.\<close>

lemma route_speech_cases:
  assumes "route_speech lib env speech i ready req s = Some (r, s')"
  obtains (responds) resp m where "r = respond i resp m"
  | (thrown) "rr_calls r = None" "throws_on lib (adapt_request req)" "rr_request_id r = i"
      "fst (run_middleware lib env (adapt_request req) s) = None"
proof -
  obtain e m t where mw: "run_middleware lib env (adapt_request req) s = (e, m, t)"
    using prod_cases3 by blast
  obtain out m2 left where h: "handle_speech lib (speech t) (adapt_request req) (make_deps ready t) = (out, m2, left)"
    using prod_cases3 by blast
  show thesis
  proof (cases "e = None \<and> out = Exception")
    case True
    with h have "fst (speech_checks lib (adapt_request req) (make_deps ready t)) = Escapes"
      by (simp flip: handle_speech_exception [of lib "speech t"])
    from speech_checks_escapes [OF this] show thesis
      using assms mw h True by (intro thrown) (auto simp: route_speech_def Let_def)
  next
    case False
    with assms mw h show thesis
      by (cases e; cases out) (auto simp: route_speech_def Let_def intro: responds)
  qed
qed

subsection \<open>An example\<close>

definition example_server :: "MockBackend TtsServer" where
  "example_server = new_TtsServer (default_config\<lparr>require_auth := True, api_key := ''k''\<rparr>)
     (Some new_MockBackend) None 0"

definition example_mw :: middleware_env where
  "example_mw = \<lparr>mw_blocked_at = 1, mw_request_at = 1, mw_request_fresh = 1, mw_failure_at = 1,
     mw_failure_fresh = 1, mw_request_order = (\<lambda>m. m), mw_failure_order = (\<lambda>m. m)\<rparr>"

definition example_get :: HttpRequest where
  "example_get = \<lparr>req_method = ''GET'', req_path = ''/v1/voices'', req_body = [],
     req_headers = [(''authorization'', ''Bearer k'')], req_remote_addr = ''1.2.3.4''\<rparr>"

definition example_lib_request :: lib_request where
  "example_lib_request = \<lparr>lib_method = ''GET'', lib_path = ''/v1/voices'', lib_body = [],
     lib_remote_addr = ''1.2.3.4'', lib_headers = [(''Authorization'', ''Bearer k'')]\<rparr>"

lemma example_admitted:
  "fst (run_middleware (example_library None) example_mw example_get example_server) = None"
proof -
  have "\<not> mw_blocked example_mw example_get example_server"
    by (simp add: mw_blocked_def example_server_def new_TtsServer_def is_blocked_def Let_def)
  moreover have "mw_answer example_mw example_get example_server = 0"
    by (simp add: mw_answer_def example_server_def new_TtsServer_def check_request_def subscript_def
        elapsed_seconds_def to_seconds_nonneg example_mw_def int_to_size_def default_config_def Let_def)
  moreover have "mw_authenticated example_get example_server"
    unfolding mw_authenticated_def check_bearer_auth_accepts
    by (simp add: example_get_def header_def example_server_def new_TtsServer_def bearer_prefix_def Let_def)
  ultimately show ?thesis by (simp add: run_middleware_admits)
qed

subsection \<open>Properties\<close>

text \<open>Header names: the handlers see, under each lower case name, the value of the last header of
  the request whose name is equal to it up to case, and the empty text when there is none.\<close>

theorem header_lookup_exact:
  "header (adapt_request req) name =
     (case filter (\<lambda>(key, val). to_lower key = name) (lib_headers req) of
        [] \<Rightarrow> [] | x # xs \<Rightarrow> snd (last (x # xs)))"
  by (simp add: header_def adapt_request_def folded_headers split: list.split)

end
