(* ===== verification/Calendar.thy ===== *)
theory Calendar
  imports Main
begin

text \<open>
  The C library's \<^verbatim>\<open>gmtime_r\<close>, which \<^verbatim>\<open>safe_gmtime\<close> of \<^verbatim>\<open>src/logging/logger.cpp\<close> wraps: seconds since
  the epoch to calendar fields in UTC, by the Gregorian rules, and the reference it is checked
  against, the number of seconds a set of fields denotes.
\<close>

record tm =
  tm_sec :: int
  tm_min :: int
  tm_hour :: int
  tm_mday :: int
  tm_mon :: int
  tm_year :: int

definition leap :: "int \<Rightarrow> bool" where
  "leap y \<longleftrightarrow> y mod 4 = 0 \<and> (y mod 100 \<noteq> 0 \<or> y mod 400 = 0)"

definition days_in_year :: "int \<Rightarrow> int" where
  "days_in_year y = (if leap y then 366 else 365)"

definition month_lengths :: "int \<Rightarrow> int list" where
  "month_lengths y = [31, if leap y then 29 else 28, 31, 30, 31, 30, 31, 31, 30, 31, 30, 31]"

lemma days_in_year_bounds: "365 \<le> days_in_year y" "days_in_year y \<le> 366"
  by (simp_all add: days_in_year_def)

text \<open>The year a day lies in, counted from the start of year \<open>y\<close>, and the day in it.\<close>

function civil_year :: "int \<Rightarrow> int \<Rightarrow> int \<times> int" where
  "civil_year y d =
     (if d < 0 then civil_year (y - 1) (d + days_in_year (y - 1))
      else if d < days_in_year y then (y, d)
      else civil_year (y + 1) (d - days_in_year y))"
  by pat_completeness auto
termination
  by (relation "measure (\<lambda>(y, d). if d < 0 then nat (400 - d) else nat d)")
    (auto simp: days_in_year_def split: if_splits)

declare civil_year.simps [simp del]

fun month_of :: "int list \<Rightarrow> int \<Rightarrow> int \<Rightarrow> int \<times> int" where
  "month_of [] m d = (m, d)"
| "month_of (l # ls) m d = (if d < l then (m, d) else month_of ls (m + 1) (d - l))"

definition gmtime :: "int \<Rightarrow> tm" where
  "gmtime t =
     (let days = t div 86400; rest = t mod 86400;
          (y, yday) = civil_year 1970 days;
          (m, d) = month_of (month_lengths y) 0 yday
      in \<lparr>tm_sec = rest mod 60, tm_min = rest div 60 mod 60, tm_hour = rest div 3600,
          tm_mday = d + 1, tm_mon = m, tm_year = y - 1900\<rparr>)"

subsection \<open>What the fields denote\<close>

definition days_before :: "int \<Rightarrow> int" where
  "days_before y = 365 * (y - 1970) + (y - 1969) div 4 - (y - 1901) div 100 + (y - 1601) div 400"

definition seconds_of :: "tm \<Rightarrow> int" where
  "seconds_of f = (days_before (tm_year f + 1900)
      + sum_list (take (nat (tm_mon f)) (month_lengths (tm_year f + 1900))) + tm_mday f - 1) * 86400
    + tm_hour f * 3600 + tm_min f * 60 + tm_sec f"

definition calendar_fields :: "tm \<Rightarrow> bool" where
  "calendar_fields f \<longleftrightarrow> 0 \<le> tm_mon f \<and> tm_mon f \<le> 11
     \<and> 1 \<le> tm_mday f \<and> tm_mday f \<le> month_lengths (tm_year f + 1900) ! nat (tm_mon f)
     \<and> 0 \<le> tm_hour f \<and> tm_hour f \<le> 23 \<and> 0 \<le> tm_min f \<and> tm_min f \<le> 59
     \<and> 0 \<le> tm_sec f \<and> tm_sec f \<le> 59"

lemma div_step:
  fixes x k :: int
  assumes "0 < k"
  shows "(x + 1) div k = x div k + (if (x + 1) mod k = 0 then 1 else 0)"
proof -
  have x: "x + 1 = (x mod k + 1) + k * (x div k)" using mult_div_mod_eq [of k x] by linarith
  have d: "(x + 1) div k = x div k + (x mod k + 1) div k"
    using div_mult_self2 [of k "x mod k + 1" "x div k"] assms unfolding x [symmetric] by simp
  have m: "(x + 1) mod k = (x mod k + 1) mod k" by (simp add: mod_add_left_eq)
  have r: "0 \<le> x mod k" "x mod k < k" using assms by simp_all
  show ?thesis
  proof (cases "x mod k + 1 = k")
    case True
    with d m assms show ?thesis by simp
  next
    case False
    with r have "0 \<le> x mod k + 1" "x mod k + 1 < k" by linarith+
    then have "(x mod k + 1) div k = 0" "(x mod k + 1) mod k = x mod k + 1" by simp_all
    with d m r(1) show ?thesis by simp
  qed
qed

lemma mod_shift: "(y - k * n) mod k = y mod k" for y k n :: int
  using mod_mult_self2 [of y k "- n"] by simp

lemma leap_rule:
  fixes a b c a' b' c' z :: int
  assumes "a' = a + (if p then 1 else 0)" and "b' = b + (if q then 1 else 0)"
    and "c' = c + (if r then 1 else 0)" and "r \<Longrightarrow> q" and "q \<Longrightarrow> p"
  shows "z + 365 + a' - b' + c' = (z + a - b + c) + (if p \<and> (\<not> q \<or> r) then 366 else 365)"
  unfolding assms(1-3) using assms(4,5) by (cases p; cases q; cases r) simp_all

lemma year_div:
  fixes y k n :: int
  assumes "0 < k"
  shows "(y - k * n) div k = (y - k * n - 1) div k + (if y mod k = 0 then 1 else 0)"
  using div_step [OF assms, of "y - k * n - 1"] by (simp only: diff_add_cancel mod_shift)

lemma days_before_step: "days_before (y + 1) = days_before y + days_in_year y"
proof -
  have e: "y - 4 * 492 = y - 1968" "y - 1968 - 1 = y - 1969" "y - 100 * 19 = y - 1900" "y - 1900 - 1 = y - 1901"
    "y - 400 * 4 = y - 1600" "y - 1600 - 1 = y - 1601" by simp_all
  have "(y - 1968) div 4 = (y - 1969) div 4 + (if y mod 4 = 0 then 1 else 0)"
    by (rule year_div [of 4 y 492, unfolded e, OF zero_less_numeral])
  moreover have "(y - 1900) div 100 = (y - 1901) div 100 + (if y mod 100 = 0 then 1 else 0)"
    by (rule year_div [of 100 y 19, unfolded e, OF zero_less_numeral])
  moreover have "(y - 1600) div 400 = (y - 1601) div 400 + (if y mod 400 = 0 then 1 else 0)"
    by (rule year_div [of 400 y 4, unfolded e, OF zero_less_numeral])
  moreover have "y mod 400 = 0 \<Longrightarrow> y mod 100 = 0" "y mod 100 = 0 \<Longrightarrow> y mod 4 = 0"
    using dvd_trans [of 100 400 y] dvd_trans [of 4 100 y] unfolding mod_eq_0_iff_dvd by simp_all
  ultimately have "365 * (y - 1970) + 365 + (y - 1968) div 4 - (y - 1900) div 100 + (y - 1600) div 400
      = days_before y + days_in_year y"
    unfolding days_before_def days_in_year_def leap_def by (rule leap_rule)
  moreover have "y + 1 - 1969 = y - 1968" "y + 1 - 1901 = y - 1900" "y + 1 - 1601 = y - 1600"
    "365 * (y + 1 - 1970) = 365 * (y - 1970) + 365" by simp_all
  ultimately show ?thesis by (simp only: days_before_def)
qed

lemma days_before_epoch [simp]: "days_before 1970 = 0"
  by (simp add: days_before_def)

lemma civil_year_correct:
  "civil_year y d = (y', d') \<Longrightarrow> days_before y' + d' = days_before y + d \<and> 0 \<le> d' \<and> d' < days_in_year y'"
proof (induction y d rule: civil_year.induct)
  case (1 y d)
  consider "d < 0" | "0 \<le> d" "d < days_in_year y" | "0 \<le> d" "\<not> d < days_in_year y" by linarith
  then show ?case
  proof cases
    case 1
    with "1.prems" have "civil_year (y - 1) (d + days_in_year (y - 1)) = (y', d')"
      by (subst (asm) civil_year.simps) simp
    with "1.IH"(1) [OF 1] days_before_step [of "y - 1"] show ?thesis by simp
  next
    case 2
    with "1.prems" show ?thesis by (subst (asm) civil_year.simps) simp
  next
    case 3
    with "1.prems" have "civil_year (y + 1) (d - days_in_year y) = (y', d')"
      by (subst (asm) civil_year.simps) simp
    with "1.IH"(2) [OF _ 3(2)] 3(1) days_before_step [of y] show ?thesis by simp
  qed
qed

lemma month_of_correct:
  "month_of ls m d = (m', d') \<Longrightarrow> 0 \<le> d \<Longrightarrow> d < sum_list ls
     \<Longrightarrow> m \<le> m' \<and> nat (m' - m) < length ls \<and> 0 \<le> d' \<and> d' < ls ! nat (m' - m)
       \<and> d = sum_list (take (nat (m' - m)) ls) + d'"
proof (induction ls arbitrary: m d)
  case Nil
  then show ?case by simp
next
  case (Cons l ls)
  show ?case
  proof (cases "d < l")
    case True
    with Cons.prems show ?thesis by simp
  next
    case False
    with Cons.prems Cons.IH [of "m + 1" "d - l"]
    have IH: "m + 1 \<le> m' \<and> nat (m' - (m + 1)) < length ls \<and> 0 \<le> d' \<and> d' < ls ! nat (m' - (m + 1))
       \<and> d - l = sum_list (take (nat (m' - (m + 1))) ls) + d'" by simp
    then have "nat (m' - m) = Suc (nat (m' - (m + 1)))" by linarith
    with IH show ?thesis by simp
  qed
qed

lemma month_lengths_sum: "sum_list (month_lengths y) = days_in_year y"
  by (simp add: month_lengths_def days_in_year_def)

lemma clock_split: "rest div 3600 * 3600 + rest div 60 mod 60 * 60 + rest mod 60 = rest" for rest :: int
proof -
  have "rest div 3600 = rest div 60 div 60" by (simp add: zdiv_zmult2_eq [symmetric])
  moreover have "rest div 60 div 60 * 60 + rest div 60 mod 60 = rest div 60" by (rule div_mult_mod_eq)
  moreover have "rest div 60 * 60 + rest mod 60 = rest" by (rule div_mult_mod_eq)
  ultimately show ?thesis by linarith
qed

text \<open>The fields are those of a calendar, and denote the time they were made from.\<close>

lemma gmtime_correct: "calendar_fields (gmtime t)" "seconds_of (gmtime t) = t"
proof -
  obtain y yday where y: "civil_year 1970 (t div 86400) = (y, yday)" by (cases "civil_year 1970 (t div 86400)")
  obtain m d where m: "month_of (month_lengths y) 0 yday = (m, d)" by (cases "month_of (month_lengths y) 0 yday")
  have yy: "days_before y + yday = t div 86400" "0 \<le> yday" "yday < days_in_year y"
    using civil_year_correct [OF y] by simp_all
  then have mm: "0 \<le> m" "nat m < 12" "0 \<le> d" "d < month_lengths y ! nat m"
    "yday = sum_list (take (nat m) (month_lengths y)) + d"
    using month_of_correct [OF m] by (simp_all add: month_lengths_sum) (simp add: month_lengths_def)
  let ?r = "t mod 86400"
  have g: "gmtime t = \<lparr>tm_sec = ?r mod 60, tm_min = ?r div 60 mod 60, tm_hour = ?r div 3600,
          tm_mday = d + 1, tm_mon = m, tm_year = y - 1900\<rparr>"
    by (simp add: gmtime_def y m Let_def)
  have "0 \<le> ?r" "?r < 86400" by simp_all
  then have "0 \<le> ?r div 3600" "?r div 3600 < 24"
    by (simp_all add: pos_imp_zdiv_nonneg_iff div_less_iff_less_mult)
  moreover have "x mod 60 \<le> 59" for x :: int using pos_mod_bound [of 60 x] by linarith
  moreover have "m < 12" using mm(1,2) by simp
  ultimately show "calendar_fields (gmtime t)"
    using mm(1,3,4) by (simp add: g calendar_fields_def)
  have "seconds_of (gmtime t) = (t div 86400) * 86400 + (?r div 3600 * 3600 + ?r div 60 mod 60 * 60 + ?r mod 60)"
    using yy(1) mm(5) by (simp add: g seconds_of_def)
  then show "seconds_of (gmtime t) = t" unfolding clock_split by simp
qed

lemma days_before_mono: "0 \<le> n \<Longrightarrow> days_before y + 365 * n \<le> days_before (y + n)"
proof (induction n rule: int_ge_induct)
  case (step i)
  have "days_before (y + (i + 1)) = days_before (y + i) + days_in_year (y + i)"
    using days_before_step [of "y + i"] by (simp add: add.assoc)
  with step days_in_year_bounds(1) [of "y + i"] show ?case by simp
qed simp

lemma gmtime_year: "0 \<le> t \<Longrightarrow> t < 253402300800 \<Longrightarrow> 70 \<le> tm_year (gmtime t) \<and> tm_year (gmtime t) \<le> 8099"
proof -
  assume t: "0 \<le> t" "t < 253402300800"
  obtain y yday where y: "civil_year 1970 (t div 86400) = (y, yday)" by (cases "civil_year 1970 (t div 86400)")
  have yy: "days_before y + yday = t div 86400" "0 \<le> yday" "yday < days_in_year y"
    using civil_year_correct [OF y] by simp_all
  have year: "tm_year (gmtime t) = y - 1900" by (simp add: gmtime_def y Let_def split: prod.split)
  have "1970 \<le> y"
  proof (rule ccontr)
    assume "\<not> 1970 \<le> y"
    with days_before_mono [of "1970 - (y + 1)" "y + 1"] have "days_before (y + 1) \<le> 0" by simp
    with yy days_before_step [of y] t(1) show False by (simp add: pos_imp_zdiv_neg_iff [symmetric])
  qed
  moreover have "y < 10000"
  proof (rule ccontr)
    assume "\<not> y < 10000"
    then have "days_before 10000 \<le> days_before y" using days_before_mono [of "y - 10000" 10000] by simp
    moreover have "days_before 10000 = 2932897" by (simp add: days_before_def)
    ultimately have "2932897 \<le> t div 86400" using yy by simp
    with t(2) show False by simp
  qed
  ultimately show ?thesis by (simp add: year)
qed

end
