(* ===== verification/Logger.thy ===== *)
theory Logger
  imports Config Handlers Calendar
begin

text \<open>
  Structured logging: \<^verbatim>\<open>src/logging/logger.hpp\<close> and \<^verbatim>\<open>src/logging/logger.cpp\<close>. The state of the
  logging library is its level and its formatter; the thread-local request id is a value. The JSON
  library's \<^verbatim>\<open>dump\<close> is an argument; the calendar is that of \<open>Calendar\<close>.
\<close>

datatype log_level = Trace | Debug | Info | Warn | Err | Critical

text \<open>Levels in the order of severity; a message is written when its level is at least the one set.\<close>

primrec severity :: "log_level \<Rightarrow> nat" where
  "severity Trace = 0"
| "severity Debug = 1"
| "severity Info = 2"
| "severity Warn = 3"
| "severity Err = 4"
| "severity Critical = 5"

lemma severity_inject [simp]: "severity k = severity l \<longleftrightarrow> k = l"
  by (cases k; cases l) simp_all

instantiation log_level :: linorder
begin

definition less_eq_log_level :: "log_level \<Rightarrow> log_level \<Rightarrow> bool" where
  "less_eq_log_level k l \<longleftrightarrow> severity k \<le> severity l"

definition less_log_level :: "log_level \<Rightarrow> log_level \<Rightarrow> bool" where
  "less_log_level k l \<longleftrightarrow> severity k < severity l"

instance
  by standard (auto simp: less_eq_log_level_def less_log_level_def)

end

definition parse_log_level :: "string \<Rightarrow> log_level" where
  "parse_log_level level =
     (if level = ''trace'' then Trace
      else if level = ''debug'' then Debug
      else if level = ''info'' then Info
      else if level = ''warn'' then Warn
      else if level = ''error'' then Err
      else if level = ''critical'' then Critical
      else Info)"

datatype formatter = Json_Formatter | Default_Pattern

record logging_state =
  lg_level :: log_level
  lg_formatter :: formatter
  lg_request_id :: string

definition set_request_id :: "string \<Rightarrow> logging_state \<Rightarrow> logging_state" where
  "set_request_id i st = st\<lparr>lg_request_id := i\<rparr>"

definition get_request_id :: "logging_state \<Rightarrow> string" where
  "get_request_id st = lg_request_id st"

definition should_log :: "logging_state \<Rightarrow> log_level \<Rightarrow> bool" where
  "should_log st level \<longleftrightarrow> lg_level st \<le> level"

definition logging_initialize :: "ServerConfig \<Rightarrow> logging_state \<Rightarrow> logging_state" where
  "logging_initialize cfg st =
     (let st = st\<lparr>lg_level := parse_log_level (Config.log_level cfg)\<rparr>
      in if log_format cfg = ''json'' then st\<lparr>lg_formatter := Json_Formatter\<rparr>
         else st\<lparr>lg_formatter := Default_Pattern\<rparr>)"

subsection \<open>The JSON formatter\<close>

text \<open>\<^verbatim>\<open>%0<w>d\<close>: decimal output padded with zeros to the width, after the sign.\<close>

definition pad_int :: "nat \<Rightarrow> int \<Rightarrow> string" where
  "pad_int w i =
     (let digits = nat_to_string (nat \<bar>i\<bar>) in
      if i < 0 then CHR ''-'' # replicate (w - 1 - length digits) (CHR ''0'') @ digits
      else replicate (w - length digits) (CHR ''0'') @ digits)"

text \<open>The time is in nanoseconds since the epoch; the two casts truncate.\<close>

definition format_timestamp :: "int \<Rightarrow> string" where
  "format_timestamp epoch =
     (let millis = trunc_div epoch 1000000;
          secs = trunc_div millis 1000;
          ms = millis - secs * 1000;
          gmt = gmtime secs
      in pad_int 4 (tm_year gmt + 1900) @ ''-'' @ pad_int 2 (tm_mon gmt + 1) @ ''-''
         @ pad_int 2 (tm_mday gmt) @ ''T'' @ pad_int 2 (tm_hour gmt) @ '':'' @ pad_int 2 (tm_min gmt)
         @ '':'' @ pad_int 2 (tm_sec gmt) @ ''.'' @ pad_int 3 ms @ ''Z'')"

record log_msg =
  msg_time :: int
  msg_level_name :: string
  msg_logger_name :: string
  msg_payload :: string

definition log_document :: "log_msg \<Rightarrow> string \<Rightarrow> json" where
  "log_document msg request_id =
     JObject ([(''timestamp'', JString (format_timestamp (msg_time msg))),
        (''level'', JString (msg_level_name msg)),
        (''component'', JString (if length (msg_logger_name msg) > 0 then msg_logger_name msg else ''server'')),
        (''message'', JString (msg_payload msg))]
      @ (if request_id \<noteq> [] then [(''request_id'', JString request_id)] else []))"

definition json_format :: "'j json_library \<Rightarrow> log_msg \<Rightarrow> string \<Rightarrow> string \<Rightarrow> string" where
  "json_format lib msg request_id dest =
     dest @ json_dump lib (log_document msg request_id) @ [CHR 0x0A]"

subsection \<open>Lemmas\<close>

lemma length_nat_to_string: "n < 10 ^ Suc k \<Longrightarrow> length (nat_to_string n) \<le> Suc k"
proof (induction k arbitrary: n)
  case 0
  then show ?case by (subst nat_to_string.simps) simp
next
  case (Suc k)
  have "n div 10 < 10 ^ Suc k" using Suc.prems by (simp add: less_mult_imp_div_less mult.commute)
  then have "length (nat_to_string (n div 10)) \<le> Suc k" by (rule Suc.IH)
  then show ?case by (subst nat_to_string.simps) simp
qed

lemma length_pad_int: "0 \<le> i \<Longrightarrow> i < 10 ^ Suc k \<Longrightarrow> length (pad_int (Suc k) i) = Suc k"
proof -
  assume i: "0 \<le> i" "i < 10 ^ Suc k"
  then have "nat i < 10 ^ Suc k" by (simp add: nat_less_iff)
  then have "length (nat_to_string (nat i)) \<le> Suc k" by (rule length_nat_to_string)
  with i show ?thesis by (simp add: pad_int_def Let_def)
qed

lemma parse_valid_level:
  "valid_config cfg \<Longrightarrow> parse_log_level (Config.log_level cfg) = Info \<longleftrightarrow> Config.log_level cfg = ''info''"
  by (auto simp: valid_config_def parse_log_level_def)

text \<open>Errors are written under every valid configuration but the one that asks for critical messages
  only.\<close>

lemma errors_written:
  "valid_config cfg \<Longrightarrow> should_log (logging_initialize cfg st) Err \<longleftrightarrow> Config.log_level cfg \<noteq> ''critical''"
  by (auto simp: should_log_def logging_initialize_def valid_config_def parse_log_level_def
      less_eq_log_level_def Let_def)

lemma pad_lengths:
  "0 \<le> i \<Longrightarrow> i \<le> 99 \<Longrightarrow> length (pad_int 2 i) = 2"
  "0 \<le> i \<Longrightarrow> i \<le> 999 \<Longrightarrow> length (pad_int 3 i) = 3"
  "0 \<le> i \<Longrightarrow> i \<le> 9999 \<Longrightarrow> length (pad_int 4 i) = 4"
  using length_pad_int [of i 1] length_pad_int [of i 2] length_pad_int [of i 3]
  by (simp_all add: numeral_eq_Suc)

lemma month_length_le: "i < 12 \<Longrightarrow> month_lengths y ! i \<le> 31"
proof -
  assume "i < 12"
  then have "month_lengths y ! i \<in> set (month_lengths y)" by (intro nth_mem) (simp add: month_lengths_def)
  then show ?thesis by (auto simp: month_lengths_def split: if_splits)
qed

lemma millis_range: "0 \<le> m \<Longrightarrow> 0 \<le> m - trunc_div m 1000 * 1000 \<and> m - trunc_div m 1000 * 1000 \<le> 999"
proof -
  assume m: "0 \<le> m"
  have "trunc_div m 1000 = m div 1000" using m by (simp add: trunc_div_nonneg)
  moreover have "m - m div 1000 * 1000 = m mod 1000" by (simp add: minus_div_mult_eq_mod)
  ultimately show ?thesis by simp
qed

subsection \<open>Properties\<close>

text \<open>C40. Time stamps are exact: until the end of the year 9999 the stamp of a log line is the text
  \<open>YYYY-MM-DDThh:mm:ss.mmmZ\<close>, always 24 characters, of calendar fields in their ranges that denote,
  with the milliseconds, the time of the message down to the millisecond.\<close>

theorem log_timestamp_exact:
  assumes "0 \<le> epoch" and "epoch < 253402300800 * 1000000000"
  shows "\<exists>f ms. format_timestamp epoch = pad_int 4 (tm_year f + 1900) @ ''-'' @ pad_int 2 (tm_mon f + 1)
      @ ''-'' @ pad_int 2 (tm_mday f) @ ''T'' @ pad_int 2 (tm_hour f) @ '':'' @ pad_int 2 (tm_min f)
      @ '':'' @ pad_int 2 (tm_sec f) @ ''.'' @ pad_int 3 ms @ ''Z''
    \<and> calendar_fields f \<and> 0 \<le> ms \<and> ms \<le> 999 \<and> seconds_of f * 1000 + ms = epoch div 1000000
    \<and> length (format_timestamp epoch) = 24"
proof -
  let ?millis = "trunc_div epoch 1000000"
  let ?secs = "trunc_div ?millis 1000"
  let ?f = "gmtime ?secs" and ?ms = "?millis - ?secs * 1000"
  have millis: "?millis = epoch div 1000000" using assms(1) by (simp add: trunc_div_nonneg)
  have pos: "0 \<le> ?millis" using assms(1) by (simp add: trunc_div_nonneg pos_imp_zdiv_nonneg_iff)
  then have secs: "?secs = epoch div 1000000 div 1000" unfolding millis by (rule trunc_div_nonneg) simp
  then have range: "0 \<le> ?secs" "?secs < 253402300800"
    using assms by (simp_all add: pos_imp_zdiv_nonneg_iff div_less_iff_less_mult)
  have f: "format_timestamp epoch = pad_int 4 (tm_year ?f + 1900) @ ''-'' @ pad_int 2 (tm_mon ?f + 1)
      @ ''-'' @ pad_int 2 (tm_mday ?f) @ ''T'' @ pad_int 2 (tm_hour ?f) @ '':'' @ pad_int 2 (tm_min ?f)
      @ '':'' @ pad_int 2 (tm_sec ?f) @ ''.'' @ pad_int 3 ?ms @ ''Z''"
    by (simp only: format_timestamp_def Let_def)
  have ms: "0 \<le> ?ms" "?ms \<le> 999" using millis_range [OF pos] by simp_all
  have cal: "calendar_fields ?f" by (rule gmtime_correct)
  have year: "0 \<le> tm_year ?f + 1900" "tm_year ?f + 1900 \<le> 9999" using gmtime_year [OF range] by simp_all
  have "nat (tm_mon ?f) < 12" using cal unfolding calendar_fields_def by linarith
  from month_length_le [OF this, of "tm_year ?f + 1900"] cal have day: "tm_mday ?f \<le> 99"
    unfolding calendar_fields_def by linarith
  have "length (format_timestamp epoch) = 24"
    unfolding f using cal ms year day by (simp add: calendar_fields_def pad_lengths)
  moreover have "seconds_of ?f * 1000 + ?ms = epoch div 1000000"
    using millis by (simp add: gmtime_correct(2))
  ultimately show ?thesis using f cal ms by blast
qed

theorem log_timestamp_exact_witness:
  "length (format_timestamp 1775007000123000000) = 24"
  using log_timestamp_exact [of 1775007000123000000] by auto

text \<open>The comment's own example.\<close>

lemma log_timestamp_example: "format_timestamp 1775007000000000000 = ''2026-04-01T01:30:00.000Z''"
  by code_simp

end
