(* ===== verification/MainProgram.thy ===== *)
theory MainProgram
  imports HttpAdapter Logger
begin

text \<open>
  The program: \<^verbatim>\<open>src/main.cpp\<close>. The command line, the start-up sequence with its exit codes, and
  the interplay of the signal handler with the start and the end of the listener, as a step
  relation over the phases of \<^verbatim>\<open>main\<close>.
\<close>

subsection \<open>Command line\<close>

datatype command_line = Print_Version | Print_Usage | Missing_Path | Run string

text \<open>The loop over the arguments after the program's name.\<close>

fun parse_args :: "string \<Rightarrow> string list \<Rightarrow> command_line" where
  "parse_args path0 [] = Run path0"
| "parse_args path0 (a # rest) =
     (if a = ''--version'' then Print_Version
      else if a = ''--help'' then Print_Usage
      else if a = ''--config'' then
        (case rest of [] \<Rightarrow> Missing_Path | path # rest' \<Rightarrow> parse_args path rest')
      else parse_args path0 rest)"

text \<open>What is printed for the command line, on the standard output and on the standard error; a run
  prints nothing of its own before the log is set up.\<close>

definition newline :: string where
  "newline = [CHR 0x0A]"

definition print_usage :: "string \<Rightarrow> string" where
  "print_usage program =
     ''Usage: '' @ program @ '' [OPTIONS]'' @ newline
     @ newline @ ''Options:'' @ newline
     @ ''  --config <path>   Path to TOML config file (default: config/server.toml)'' @ newline
     @ ''  --version         Print version and exit'' @ newline
     @ ''  --help            Print this help and exit'' @ newline
     @ newline @ ''Environment variables (TTS_* prefix) override config file values.'' @ newline
     @ ''See config/server.toml for all available options.'' @ newline"

fun main_output :: "string \<Rightarrow> string \<Rightarrow> command_line \<Rightarrow> string \<times> string" where
  "main_output version program Print_Version = (''voxtral-server v'' @ version @ newline, [])"
| "main_output version program Print_Usage = (print_usage program, [])"
| "main_output version program Missing_Path = ([], ''Error: --config requires a path argument'' @ newline)"
| "main_output version program (Run path) = ([], [])"

subsection \<open>Start-up\<close>

text \<open>The outside of the program: files, configuration parser, environment, engine, clock, and
  whether the listener bound its port.\<close>

record 'ctx outside =
  out_fs :: file_system
  out_file_exists :: "string \<Rightarrow> bool"
  out_parse_file :: "string \<Rightarrow> toml_table option"
  out_env :: env
  out_engine :: "'ctx engine option"
  out_now :: time_point
  out_listen_ok :: bool

text \<open>The exit code, and the server the listener was started on, if it was.\<close>

definition main_serve :: "'ctx outside \<Rightarrow> ServerConfig \<Rightarrow> int \<times> 'ctx VoxtralBackend TtsServer option" where
  "main_serve out cfg =
     (case validate cfg of
        Inl _ \<Rightarrow> (1, None)
      | Inr _ \<Rightarrow>
          if require_auth cfg \<and> api_key cfg = [] then (1, None)
          else
            let (backend_ok, backend) = voxtral_initialize (out_fs out) (out_engine out)
                   (model_path cfg) new_VoxtralBackend in
            if \<not> backend_ok then (1, None)
            else
              let tts_server = new_TtsServer cfg (Some backend) (Some voice_catalog) (out_now out);
                  (server_ok, tts_server) = server_initialize voxtral_is_ready tts_server in
              if \<not> server_ok then (1, None)
              else (if out_listen_ok out then 0 else 1, Some tts_server))"

definition main_program ::
  "'ctx outside \<Rightarrow> string list \<Rightarrow> int \<times> 'ctx VoxtralBackend TtsServer option" where
  "main_program out args =
     (let path0 = (case out_env out ''TTS_CONFIG_PATH'' of
            Some env_path \<Rightarrow> env_path | None \<Rightarrow> ''config/server.toml'') in
      case parse_args path0 args of
        Print_Version \<Rightarrow> (0, None)
      | Print_Usage \<Rightarrow> (0, None)
      | Missing_Path \<Rightarrow> (1, None)
      | Run path \<Rightarrow>
          main_serve out (from_file_and_env (out_file_exists out) (out_parse_file out) (out_env out) path))"

subsection \<open>Signals\<close>

text \<open>Where \<^verbatim>\<open>main\<close> is: before the handlers are installed, with them, with the adapter published,
  inside \<^verbatim>\<open>start\<close> with the flag set, back from it, and with the adapter withdrawn.\<close>

datatype phase = Starting | Handlers_Installed | Adapter_Published | Listening | Returned | Withdrawn

text \<open>The phases in the order \<^verbatim>\<open>main\<close> goes through them.\<close>

primrec phase_rank :: "phase \<Rightarrow> nat" where
  "phase_rank Starting = 0"
| "phase_rank Handlers_Installed = 1"
| "phase_rank Adapter_Published = 2"
| "phase_rank Listening = 3"
| "phase_rank Returned = 4"
| "phase_rank Withdrawn = 5"

lemma phase_rank_inject [simp]: "phase_rank p = phase_rank q \<longleftrightarrow> p = q"
  by (cases p; cases q) simp_all

instantiation phase :: linorder
begin

definition less_eq_phase :: "phase \<Rightarrow> phase \<Rightarrow> bool" where
  "less_eq_phase p q \<longleftrightarrow> phase_rank p \<le> phase_rank q"

definition less_phase :: "phase \<Rightarrow> phase \<Rightarrow> bool" where
  "less_phase p q \<longleftrightarrow> phase_rank p < phase_rank q"

instance
  by standard (auto simp: less_eq_phase_def less_phase_def)

end

lemma phase_le_Withdrawn [simp]: "p \<le> Withdrawn"
  by (cases p) (simp_all add: less_eq_phase_def)

record process =
  proc_phase :: phase
  shutdown_requested :: bool
  adapter_set :: bool
  proc_listener :: listener

definition new_process :: process where
  "new_process = \<lparr>proc_phase = Starting, shutdown_requested = False, adapter_set = False,
     proc_listener = \<lparr>running = False, stop_requested = False\<rparr>\<rparr>"

definition signal_handler :: "process \<Rightarrow> process" where
  "signal_handler p =
     (if \<not> shutdown_requested p then
        let p = p\<lparr>shutdown_requested := True\<rparr> in
        if adapter_set p then p\<lparr>proc_listener := listener_stop (proc_listener p)\<rparr> else p
      else p)"

inductive main_step :: "process \<Rightarrow> process \<Rightarrow> bool" where
  Install: "proc_phase p = Starting \<Longrightarrow> main_step p (p\<lparr>proc_phase := Handlers_Installed\<rparr>)"
| Publish: "proc_phase p = Handlers_Installed \<Longrightarrow>
     main_step p (p\<lparr>proc_phase := Adapter_Published, adapter_set := True\<rparr>)"
| Listen: "proc_phase p = Adapter_Published \<Longrightarrow>
     main_step p (p\<lparr>proc_phase := Listening, proc_listener := listener_begin (proc_listener p)\<rparr>)"
| Listen_Ends: "proc_phase p = Listening \<Longrightarrow>
     main_step p (p\<lparr>proc_phase := Returned, proc_listener := listener_end (proc_listener p)\<rparr>)"
| Withdraw: "proc_phase p = Returned \<Longrightarrow>
     main_step p (p\<lparr>proc_phase := Withdrawn, adapter_set := False\<rparr>)"
| Signal: "proc_phase p \<noteq> Starting \<Longrightarrow> main_step p (signal_handler p)"

inductive_cases main_stepE: "main_step p p'"

subsection \<open>Lemmas\<close>

text \<open>No step goes back: a signal leaves the phase as it is, every other step goes on to the next.\<close>

lemma main_step_phase: "main_step p p' \<Longrightarrow> proc_phase p \<le> proc_phase p'"
  by (cases rule: main_step.cases) (auto simp: signal_handler_def less_eq_phase_def Let_def)

lemma main_steps_phase: "main_step\<^sup>*\<^sup>* p p' \<Longrightarrow> proc_phase p \<le> proc_phase p'"
  by (induction rule: rtranclp_induct) (auto dest: main_step_phase)

lemma main_serve_result:
  "main_serve out cfg =
     (if valid_config cfg \<and> usable_model_path (out_fs out) (model_path cfg)
      then (if out_listen_ok out then 0 else 1,
            Some (snd (server_initialize voxtral_is_ready (new_TtsServer cfg
              (Some (snd (voxtral_initialize (out_fs out) (out_engine out) (model_path cfg) new_VoxtralBackend)))
              (Some voice_catalog) (out_now out)))))
      else (1, None))"
proof (cases "valid_config cfg")
  case False
  then obtain e where "validate cfg = Inl e" using validate_valid [of cfg] by (cases "validate cfg") auto
  with False show ?thesis by (simp add: main_serve_def)
next
  case True
  then have v: "validate cfg = Inr ()" by (simp add: validate_valid)
  have key: "\<not> (require_auth cfg \<and> api_key cfg = [])" using True by (simp add: valid_config_def)
  obtain ok b where i: "voxtral_initialize (out_fs out) (out_engine out) (model_path cfg) new_VoxtralBackend = (ok, b)"
    by (cases "voxtral_initialize (out_fs out) (out_engine out) (model_path cfg) new_VoxtralBackend")
  have ok: "ok \<longleftrightarrow> usable_model_path (out_fs out) (model_path cfg)"
    using voxtral_initialize_ok [of "out_fs out" "out_engine out" "model_path cfg" new_VoxtralBackend] i by simp
  show ?thesis
  proof (cases ok)
    case False
    with v key i ok True show ?thesis by (simp add: main_serve_def)
  next
    case okT: True
    then have "voxtral_is_ready b" using voxtral_initialize_cases [OF i] by simp
    moreover have "valid_config (srv_config (new_TtsServer cfg (Some b) (Some voice_catalog) (out_now out)))"
      "server_backend (new_TtsServer cfg (Some b) (Some voice_catalog) (out_now out)) = Some b"
      using True by (simp_all add: new_TtsServer_def server_backend_def Let_def)
    ultimately obtain s where "server_initialize voxtral_is_ready
        (new_TtsServer cfg (Some b) (Some voice_catalog) (out_now out)) = (True, s)"
      using initialize_succeeds by metis
    with v key i ok okT True show ?thesis by (simp add: main_serve_def)
  qed
qed

text \<open>A program that only prints serves nothing; it fails exactly when it prints an error.\<close>

lemma printing_serves_nothing:
  assumes "main_output version program (parse_args (case out_env out ''TTS_CONFIG_PATH'' of Some p \<Rightarrow> p
      | None \<Rightarrow> ''config/server.toml'') args) = (text, err)" and "text \<noteq> [] \<or> err \<noteq> []"
  shows "main_program out args = (if err = [] then 0 else 1, None)"
  using assms
  by (cases "parse_args (case out_env out ''TTS_CONFIG_PATH'' of Some p \<Rightarrow> p
      | None \<Rightarrow> ''config/server.toml'') args") (auto simp: main_program_def)

lemma lost_step:
  assumes "main_step p p'" and "shutdown_requested p" and "\<not> stop_requested (proc_listener p)"
  shows "shutdown_requested p' \<and> \<not> stop_requested (proc_listener p')"
  using assms
  by cases (auto simp: signal_handler_def listener_begin_def listener_end_def Let_def)

text \<open>While the listener runs the handlers are in place, and the adapter is published.\<close>

definition process_inv :: "process \<Rightarrow> bool" where
  "process_inv p \<longleftrightarrow>
     (adapter_set p \<longleftrightarrow> proc_phase p \<in> {Adapter_Published, Listening, Returned})
     \<and> (running (proc_listener p) \<longleftrightarrow> proc_phase p = Listening)
     \<and> (stop_requested (proc_listener p) \<longrightarrow> shutdown_requested p)"

lemma process_step_inv: "main_step p p' \<Longrightarrow> process_inv p \<Longrightarrow> process_inv p'"
  by (induction rule: main_step.induct)
    (auto simp: process_inv_def signal_handler_def listener_begin_def listener_end_def
      listener_stop_def Let_def)

lemma process_new_inv: "process_inv new_process"
  by (simp add: process_inv_def new_process_def)

interpretation process_life: step_invariant main_step process_inv
  by unfold_locales (rule process_step_inv)

lemma process_reachable_inv: "main_step\<^sup>*\<^sup>* new_process p \<Longrightarrow> process_inv p"
  by (rule process_life.inv_steps [OF _ process_new_inv])

interpretation lost_signal: step_invariant main_step
    "\<lambda>p. shutdown_requested p \<and> \<not> stop_requested (proc_listener p)"
  by unfold_locales (blast dest: lost_step)

lemma signal_effect:
  assumes "process_inv p" and "\<not> shutdown_requested p"
  shows "shutdown_requested (signal_handler p)
    \<and> (stop_requested (proc_listener (signal_handler p)) \<longleftrightarrow> proc_phase p = Listening)"
  using assms by (auto simp: signal_handler_def process_inv_def listener_stop_def Let_def)

subsection \<open>Properties\<close>

text \<open>C33. What the program does with a command line that asks it to run: it starts the listener
  exactly when the loaded configuration is valid and the model path names an existing file or
  directory, always on a server that is ready and has that configuration; and its exit code is 0
  exactly when the listener was started and bound its port.\<close>

theorem main_serves_exactly:
  assumes "parse_args (case out_env out ''TTS_CONFIG_PATH'' of Some p \<Rightarrow> p | None \<Rightarrow> ''config/server.toml'') args
      = Run path"
    and "cfg = from_file_and_env (out_file_exists out) (out_parse_file out) (out_env out) path"
    and "main_program out args = (code, served)"
  shows "(served \<noteq> None \<longleftrightarrow> valid_config cfg \<and> usable_model_path (out_fs out) (model_path cfg))
    \<and> (\<forall>s. served = Some s \<longrightarrow> server_is_ready voxtral_is_ready s \<and> srv_config s = cfg)
    \<and> (code = 0 \<longleftrightarrow> served \<noteq> None \<and> out_listen_ok out)"
proof -
  have m: "main_serve out cfg = (code, served)"
    using assms by (simp add: main_program_def)
  show ?thesis
  proof (cases "valid_config cfg \<and> usable_model_path (out_fs out) (model_path cfg)")
    case False
    with m show ?thesis by (auto simp: main_serve_result)
  next
    case True
    let ?b = "snd (voxtral_initialize (out_fs out) (out_engine out) (model_path cfg) new_VoxtralBackend)"
    let ?s = "new_TtsServer cfg (Some ?b) (Some voice_catalog) (out_now out)"
    have "voxtral_is_ready ?b"
      using True voxtral_initialize_ok [of "out_fs out" "out_engine out" "model_path cfg" new_VoxtralBackend]
        voxtral_initialize_cases [OF surjective_pairing, of "out_fs out" "out_engine out" "model_path cfg" new_VoxtralBackend]
      by blast
    moreover have "1 \<le> max_queue_depth cfg" "1 \<le> request_timeout_seconds cfg"
      using True by (simp_all add: valid_config_def)
    ultimately have "server_is_ready voxtral_is_ready (snd (server_initialize voxtral_is_ready ?s))
        \<and> srv_config (snd (server_initialize voxtral_is_ready ?s)) = cfg"
      by (simp add: server_initialize_def new_TtsServer_def server_backend_def new_InferencePool_def
          server_is_ready_def is_accepting_def Let_def)
    with m True show ?thesis by (auto simp: main_serve_result split: if_splits)
  qed
qed

definition example_outside :: "nat outside" where
  "example_outside = \<lparr>out_fs = example_fs, out_file_exists = (\<lambda>_. False), out_parse_file = (\<lambda>_. None),
     out_env = [''TTS_MODEL_PATH'' \<mapsto> ''m''], out_engine = None, out_now = 0, out_listen_ok = True\<rparr>"

theorem main_serves_exactly_witness:
  "fst (main_program example_outside [''--config'', ''c'']) = 0"
proof -
  let ?cfg = "from_file_and_env (\<lambda>_. False) (\<lambda>_. None) [''TTS_MODEL_PATH'' \<mapsto> ''m''] ''c''"
  have "valid_config ?cfg" "model_path ?cfg = ''m''"
    unfolding valid_config_def
    by (simp_all add: from_file_and_env_eq apply_env_overrides_eq file_config_def default_config_def
        env_text_def env_int_def env_bool_def)
  moreover have "usable_model_path example_fs ''m''"
    by (simp add: usable_model_path_def example_fs_def)
  moreover obtain code served where "main_program example_outside [''--config'', ''c''] = (code, served)"
    by (cases "main_program example_outside [''--config'', ''c'']")
  ultimately show ?thesis
    using main_serves_exactly [where out = example_outside and args = "[''--config'', ''c'']"
        and path = "''c''" and cfg = ?cfg and code = code and served = served]
    by (simp add: example_outside_def)
qed

text \<open>C34. The first signal: it stops the listener exactly when it arrives while the listener runs. One
  that arrives after the handlers are installed but before \<^verbatim>\<open>start\<close> has set its flag is lost for
  good: it marks the shutdown as requested, so that whatever happens afterwards, further signals
  included, the listener is never told to stop.\<close>

theorem first_signal_stops_or_is_lost:
  assumes "main_step\<^sup>*\<^sup>* new_process p" and "\<not> shutdown_requested p"
  shows "if proc_phase p = Listening then stop_requested (proc_listener (signal_handler p))
    else (\<forall>p'. main_step\<^sup>*\<^sup>* (signal_handler p) p' \<longrightarrow> \<not> stop_requested (proc_listener p'))"
proof -
  have "process_inv p" using assms(1) by (rule process_reachable_inv)
  from signal_effect [OF this assms(2)] lost_signal.inv_steps show ?thesis by auto
qed

lemma published_reachable:
  "main_step\<^sup>*\<^sup>* new_process (new_process\<lparr>proc_phase := Handlers_Installed\<rparr>)"
  by (rule r_into_rtranclp, rule main_step.Install) (simp add: new_process_def)

theorem first_signal_stops_or_is_lost_witness:
  "\<not> stop_requested (proc_listener (signal_handler (signal_handler
     (new_process\<lparr>proc_phase := Handlers_Installed\<rparr>))))"
proof -
  have "main_step (signal_handler (new_process\<lparr>proc_phase := Handlers_Installed\<rparr>))
      (signal_handler (signal_handler (new_process\<lparr>proc_phase := Handlers_Installed\<rparr>)))"
    by (rule main_step.Signal) (simp add: new_process_def signal_handler_def)
  then show ?thesis
    using first_signal_stops_or_is_lost [OF published_reachable] by (auto simp: new_process_def)
qed

end
