(* ===== verification/Independence.thy ===== *)
theory Independence
  imports RateLimit
begin

text \<open>
  The request limiter against a reference with no table: one counter for one client. Each client
  of the limiter gets, in any run with any other clients, the answers the reference gives it alone.
\<close>

subsection \<open>The reference: one client\<close>

text \<open>A window is dropped when it is older than a minute.\<close>

definition still :: "time_point \<Rightarrow> window option \<Rightarrow> window option" where
  "still u w = (case w of None \<Rightarrow> None | Some (c, s) \<Rightarrow> if u - s \<le> minute_span then Some (c, s) else None)"

definition counted :: "time_point \<Rightarrow> window option \<Rightarrow> window" where
  "counted t w = (case still t w of None \<Rightarrow> (1, t) | Some (c, s) \<Rightarrow> (Suc c, s))"

fun client_answers :: "nat \<Rightarrow> window option \<Rightarrow> time_point list \<Rightarrow> int list" where
  "client_answers limit w [] = []"
| "client_answers limit w (t # ts) =
     (let (c, s) = counted t w
      in (if c \<le> limit then 0 else 60 - (t - s) div ns_per_sec) # client_answers limit (Some (c, s)) ts)"

subsection \<open>The limiter's answers\<close>

fun limiter_answers :: "request_event list \<Rightarrow> RequestRateLimiter \<Rightarrow> (string \<times> int) list" where
  "limiter_answers [] limiter = []"
| "limiter_answers (e # es) limiter =
     (req_ip e, fst (request_call e limiter)) # limiter_answers es (request_hit e limiter)"

lemma still_still [simp]: "t \<le> u \<Longrightarrow> still u (still t w) = still u w"
  by (auto simp: still_def split: option.splits)

lemma still_later: "request_inv limit t limiter \<Longrightarrow> t \<le> u
    \<Longrightarrow> request_live limiter u k = still u (request_live limiter t k)"
  unfolding still_def by (rule request_window.live_later)

lemma entry_counted:
  assumes "request_live limiter t ip = still t w"
  shows "(requests (request_entry t t limiter ip), request_window_start (request_entry t t limiter ip)) = counted t w"
  using request_entry_live [of t limiter ip] assms
  by (auto simp: bump_def counted_def split: option.splits)

lemma answer_counted:
  assumes "request_well e" and "request_inv limit t limiter" and "1 \<le> limit" and "req_time e = t"
    and "request_live limiter t (req_ip e) = still t w" and "counted t w = (c, s)"
  shows "fst (request_call e limiter) = (if c \<le> limit then 0 else 60 - (t - s) div ns_per_sec)"
proof -
  let ?ip = "req_ip e" and ?o = "req_order e"
  let ?e = "request_entry t t limiter ?ip"
  have o: "is_reorder ?o" using assms(1) by (simp add: request_well_def)
  have d: "distinct_keys (request_ip_states limiter)" and m: "max_rpm limiter = limit"
    and st: "\<And>st. lookup (request_ip_states limiter) ?ip = Some st \<Longrightarrow> request_window_start st \<le> t"
    using assms(2) by (auto simp: request_inv_def)
  have e: "requests ?e = c" "request_window_start ?e = s"
    using entry_counted [OF assms(5)] assms(6) by simp_all
  have zero: "fst (check_request ?o t t ?ip limiter) = 0 \<longleftrightarrow> c \<le> limit"
    using check_request_result [OF o d, of ?ip t t] e m unfolding Let_def by auto
  have call: "fst (request_call e limiter) = fst (check_request ?o t t ?ip limiter)"
    using request_call_answer [OF assms(1) d] assms(3,4) m by simp
  show ?thesis
  proof (cases "c \<le> limit")
    case False
    then have "fst (check_request ?o t t ?ip limiter) \<noteq> 0" using zero by simp
    from check_request_refusal [OF o d st _ this] assms(3) m
    have "fst (check_request ?o t t ?ip limiter) = 60 - elapsed_seconds t ?e" "s \<le> t"
      unfolding Let_def e by simp_all
    with False show ?thesis by (simp add: call elapsed_seconds_def e to_seconds_nonneg)
  qed (use zero call in simp)
qed

lemma live_after_hit:
  assumes "request_well e" and "request_inv limit t limiter"
    and "request_live limiter (req_time e) ip = still (req_time e) w"
  shows "request_live (request_hit e limiter) (req_time e) ip
    = (if req_ip e = ip then Some (counted (req_time e) w) else still (req_time e) w)"
proof -
  have "distinct_keys (request_ip_states limiter)" using assms(2) by (simp add: request_inv_def)
  from request_hit_live [OF assms(1) this] assms(3) show ?thesis
    by (auto simp: bump_def counted_def split: option.splits)
qed

lemma counted_still:
  "counted t w = (c, s) \<Longrightarrow> still t (Some (c, s)) = Some (c, s)"
  by (auto simp: counted_def still_def minute_span_def ns_per_sec_def split: option.splits if_splits)

lemma answers_of_client:
  assumes "request_inv limit t limiter" and "request_live limiter t ip = still t w"
    and "sorted (t # map req_time es)" and "\<forall>e \<in> set es. request_well e" and "1 \<le> limit"
  shows "map snd (filter (\<lambda>a. fst a = ip) (limiter_answers es limiter))
    = client_answers limit w (map req_time (filter (\<lambda>e. req_ip e = ip) es))"
  using assms
proof (induction es arbitrary: t w limiter)
  case Nil
  then show ?case by simp
next
  case (Cons e es)
  let ?t = "req_time e" and ?l = "request_hit e limiter"
  have te: "t \<le> ?t" and o: "request_well e" and so: "sorted (?t # map req_time es)"
    using Cons.prems by auto
  have inv: "request_inv limit ?t limiter" using Cons.prems(1) te by (rule request_window.invar_later)
  have live: "request_live limiter ?t ip = still ?t w"
    using still_later [OF Cons.prems(1) te, of ip] Cons.prems(2) te by simp
  have inv': "request_inv limit ?t ?l" using request_window.invar_hit [OF inv order_refl o] .
  note live' = live_after_hit [OF o inv live]
  obtain c s where cs: "counted ?t w = (c, s)" by (cases "counted ?t w")
  show ?case
  proof (cases "req_ip e = ip")
    case True
    with live' cs have "request_live ?l ?t ip = still ?t (Some (c, s))" by (simp add: counted_still)
    from Cons.IH [OF inv' this so] Cons.prems(4,5) True cs answer_counted [OF o inv Cons.prems(5) refl _ cs] live
    show ?thesis by (simp add: request_hit_def)
  next
    case False
    with live' have "request_live ?l ?t ip = still ?t w" by simp
    from Cons.IH [OF inv' this so] Cons.prems(4,5) False show ?thesis by simp
  qed
qed

subsection \<open>Properties\<close>

text \<open>C19. The table makes no difference: in any run of the request limiter, with any number of clients,
  rehashes and sweeps, each address gets exactly the answers, waiting times included, that a single
  counter with a window of one minute would give to its requests alone.\<close>

theorem limiter_equals_one_counter_per_client:
  assumes "request_inv limit t limiter" and "request_live limiter t ip = None"
    and "sorted (t # map req_time es)" and "\<forall>e \<in> set es. request_well e" and "1 \<le> limit"
  shows "map snd (filter (\<lambda>a. fst a = ip) (limiter_answers es limiter))
    = client_answers limit None (map req_time (filter (\<lambda>e. req_ip e = ip) es))"
proof (rule answers_of_client [OF assms(1) _ assms(3-5)])
  show "request_live limiter t ip = still t None" using assms(2) by (simp add: still_def)
qed

theorem limiter_equals_one_counter_per_client_witness:
  "map snd (filter (\<lambda>a. fst a = ''a'') (limiter_answers
      [\<lparr>req_order = rev, req_now = 0, req_time = 1, req_ip = ''a''\<rparr>, \<lparr>req_order = rev, req_now = 2, req_time = 2, req_ip = ''b''\<rparr>,
       \<lparr>req_order = rev, req_now = 3000000001, req_time = 3000000001, req_ip = ''a''\<rparr>] (new_request_limiter 1))) = [0, 57]"
proof -
  let ?es = "[\<lparr>req_order = rev, req_now = 0, req_time = 1, req_ip = ''a''\<rparr>, \<lparr>req_order = rev, req_now = 2, req_time = 2, req_ip = ''b''\<rparr>,
       \<lparr>req_order = rev, req_now = 3000000001, req_time = 3000000001, req_ip = ''a''\<rparr>]"
  have "map snd (filter (\<lambda>a. fst a = ''a'') (limiter_answers ?es (new_request_limiter 1)))
      = client_answers 1 None (map req_time (filter (\<lambda>e. req_ip e = ''a'') ?es))"
    by (rule limiter_equals_one_counter_per_client [where t = 0]) simp_all
  then show ?thesis by (simp add: counted_def still_def minute_span_def ns_per_sec_def)
qed

end
