(* ===== verification/PoolSpec.thy ===== *)
theory PoolSpec
  imports Pool Transition
begin

text \<open>
  What the inference pool promises, apart from how it keeps it: a bounded first-in first-out
  service. The step relation of \<open>Pool\<close> simulates it, whatever the interleaving, the backend and the
  clock; and the worker's own steps cannot go on for ever.
\<close>

subsection \<open>The abstract service\<close>

text \<open>The jobs taken and not yet answered, the answers in the order they were given, and whether the
  service still takes jobs.\<close>

record fifo =
  pending :: "InferenceJob list"
  served :: "(InferenceJob \<times> answer \<times> time_point) list"
  closed :: bool

definition fifo_init :: fifo where
  "fifo_init = \<lparr>pending = [], served = [], closed = False\<rparr>"

text \<open>It takes a job while it is open and at most \<open>depth\<close> jobs are behind the first, answers the first
  one in a way that respects its deadline, and can be closed.\<close>

inductive fifo_step :: "int \<Rightarrow> fifo \<Rightarrow> fifo \<Rightarrow> bool" for depth where
  Enqueue: "\<not> closed f \<Longrightarrow> int (length (pending f)) \<le> depth \<Longrightarrow>
     fifo_step depth f (f\<lparr>pending := pending f @ [job]\<rparr>)"
| Serve: "pending f = job # rest \<Longrightarrow> answer_ok (job, a, t) \<Longrightarrow>
     fifo_step depth f (f\<lparr>pending := rest, served := served f @ [(job, a, t)]\<rparr>)"
| Close: "fifo_step depth f (f\<lparr>closed := True\<rparr>)"

inductive_cases fifo_stepE: "fifo_step depth f f'"

definition fifo_of :: "'b InferencePool \<times> history \<Rightarrow> fifo" where
  "fifo_of s = (case s of (p, h) \<Rightarrow>
     \<lparr>pending = in_hand (worker p) @ queue p, served = answers h, closed = \<not> accepting p\<rparr>)"

subsection \<open>The simulation\<close>

definition deep_inv :: "int \<Rightarrow> 'b InferencePool \<times> history \<Rightarrow> bool" where
  "deep_inv depth s \<longleftrightarrow> depth \<le> INT_MAX \<and> pool_inv depth s"

lemma in_hand_length: "length (in_hand w) \<le> 1"
  by (cases w) simp_all

lemma submit_simulates:
  assumes "submit now job p = (ok, p')" and "deep_inv depth (p, h)"
  shows "(fifo_step depth)\<^sup>=\<^sup>= (fifo_of (p, h)) (fifo_of (p', log_submit ok (stamp (timeout_seconds p) now job) h))"
proof (cases ok)
  case False
  then have "p' = p" using assms(1) by (auto simp: submit_def Let_def split: if_splits)
  with False show ?thesis by (simp add: log_submit_def)
next
  case True
  let ?job = "stamp (timeout_seconds p) now job"
  have acc: "accepting p" and lt: "size_to_int (length (queue p)) < max_depth p"
    and p': "p' = p\<lparr>queue := queue p @ [?job]\<rparr>"
    using assms(1) True by (auto simp: submit_def Let_def split: if_splits)
  have inv: "max_depth p = depth" "int (length (queue p)) \<le> INT_MAX"
    using assms(2) by (simp_all add: deep_inv_def pool_inv_defs)
  then have "size_to_int (length (queue p)) = int (length (queue p))"
    by (intro size_to_int_small) (simp add: INT_MAX_def)
  then have "int (length (pending (fifo_of (p, h)))) \<le> depth"
    using lt inv(1) in_hand_length [of "worker p"] by (simp add: fifo_of_def)
  moreover have "\<not> closed (fifo_of (p, h))" using acc by (simp add: fifo_of_def)
  ultimately have "fifo_step depth (fifo_of (p, h))
      ((fifo_of (p, h))\<lparr>pending := pending (fifo_of (p, h)) @ [?job]\<rparr>)" by (intro fifo_step.Enqueue)
  with True p' show ?thesis by (simp add: fifo_of_def log_submit_def)
qed

lemma work_simulates:
  assumes "worker_step synth now p = Some (act, p')" and "deep_inv depth (p, h)"
  shows "(fifo_step depth)\<^sup>=\<^sup>= (fifo_of (p, h)) (fifo_of (p', log_action now act h))"
proof (cases "\<exists>job a. act = Answered job a")
  case True
  then obtain job a where act: "act = Answered job a" by blast
  with assms(1) have hand: "in_hand (worker p) = [job]" "worker p' = Waiting" "queue p' = queue p"
      "accepting p' = accepting p"
    by (auto simp: worker_step_def split: worker.splits if_splits list.splits outcome.splits prod.splits)
  have "pool_inv depth (p, h)" using assms(2) by (simp add: deep_inv_def)
  then have "pool_inv depth (p', log_action now act h)" using assms(1) by (rule worker_inv)
  then have "answer_ok (job, a, now)" by (simp add: pool_inv_defs act log_action_def)
  moreover have "pending (fifo_of (p, h)) = job # queue p" using hand by (simp add: fifo_of_def)
  ultimately have "fifo_step depth (fifo_of (p, h)) ((fifo_of (p, h))\<lparr>pending := queue p,
      served := served (fifo_of (p, h)) @ [(job, a, now)]\<rparr>)" by (intro fifo_step.Serve)
  with hand act show ?thesis by (simp add: fifo_of_def log_action_def)
next
  case False
  with assms(1) have "fifo_of (p', log_action now act h) = fifo_of (p, h)"
    by (auto simp: worker_step_def fifo_of_def log_action_def
        split: worker.splits if_splits list.splits outcome.splits prod.splits)
  then show ?thesis by simp
qed

interpretation pool_fifo: simulation "pool_step synth" "deep_inv depth" "fifo_step depth" fifo_of
  for synth depth
proof
  fix s s' :: "'a InferencePool \<times> history"
  assume "pool_step synth s s'" "deep_inv depth s"
  then show "deep_inv depth s'" by (auto simp: deep_inv_def intro: pool_step_inv)
next
  fix s s' :: "'a InferencePool \<times> history"
  assume "pool_step synth s s'" "deep_inv depth s"
  then show "(fifo_step depth)\<^sup>=\<^sup>= (fifo_of s) (fifo_of s')"
  proof cases
    case (Submit now job p ok p' h)
    with submit_simulates [OF Submit(3)] \<open>deep_inv depth s\<close> show ?thesis by simp
  next
    case (Shutdown p h)
    have "fifo_step depth (fifo_of (p, h)) ((fifo_of (p, h))\<lparr>closed := True\<rparr>)" by (rule fifo_step.Close)
    with Shutdown show ?thesis by (simp add: fifo_of_def stop_accepting_def)
  next
    case (Work now p act p' h)
    with work_simulates [OF Work(3)] \<open>deep_inv depth s\<close> show ?thesis by simp
  qed
qed

lemma reachable_iff: "reachable synth p0 s \<longleftrightarrow> (pool_step synth)\<^sup>*\<^sup>* (p0, no_history) s"
proof
  show "reachable synth p0 s \<Longrightarrow> (pool_step synth)\<^sup>*\<^sup>* (p0, no_history) s"
    by (induction rule: reachable.induct) (auto intro: rtranclp.rtrancl_into_rtrancl)
  show "(pool_step synth)\<^sup>*\<^sup>* (p0, no_history) s \<Longrightarrow> reachable synth p0 s"
    by (induction rule: rtranclp_induct) (auto intro: reachable.intros)
qed

lemma new_pool_fifo: "new_InferencePool (Some b) depth timeout = Inr p \<Longrightarrow> fifo_of (p, no_history) = fifo_init"
  by (auto simp: new_InferencePool_def fifo_of_def fifo_init_def no_history_def split: if_splits)

subsection \<open>The worker's steps\<close>

definition works :: "(SynthesisRequest \<Rightarrow> 'b \<Rightarrow> SynthesisResult outcome \<times> 'b)
    \<Rightarrow> 'b InferencePool \<Rightarrow> 'b InferencePool \<Rightarrow> bool" where
  "works synth p p' \<longleftrightarrow> (\<exists>now act. worker_step synth now p = Some (act, p'))"

lemma worker_step_rank:
  assumes "worker_step synth now p = Some (act, p')"
  shows "worker_rank p' < worker_rank p"
proof (cases "worker p")
  case Waiting
  with assms show ?thesis
    by (cases "queue p") (auto simp: worker_step_def worker_rank_def split: if_splits)
next
  case (In_Hand job)
  with assms show ?thesis by (auto simp: worker_step_def worker_rank_def split: if_splits)
next
  case (Running job)
  with assms show ?thesis
    by (auto simp: worker_step_def worker_rank_def split: outcome.splits prod.splits)
next
  case (Synthesized job r)
  with assms show ?thesis by (auto simp: worker_step_def worker_rank_def)
next
  case Exited
  with assms show ?thesis by (simp add: worker_step_def)
qed

interpretation worker_ranked: ranked_step "works synth" worker_rank for synth
  by unfold_locales (auto simp: works_def intro: worker_step_rank)

subsection \<open>Properties\<close>

text \<open>C8. The pool implements a bounded first-in first-out service: whatever callers and the worker do
  in whatever order, every state it reaches is one the abstract service reaches, and every further
  step is a step of the service or leaves it as it is. The service takes a job only while it is open
  and at most \<^verbatim>\<open>max_queue_depth\<close> jobs are behind the one in hand, answers the oldest job, never
  with a success after its deadline, and takes nothing once it is closed.\<close>

theorem pool_refines_fifo:
  assumes "reachable synth p0 s" and "new_InferencePool (Some b) depth timeout = Inr p0"
    and "depth \<le> INT_MAX"
  shows "(fifo_step depth)\<^sup>*\<^sup>* fifo_init (fifo_of s)
    \<and> (\<forall>s'. pool_step synth s s' \<longrightarrow> (fifo_step depth)\<^sup>=\<^sup>= (fifo_of s) (fifo_of s'))"
proof -
  have inv: "deep_inv depth (p0, no_history)"
    using new_pool_inv [OF assms(2)] assms(3) by (simp add: deep_inv_def)
  have steps: "(pool_step synth)\<^sup>*\<^sup>* (p0, no_history) s" using assms(1) by (simp add: reachable_iff)
  have "deep_inv depth s" using pool_fifo.inv_steps [OF steps inv] .
  then have "\<forall>s'. pool_step synth s s' \<longrightarrow> (fifo_step depth)\<^sup>=\<^sup>= (fifo_of s) (fifo_of s')"
    using pool_fifo.sim_step [of synth s _ depth] by blast
  with pool_fifo.sim_steps [OF steps inv] show ?thesis by (simp add: new_pool_fifo [OF assms(2)])
qed

theorem pool_refines_fifo_witness:
  "(fifo_step 2)\<^sup>*\<^sup>* fifo_init \<lparr>pending = [demo_stamped], served = [], closed = False\<rparr>"
  using pool_refines_fifo [OF demo_taken [of mock_synthesize new_MockBackend] demo_new]
  by (simp add: fifo_of_def demo_pool_def demo_history_def INT_MAX_def)

text \<open>C11. The worker loop terminates whenever nothing is submitted: with any backend and any clock
  there is no infinite run of worker steps, and a run from a state with \<open>n\<close> queued jobs has at
  most \<open>4 n + 4\<close> of them.\<close>

theorem worker_terminates:
  assumes "(works synth ^^ n) p p'"
  shows "wfP (\<lambda>p' p. works synth p p') \<and> n \<le> 4 * length (queue p) + 4"
proof -
  have "worker_rank p \<le> 4 * length (queue p) + 4"
    by (simp add: worker_rank_def split: worker.split)
  with worker_ranked.run_length [OF assms] show ?thesis by (simp add: worker_ranked.step_wf)
qed

theorem worker_terminates_witness:
  "(works mock_synthesize ^^ 1) ((demo_pool new_MockBackend)\<lparr>queue := [demo_stamped]\<rparr>)
      ((demo_pool new_MockBackend)\<lparr>worker := In_Hand demo_stamped\<rparr>)
   \<and> wfP (\<lambda>p' p. works mock_synthesize p p')"
proof -
  have "(works mock_synthesize ^^ 1) ((demo_pool new_MockBackend)\<lparr>queue := [demo_stamped]\<rparr>)
      ((demo_pool new_MockBackend)\<lparr>worker := In_Hand demo_stamped\<rparr>)"
    by (simp add: works_def worker_step_def demo_pool_def eq_OO relcompp_apply)
  with worker_terminates [OF this] show ?thesis by simp
qed

end
