(* ===== verification/Service.thy ===== *)
theory Service
  imports Handlers PoolSpec
begin

text \<open>
  Many speech requests at once: the handler of each runs in a thread of its own, and every operation on
  what the handlers share is a step: a call on the metrics, a reading of the queue depth, the reading
  of the pool's readiness, the submission, the wake-up by the worker's callback. \<open>service_step\<close> interleaves
  the steps of the handlers with one another and with the worker loop of \<open>Pool\<close>; the job carries the
  number of the request whose variables its callbacks capture.
\<close>

subsection \<open>Requests in flight\<close>

text \<open>Where a handler is: past the checks; past the reading of the pool's readiness, with the pool as
  it was read; in the wait; woken by a callback with what it stored; with its answer; or left by an
  exception.\<close>

datatype 'b stage =
    Checked
  | Looked "'b InferencePool"
  | Waits
  | Woken answer
  | Replied HttpResponse
  | Left_Handler

text \<open>What a handler has to count before it goes on, one step for each; the gauge of the queue takes two,
  as the depth is read first and set then.\<close>

datatype post = Call metric_call | Read_Depth

definition posts :: "metric_call list \<Rightarrow> post list" where
  "posts cs = map (\<lambda>c. case c of Queue_Depth_Set _ \<Rightarrow> Read_Depth | _ \<Rightarrow> Call c) cs"

record 'b flight =
  fl_http :: HttpRequest
  fl_request :: "SynthesisRequest option"
  fl_stage :: "'b stage"
  fl_todo :: "post list"

record 'b service =
  sv_pool :: "'b InferencePool"
  sv_history :: history
  sv_flights :: "'b flight list"
  sv_metrics :: "metric_call list"

definition new_service :: "'b InferencePool \<Rightarrow> 'b service" where
  "new_service p = \<lparr>sv_pool = p, sv_history = no_history, sv_flights = [], sv_metrics = []\<rparr>"

definition set_stage :: "nat \<Rightarrow> 'b stage \<Rightarrow> 'b flight list \<Rightarrow> 'b flight list" where
  "set_stage i st fs = fs[i := (fs ! i)\<lparr>fl_stage := st\<rparr>]"

definition set_todo :: "nat \<Rightarrow> post list \<Rightarrow> 'b flight list \<Rightarrow> 'b flight list" where
  "set_todo i td fs = fs[i := (fs ! i)\<lparr>fl_todo := td\<rparr>]"

text \<open>A new request, after the checks.\<close>

fun checked_flight :: "HttpRequest \<Rightarrow> SynthesisRequest traced \<Rightarrow> 'b flight" where
  "checked_flight req (Responds r, m) =
     \<lparr>fl_http = req, fl_request = None, fl_stage = Replied r, fl_todo = posts m\<rparr>"
| "checked_flight req (Escapes, m) =
     \<lparr>fl_http = req, fl_request = None, fl_stage = Left_Handler, fl_todo = posts m\<rparr>"
| "checked_flight req (Continues r, m) =
     \<lparr>fl_http = req, fl_request = Some r, fl_stage = Checked, fl_todo = posts m\<rparr>"

text \<open>A callback stores its answer in the variables of the request it belongs to and wakes it.\<close>

definition deliver :: "action \<Rightarrow> 'b flight list \<Rightarrow> 'b flight list" where
  "deliver act fs = (case act of
     Answered job a \<Rightarrow> if calls_back job a then set_stage (job_owner job) (Woken a) fs else fs
   | _ \<Rightarrow> fs)"

text \<open>A handler goes on only when it has counted what it has to. What it counts where is as in
  \<open>Handlers\<close> (\<open>submission_posts\<close> and \<open>finish_posts\<close> below).\<close>

inductive service_step ::
  "'j json_library \<Rightarrow> 'b HandlerDeps \<Rightarrow> (SynthesisRequest \<Rightarrow> 'b \<Rightarrow> SynthesisResult outcome \<times> 'b)
     \<Rightarrow> 'b service \<Rightarrow> 'b service \<Rightarrow> bool"
  for lib deps synth where
  Arrive: "speech_checks lib req deps = (c, m) \<Longrightarrow>
     service_step lib deps synth s (s\<lparr>sv_flights := sv_flights s @ [checked_flight req (c, m)]\<rparr>)"
| Post: "i < length (sv_flights s) \<Longrightarrow> fl_todo (sv_flights s ! i) = Call c # td \<Longrightarrow>
     service_step lib deps synth s
       (s\<lparr>sv_flights := set_todo i td (sv_flights s), sv_metrics := sv_metrics s @ [c]\<rparr>)"
| Read: "i < length (sv_flights s) \<Longrightarrow> fl_todo (sv_flights s ! i) = Read_Depth # td \<Longrightarrow>
     service_step lib deps synth s
       (s\<lparr>sv_flights := set_todo i (Call (Queue_Depth_Set (queue_depth (sv_pool s))) # td) (sv_flights s)\<rparr>)"
| Look: "i < length (sv_flights s) \<Longrightarrow> fl_stage (sv_flights s ! i) = Checked \<Longrightarrow>
     fl_request (sv_flights s ! i) = Some request \<Longrightarrow> fl_todo (sv_flights s ! i) = [] \<Longrightarrow>
     service_step lib deps synth s
       (s\<lparr>sv_flights := set_todo i (if is_accepting (sv_pool s) then posts (counted_before request 0) else [])
            (set_stage i (Looked (sv_pool s)) (sv_flights s))\<rparr>)"
| Refused: "i < length (sv_flights s) \<Longrightarrow> fl_stage (sv_flights s ! i) = Looked seen \<Longrightarrow>
     fl_request (sv_flights s ! i) = Some request \<Longrightarrow> fl_todo (sv_flights s ! i) = [] \<Longrightarrow>
     speech_submit lib now i (Some seen) (sv_pool s) request = (Responds r, m) \<Longrightarrow>
     service_step lib deps synth s
       (s\<lparr>sv_flights := set_todo i (posts (if is_accepting seen then counted_refused else [Requests_Total 503]))
            (set_stage i (Replied r) (sv_flights s))\<rparr>)"
| Submitted: "i < length (sv_flights s) \<Longrightarrow> fl_stage (sv_flights s ! i) = Looked seen \<Longrightarrow>
     fl_request (sv_flights s ! i) = Some request \<Longrightarrow> fl_todo (sv_flights s ! i) = [] \<Longrightarrow>
     speech_submit lib now i (Some seen) (sv_pool s) request = (Continues p', m) \<Longrightarrow>
     service_step lib deps synth s
       (s\<lparr>sv_pool := p',
          sv_history := log_submit True (stamp (timeout_seconds (sv_pool s)) now (speech_job i request)) (sv_history s),
          sv_flights := set_todo i [Read_Depth] (set_stage i Waits (sv_flights s))\<rparr>)"
| Worker: "worker_step synth now (sv_pool s) = Some (act, p') \<Longrightarrow>
     service_step lib deps synth s
       (s\<lparr>sv_pool := p', sv_history := log_action now act (sv_history s),
          sv_flights := deliver act (sv_flights s)\<rparr>)"
| Finish: "i < length (sv_flights s) \<Longrightarrow> fl_stage (sv_flights s ! i) = Woken a \<Longrightarrow>
     fl_todo (sv_flights s ! i) = [] \<Longrightarrow> speech_finish lib started ended q a = (r, m) \<Longrightarrow>
     service_step lib deps synth s
       (s\<lparr>sv_flights := set_todo i (posts m) (set_stage i (Replied r) (sv_flights s))\<rparr>)"
| Stop: "service_step lib deps synth s (s\<lparr>sv_pool := stop_accepting (sv_pool s)\<rparr>)"

text \<open>Without the others in between, the calls of a handler are those of \<open>Handlers\<close>: \<open>posted d\<close> is what is
  counted when the queue depth is \<open>d\<close>.\<close>

definition posted :: "int \<Rightarrow> post list \<Rightarrow> metric_call list" where
  "posted d ps = map (\<lambda>p. case p of Call c \<Rightarrow> c | Read_Depth \<Rightarrow> Queue_Depth_Set d) ps"

lemma submission_posts:
  "speech_submit lib now i (Some seen) p request = (out, m) \<Longrightarrow>
     m = (if is_accepting seen then posted (queue_depth p) (posts (counted_before request 0)) else [])
       @ (case out of Continues p' \<Rightarrow> posted (queue_depth p') [Read_Depth]
          | _ \<Rightarrow> posted d (posts (if is_accepting seen then counted_refused else [Requests_Total 503])))"
  by (auto simp: speech_submit_def posted_def posts_def Let_def split: if_splits prod.splits)

lemma finish_posts:
  assumes "speech_finish lib started ended q a = (r, m)"
  shows "speech_finish lib started ended d a = (r, posted d (posts m))"
  using assms by (auto simp: speech_finish_def posted_def posts_def Let_def split: if_splits)

inductive_cases service_stepE: "service_step lib deps synth s s'"

subsection \<open>The service keeps to the pool\<close>

definition pool_of :: "'b service \<Rightarrow> 'b InferencePool \<times> history" where
  "pool_of s = (sv_pool s, sv_history s)"

lemma speech_submit_accepted:
  assumes "speech_submit lib now i seen p request = (Continues p', m)"
  shows "submit now (speech_job i request) p = (True, p')"
  using assms by (auto simp: speech_submit_def Let_def split: if_splits prod.splits)

lemma service_simulates:
  assumes "service_step lib deps synth s s'"
  shows "(pool_step synth)\<^sup>=\<^sup>= (pool_of s) (pool_of s')"
  using assms
proof cases
  case (Submitted i seen request now p' m)
  from pool_step.Submit [OF speech_submit_accepted [OF Submitted(6)], of synth "sv_history s"]
  show ?thesis using Submitted by (simp add: pool_of_def)
next
  case (Worker now act p')
  from pool_step.Work [OF Worker(2), of "sv_history s"] show ?thesis using Worker by (simp add: pool_of_def)
next
  case Stop
  then show ?thesis using pool_step.Shutdown [of synth "sv_pool s" "sv_history s"] by (simp add: pool_of_def)
qed (simp_all add: pool_of_def)

interpretation service_pool: simulation "service_step lib deps synth" "\<lambda>s. deep_inv depth (pool_of s)"
    "pool_step synth" pool_of
  for lib deps synth depth
proof
  fix s s' :: "'b service"
  assume st: "service_step lib deps synth s s'" and inv: "deep_inv depth (pool_of s)"
  show sim: "(pool_step synth)\<^sup>=\<^sup>= (pool_of s) (pool_of s')" using st by (rule service_simulates)
  then consider "pool_of s' = pool_of s" | "pool_step synth (pool_of s) (pool_of s')" by auto
  then show "deep_inv depth (pool_of s')"
    using inv pool_fifo.inv_step [of synth "pool_of s" "pool_of s'" depth] by cases simp_all
qed

subsection \<open>Who waits for what\<close>

text \<open>The jobs of the pool and the waiting handlers belong together, one to one: each open job carries
  the request of the handler that waits for it, and every waiting handler has its job.\<close>

definition owns :: "'b flight list \<Rightarrow> InferenceJob \<Rightarrow> bool" where
  "owns fs job \<longleftrightarrow> has_on_success job \<and> has_on_error job \<and> job_owner job < length fs
     \<and> fl_stage (fs ! job_owner job) = Waits \<and> fl_request (fs ! job_owner job) = Some (job_request job)"

definition tickets :: "InferenceJob list \<Rightarrow> 'b flight list \<Rightarrow> bool" where
  "tickets jobs fs \<longleftrightarrow> distinct (map job_owner jobs) \<and> list_all (owns fs) jobs
     \<and> (\<forall>i < length fs. fl_stage (fs ! i) = Waits \<longrightarrow> i \<in> job_owner ` set jobs)"

definition tickets_inv :: "'b service \<Rightarrow> bool" where
  "tickets_inv s \<longleftrightarrow> tickets (open_jobs (sv_pool s)) (sv_flights s)"

lemma set_stage_length [simp]: "length (set_stage i st fs) = length fs"
  by (simp add: set_stage_def)

lemma set_stage_nth:
  "j < length fs \<Longrightarrow> set_stage i st fs ! j = (if j = i then (fs ! j)\<lparr>fl_stage := st\<rparr> else fs ! j)"
  by (simp add: set_stage_def nth_list_update)

lemma set_todo_length [simp]: "length (set_todo i td fs) = length fs"
  by (simp add: set_todo_def)

lemma set_todo_nth:
  "j < length fs \<Longrightarrow> set_todo i td fs ! j = (if j = i then (fs ! j)\<lparr>fl_todo := td\<rparr> else fs ! j)"
  by (simp add: set_todo_def nth_list_update)

lemma set_todo_fields [simp]:
  "j < length fs \<Longrightarrow> fl_stage (set_todo i td fs ! j) = fl_stage (fs ! j)"
  "j < length fs \<Longrightarrow> fl_request (set_todo i td fs ! j) = fl_request (fs ! j)"
  "j < length fs \<Longrightarrow> fl_http (set_todo i td fs ! j) = fl_http (fs ! j)"
  by (simp_all add: set_todo_nth)

lemma stamp_fields [simp]:
  "job_request (stamp t now job) = job_request job" "job_owner (stamp t now job) = job_owner job"
  "has_on_success (stamp t now job) = has_on_success job" "has_on_error (stamp t now job) = has_on_error job"
  by (simp_all add: stamp_def)

lemma speech_job_fields [simp]:
  "job_request (speech_job i r) = r" "job_owner (speech_job i r) = i"
  "has_on_success (speech_job i r)" "has_on_error (speech_job i r)"
  by (simp_all add: speech_job_def)

lemma submit_open:
  "submit now job p = (True, p') \<Longrightarrow> open_jobs p' = open_jobs p @ [stamp (timeout_seconds p) now job]
     \<and> worker p' = worker p"
  by (auto simp: submit_def open_jobs_def Let_def split: if_splits)

lemma owns_other:
  "owns fs job \<Longrightarrow> job_owner job \<noteq> i \<Longrightarrow> owns (set_stage i st fs) job"
  by (simp add: owns_def set_stage_nth)

lemma owns_append: "owns fs job \<Longrightarrow> owns (fs @ [fl]) job"
  by (simp add: owns_def nth_append)

text \<open>What is left to count does not matter to them.\<close>

lemma tickets_todo [simp]: "tickets jobs (set_todo i td fs) = tickets jobs fs"
proof -
  have "owns (set_todo i td fs) job = owns fs job" for job by (auto simp: owns_def)
  then show ?thesis by (auto simp: tickets_def list_all_iff)
qed

text \<open>What a step of the worker does to the open jobs: it answers the first of them, or none.\<close>

lemma worker_open:
  assumes "worker_step synth now p = Some (act, p')"
  shows "case act of Answered job a \<Rightarrow> open_jobs p = job # open_jobs p' | _ \<Rightarrow> open_jobs p' = open_jobs p"
  using assms
  by (cases "worker p") (auto simp: worker_step_def open_jobs_def
      split: if_splits list.splits outcome.splits prod.splits)

lemma tickets_new: "tickets jobs fs \<Longrightarrow> fl_stage fl \<noteq> Waits \<Longrightarrow> tickets jobs (fs @ [fl])"
  by (auto simp: tickets_def list_all_iff nth_append less_Suc_eq intro: owns_append)

lemma tickets_move:
  assumes "tickets jobs fs" and "i < length fs" and "fl_stage (fs ! i) \<noteq> Waits" and "st \<noteq> Waits"
  shows "tickets jobs (set_stage i st fs)"
proof -
  have "job_owner job \<noteq> i" if "job \<in> set jobs" for job
    using assms(1,3) that by (auto simp: tickets_def list_all_iff owns_def)
  then have "list_all (owns (set_stage i st fs)) jobs"
    using assms(1) by (auto simp: tickets_def list_all_iff intro: owns_other)
  then show ?thesis using assms by (auto simp: tickets_def set_stage_nth)
qed

lemma tickets_wait:
  assumes "tickets jobs fs" and "job_owner job < length fs" and "fl_stage (fs ! job_owner job) \<noteq> Waits"
    and "has_on_success job" and "has_on_error job" and "fl_request (fs ! job_owner job) = Some (job_request job)"
  shows "tickets (jobs @ [job]) (set_stage (job_owner job) Waits fs)"
proof -
  have ne: "job_owner j \<noteq> job_owner job" if "j \<in> set jobs" for j
    using assms(1,3) that by (auto simp: tickets_def list_all_iff owns_def)
  then have "list_all (owns (set_stage (job_owner job) Waits fs)) jobs"
    using assms(1) by (auto simp: tickets_def list_all_iff intro: owns_other)
  moreover have "owns (set_stage (job_owner job) Waits fs) job"
    using assms by (simp add: owns_def set_stage_nth)
  moreover have "distinct (map job_owner (jobs @ [job]))"
    using assms(1) ne by (fastforce simp: tickets_def)
  ultimately show ?thesis using assms(1) by (auto simp: tickets_def set_stage_nth)
qed

lemma tickets_wake:
  assumes "tickets (job # jobs) fs" and "st \<noteq> Waits"
  shows "tickets jobs (set_stage (job_owner job) st fs)"
proof -
  have "job_owner j \<noteq> job_owner job" if "j \<in> set jobs" for j
    using assms(1) that by (force simp: tickets_def image_iff)
  then have "list_all (owns (set_stage (job_owner job) st fs)) jobs"
    using assms(1) by (auto simp: tickets_def list_all_iff intro: owns_other)
  then show ?thesis using assms by (auto simp: tickets_def set_stage_nth)
qed

lemma checked_flight_todo [simp]: "fl_todo (checked_flight req (c, m)) = posts m"
  by (cases c) simp_all

lemma checked_flight_stage [simp]: "fl_stage (checked_flight req (c, m)) \<noteq> Waits"
  by (cases c) simp_all

lemma stop_open [simp]: "open_jobs (stop_accepting p) = open_jobs p"
  by (simp add: open_jobs_def stop_accepting_def)

text \<open>The delivery of an answer: the job was open, so its callback is set.\<close>

lemma deliver_answered:
  assumes "owns fs job"
  shows "deliver (Answered job a) fs = set_stage (job_owner job) (Woken a) fs"
  using assms by (simp add: deliver_def calls_back_def owns_def split: answer.split)

lemma tickets_worker:
  assumes "worker_step synth now p = Some (act, p')" and "tickets (open_jobs p) fs"
  shows "tickets (open_jobs p') (deliver act fs)"
proof (cases "\<exists>job a. act = Answered job a")
  case True
  then obtain job a where act: "act = Answered job a" by blast
  with worker_open [OF assms(1)] have o: "open_jobs p = job # open_jobs p'" by simp
  then have "owns fs job" using assms(2) by (simp add: tickets_def)
  with assms(2) show ?thesis unfolding o act by (simp add: deliver_answered tickets_wake)
next
  case False
  with worker_open [OF assms(1)] assms(2) show ?thesis
    by (cases act) (simp_all add: deliver_def)
qed

interpretation service_tickets: step_invariant "service_step lib deps synth" tickets_inv
  for lib deps synth
proof
  fix s s' :: "'b service"
  assume "service_step lib deps synth s s'" and inv: "tickets_inv s"
  then show "tickets_inv s'"
  proof cases
    case (Submitted i seen request now p' m)
    let ?job = "stamp (timeout_seconds (sv_pool s)) now (speech_job i request)"
    have "open_jobs p' = open_jobs (sv_pool s) @ [?job]"
      using submit_open [OF speech_submit_accepted [OF Submitted(6)]] by simp
    moreover have "tickets (open_jobs (sv_pool s) @ [?job]) (set_stage (job_owner ?job) Waits (sv_flights s))"
      using inv Submitted by (intro tickets_wait) (simp_all add: tickets_inv_def)
    ultimately show ?thesis using Submitted by (simp add: tickets_inv_def)
  next
    case (Worker now act p')
    with inv show ?thesis by (simp add: tickets_inv_def tickets_worker)
  qed (use inv in \<open>simp_all add: tickets_inv_def tickets_new tickets_move\<close>)
qed

subsection \<open>What the replies carry\<close>

definition made :: "(SynthesisRequest \<Rightarrow> 'b \<Rightarrow> SynthesisResult outcome \<times> 'b)
    \<Rightarrow> SynthesisRequest \<Rightarrow> SynthesisResult \<Rightarrow> bool" where
  "made synth request res \<longleftrightarrow> (\<exists>b. fst (synth request b) = Returns res)"

definition answer_for :: "(SynthesisRequest \<Rightarrow> 'b \<Rightarrow> SynthesisResult outcome \<times> 'b)
    \<Rightarrow> SynthesisRequest \<Rightarrow> answer \<Rightarrow> bool" where
  "answer_for synth request a = (case a of Succeeded res \<Rightarrow> made synth request res | Failed m \<Rightarrow> m \<noteq> [])"

definition reply_for :: "(SynthesisRequest \<Rightarrow> 'b \<Rightarrow> SynthesisResult outcome \<times> 'b)
    \<Rightarrow> SynthesisRequest \<Rightarrow> HttpResponse \<Rightarrow> bool" where
  "reply_for synth request r \<longleftrightarrow> resp_status r \<in> {200, 500, 503}
     \<and> (resp_status r = 200 \<longrightarrow> (\<exists>res. made synth request res \<and> binary_body r = audio_data res))"

definition flight_ok :: "'j json_library \<Rightarrow> 'b HandlerDeps
    \<Rightarrow> (SynthesisRequest \<Rightarrow> 'b \<Rightarrow> SynthesisResult outcome \<times> 'b) \<Rightarrow> 'b flight \<Rightarrow> bool" where
  "flight_ok lib deps synth fl = (case fl_request fl of
     None \<Rightarrow> (case fl_stage fl of Replied r \<Rightarrow> resp_status r \<in> {400, 413} | Left_Handler \<Rightarrow> True | _ \<Rightarrow> False)
   | Some request \<Rightarrow> acceptable lib (fl_http fl) deps request \<and>
       (case fl_stage fl of Woken a \<Rightarrow> answer_for synth request a | Replied r \<Rightarrow> reply_for synth request r
        | Left_Handler \<Rightarrow> False | _ \<Rightarrow> True))"

definition worker_ok :: "(SynthesisRequest \<Rightarrow> 'b \<Rightarrow> SynthesisResult outcome \<times> 'b) \<Rightarrow> worker \<Rightarrow> bool" where
  "worker_ok synth w = (case w of Synthesized job res \<Rightarrow> made synth (job_request job) res | _ \<Rightarrow> True)"

definition content_inv :: "'j json_library \<Rightarrow> 'b HandlerDeps
    \<Rightarrow> (SynthesisRequest \<Rightarrow> 'b \<Rightarrow> SynthesisResult outcome \<times> 'b) \<Rightarrow> 'b service \<Rightarrow> bool" where
  "content_inv lib deps synth s \<longleftrightarrow> tickets_inv s \<and> worker_ok synth (worker (sv_pool s))
     \<and> list_all (flight_ok lib deps synth) (sv_flights s)"

lemma flight_ok_todo [simp]: "flight_ok lib deps synth (fl\<lparr>fl_todo := td\<rparr>) = flight_ok lib deps synth fl"
  by (cases "fl_request fl") (simp_all add: flight_ok_def)

lemma list_flight_ok_todo [simp]:
  "list_all (flight_ok lib deps synth) (set_todo i td fs) = list_all (flight_ok lib deps synth) fs"
  by (auto simp: list_all_length set_todo_nth)

lemma checked_flight_ok:
  "speech_checks lib req deps = (c, m) \<Longrightarrow> flight_ok lib deps synth (checked_flight req (c, m))"
  by (cases c) (auto simp: flight_ok_def speech_checks_passes dest: speech_checks_status)

lemma set_stage_ok:
  assumes "list_all (flight_ok lib deps synth) fs"
    and "i < length fs \<Longrightarrow> flight_ok lib deps synth ((fs ! i)\<lparr>fl_stage := st\<rparr>)"
  shows "list_all (flight_ok lib deps synth) (set_stage i st fs)"
  using assms by (auto simp: list_all_length set_stage_nth)

lemma flight_ok_move:
  assumes "flight_ok lib deps synth fl" and "fl_request fl = Some request"
    and "case st of Woken a \<Rightarrow> answer_for synth request a | Replied r \<Rightarrow> reply_for synth request r
        | Left_Handler \<Rightarrow> False | _ \<Rightarrow> True"
  shows "flight_ok lib deps synth (fl\<lparr>fl_stage := st\<rparr>)"
  using assms by (simp add: flight_ok_def)

lemma finish_reply:
  assumes "speech_finish lib t0 t1 q a = (r, m)" and "answer_for synth request a"
  shows "reply_for synth request r"
proof (cases a)
  case (Succeeded res)
  with speech_finish_success assms show ?thesis by (fastforce simp: answer_for_def reply_for_def)
next
  case (Failed e)
  with speech_finish_failure [OF assms(1) [unfolded Failed]] assms(2) show ?thesis
    by (simp add: answer_for_def reply_for_def)
qed

lemma worker_made:
  assumes "worker_step synth now p = Some (act, p')"
  shows "worker_ok synth (worker p')"
proof (cases "worker p")
  case (Running job)
  with assms show ?thesis
    by (cases "synth (job_request job) (pool_backend p)")
      (auto simp: worker_step_def worker_ok_def made_def split: outcome.splits intro!: exI [of _ "pool_backend p"])
qed (use assms in \<open>auto simp: worker_step_def worker_ok_def split: if_splits list.splits\<close>)

lemma worker_answer:
  assumes "worker_step synth now p = Some (Answered job a, p')" and "worker_ok synth (worker p)"
  shows "answer_for synth (job_request job) a"
  using assms
  by (cases "worker p") (auto simp: worker_step_def worker_ok_def answer_for_def
      split: if_splits list.splits outcome.splits prod.splits)

lemma worker_flights:
  assumes "worker_step synth now p = Some (act, p')" and "worker_ok synth (worker p)"
    and "tickets (open_jobs p) fs" and "list_all (flight_ok lib deps synth) fs"
  shows "list_all (flight_ok lib deps synth) (deliver act fs)"
proof (cases "\<exists>job a. act = Answered job a")
  case True
  then obtain job a where act: "act = Answered job a" by blast
  have "open_jobs p = job # open_jobs p'" using worker_open [OF assms(1)] act by simp
  then have own: "owns fs job" using assms(3) by (simp add: tickets_def)
  have "answer_for synth (job_request job) a" using assms(1,2) act by (blast intro: worker_answer)
  moreover have "flight_ok lib deps synth (fs ! job_owner job)"
    using own assms(4) by (simp add: owns_def list_all_length)
  ultimately have "flight_ok lib deps synth ((fs ! job_owner job)\<lparr>fl_stage := Woken a\<rparr>)"
    using own by (intro flight_ok_move) (simp_all add: owns_def)
  then show ?thesis unfolding act deliver_answered [OF own] using assms(4) by (intro set_stage_ok) simp_all
next
  case False
  with assms(4) show ?thesis by (cases act) (simp_all add: deliver_def)
qed

lemma submit_worker: "worker (snd (submit now job p)) = worker p"
  by (simp add: submit_def Let_def)

interpretation service_content: step_invariant "service_step lib deps synth" "content_inv lib deps synth"
  for lib deps synth
proof
  fix s s' :: "'b service"
  assume st: "service_step lib deps synth s s'" and inv: "content_inv lib deps synth s"
  have t: "tickets_inv s'" using st inv service_tickets.inv_step by (auto simp: content_inv_def)
  have w: "worker_ok synth (worker (sv_pool s))" and fl: "list_all (flight_ok lib deps synth) (sv_flights s)"
    using inv by (simp_all add: content_inv_def)
  have ok: "flight_ok lib deps synth (sv_flights s ! i)" if "i < length (sv_flights s)" for i
    using fl that by (simp add: list_all_length)
  from st show "content_inv lib deps synth s'"
  proof cases
    case (Arrive req c m)
    with w fl t checked_flight_ok show ?thesis by (fastforce simp: content_inv_def)
  next
    case (Post i c td)
    with w fl t show ?thesis by (simp add: content_inv_def)
  next
    case (Read i td)
    with w fl t show ?thesis by (simp add: content_inv_def)
  next
    case (Look i request)
    then have "flight_ok lib deps synth ((sv_flights s ! i)\<lparr>fl_stage := Looked (sv_pool s)\<rparr>)"
      using ok [OF Look(2)] by (intro flight_ok_move) simp_all
    with Look w fl t show ?thesis by (simp add: content_inv_def set_stage_ok)
  next
    case (Refused i seen request now r m)
    have "flight_ok lib deps synth ((sv_flights s ! i)\<lparr>fl_stage := Replied r\<rparr>)"
      using ok [OF Refused(2)] Refused(4) speech_submit_status [OF Refused(6)]
      by (intro flight_ok_move) (simp_all add: reply_for_def)
    with Refused w fl t show ?thesis by (simp add: content_inv_def set_stage_ok)
  next
    case (Submitted i seen request now p' m)
    have "flight_ok lib deps synth ((sv_flights s ! i)\<lparr>fl_stage := Waits\<rparr>)"
      using ok [OF Submitted(2)] Submitted(4) by (intro flight_ok_move) simp_all
    moreover have "worker p' = worker (sv_pool s)"
      using submit_open [OF speech_submit_accepted [OF Submitted(6)]] by simp
    ultimately show ?thesis using Submitted w fl t by (simp add: content_inv_def set_stage_ok)
  next
    case (Worker now act p')
    with worker_flights [OF Worker(2) w _ fl] worker_made [OF Worker(2)] inv t show ?thesis
      by (simp add: content_inv_def tickets_inv_def)
  next
    case (Finish i a started ended q r m)
    then obtain request where q: "fl_request (sv_flights s ! i) = Some request"
      and "answer_for synth request a"
      using ok [of i] by (auto simp: flight_ok_def split: option.splits)
    then have "flight_ok lib deps synth ((sv_flights s ! i)\<lparr>fl_stage := Replied r\<rparr>)"
      using ok [OF Finish(2)] finish_reply [OF Finish(5)] by (intro flight_ok_move) simp_all
    with Finish w fl t show ?thesis by (simp add: content_inv_def set_stage_ok)
  next
    case Stop
    with w fl t show ?thesis by (simp add: content_inv_def stop_accepting_def)
  qed
qed

subsection \<open>What the metrics say\<close>

text \<open>What a handler has still to count, and a sum over the requests in flight.\<close>

fun calls :: "post list \<Rightarrow> metric_call list" where
  "calls [] = []"
| "calls (Call c # ps) = c # calls ps"
| "calls (Read_Depth # ps) = calls ps"

definition weigh :: "('b flight \<Rightarrow> int) \<Rightarrow> 'b flight list \<Rightarrow> int" where
  "weigh w fs = (\<Sum>f\<leftarrow>fs. w f)"

lemma weigh_simps [simp]:
  "weigh w [] = 0" "weigh w (f # fs) = w f + weigh w fs" "weigh w (fs @ gs) = weigh w fs + weigh w gs"
  by (simp_all add: weigh_def)

lemma weigh_update: "i < length fs \<Longrightarrow> weigh w (fs[i := f]) = weigh w fs - w (fs ! i) + w f"
  by (induction fs arbitrary: i) (auto split: nat.splits)

lemma weigh_set:
  "i < length fs \<Longrightarrow> weigh w (set_stage i st fs) = weigh w fs - w (fs ! i) + w ((fs ! i)\<lparr>fl_stage := st\<rparr>)"
  "i < length fs \<Longrightarrow> weigh w (set_todo i td fs) = weigh w fs - w (fs ! i) + w ((fs ! i)\<lparr>fl_todo := td\<rparr>)"
  "i < length fs \<Longrightarrow> weigh w (set_todo i td (set_stage i st fs))
     = weigh w fs - w (fs ! i) + w ((fs ! i)\<lparr>fl_stage := st, fl_todo := td\<rparr>)"
  by (simp_all add: set_stage_def set_todo_def weigh_update)

text \<open>A request that has been let to the submission and has no answer yet.\<close>

fun in_progress :: "'b stage \<Rightarrow> bool" where
  "in_progress (Looked p) = is_accepting p"
| "in_progress Waits = True"
| "in_progress (Woken a) = True"
| "in_progress _ = False"

fun replied_with :: "int \<Rightarrow> 'b stage \<Rightarrow> bool" where
  "replied_with status (Replied r) = (resp_status r = status)"
| "replied_with status _ = False"

text \<open>What a request has contributed to the gauge of active jobs and to the counter of a status: what its
  stage says, but for what is still to be counted.\<close>

definition job_weight :: "'b flight \<Rightarrow> int" where
  "job_weight f = of_bool (in_progress (fl_stage f)) - jobs_change (calls (fl_todo f))"

definition status_weight :: "int \<Rightarrow> 'b flight \<Rightarrow> int" where
  "status_weight status f = of_bool (replied_with status (fl_stage f))
     - int (count_list (counted_statuses (calls (fl_todo f))) status)"

text \<open>No handler has more than one change of the gauge and one status to count.\<close>

definition job_calls :: "metric_call list \<Rightarrow> metric_call list" where
  "job_calls cs = filter (\<lambda>c. c = Active_Jobs_Increment \<or> c = Active_Jobs_Decrement) cs"

definition brief :: "'b flight \<Rightarrow> bool" where
  "brief f \<longleftrightarrow> length (job_calls (calls (fl_todo f))) \<le> 1 \<and> length (counted_statuses (calls (fl_todo f))) \<le> 1"

definition metrics_inv :: "'b service \<Rightarrow> bool" where
  "metrics_inv s \<longleftrightarrow> jobs_change (sv_metrics s) = weigh job_weight (sv_flights s)
     \<and> (\<forall>status. int (count_list (counted_statuses (sv_metrics s)) status)
          = weigh (status_weight status) (sv_flights s))
     \<and> list_all brief (sv_flights s)"

lemma job_calls_simps [simp]:
  "job_calls [] = []"
  "job_calls (c # cs) = (if c = Active_Jobs_Increment \<or> c = Active_Jobs_Decrement then c # job_calls cs else job_calls cs)"
  by (simp_all add: job_calls_def)

lemma calls_posts [simp]:
  "jobs_change (calls (posts m)) = jobs_change m"
  "counted_statuses (calls (posts m)) = counted_statuses m"
  "length (job_calls (calls (posts m))) = length (job_calls m)"
  unfolding posts_def by (induction m) (simp_all split: metric_call.split)

lemma count_list_single [simp]: "count_list [x] y = (if x = y then 1 else 0)"
  by simp

lemma counted_statuses_cons: "counted_statuses (c # cs) = counted_statuses [c] @ counted_statuses cs"
  by (cases c) simp_all

lemma brief_update:
  "list_all brief fs \<Longrightarrow> (i < length fs \<Longrightarrow> brief ((fs ! i)\<lparr>fl_todo := td\<rparr>)) \<Longrightarrow> list_all brief (set_todo i td (set_stage i st fs))"
  "list_all brief fs \<Longrightarrow> (i < length fs \<Longrightarrow> brief ((fs ! i)\<lparr>fl_todo := td\<rparr>)) \<Longrightarrow> list_all brief (set_todo i td fs)"
  "list_all brief fs \<Longrightarrow> list_all brief (set_stage i st fs)"
  by (auto simp: list_all_length set_todo_nth set_stage_nth brief_def)

lemma deliver_weigh:
  assumes "tickets (open_jobs p) fs" and "worker_step synth now p = Some (act, p')"
    and "\<And>f a. fl_stage f = Waits \<Longrightarrow> w (f\<lparr>fl_stage := Woken a\<rparr>) = w f"
  shows "weigh w (deliver act fs) = weigh w fs" and "list_all brief fs \<Longrightarrow> list_all brief (deliver act fs)"
proof -
  have "weigh w (deliver act fs) = weigh w fs \<and> (list_all brief fs \<longrightarrow> list_all brief (deliver act fs))"
  proof (cases "\<exists>job a. act = Answered job a")
    case True
    then obtain job a where act: "act = Answered job a" by blast
    have "open_jobs p = job # open_jobs p'" using worker_open [OF assms(2)] act by simp
    then have own: "owns fs job" using assms(1) by (simp add: tickets_def)
    then show ?thesis using assms(3) act by (simp add: deliver_answered weigh_set owns_def brief_update)
  next
    case False
    then show ?thesis by (cases act) (simp_all add: deliver_def)
  qed
  then show "weigh w (deliver act fs) = weigh w fs" and "list_all brief fs \<Longrightarrow> list_all brief (deliver act fs)"
    by simp_all
qed

text \<open>What the parts of the handler leave to count.\<close>

lemma parts_brief:
  "counts_reply (c, m) \<Longrightarrow> (case c of Responds r \<Rightarrow> length (counted_statuses m) = 1 | _ \<Rightarrow> length (counted_statuses m) = 0)"
  by (cases c) (simp_all add: counts_reply_def)

lemma checks_brief: "speech_checks lib req deps = (c, m) \<Longrightarrow> job_calls m = []"
  unfolding speech_checks_def Let_def
  by (auto simp: refuse_def split: if_splits parsed.splits option.splits)

lemma finish_brief: "speech_finish lib t0 t1 q a = (r, m) \<Longrightarrow> length (job_calls m) = 1"
  by (auto simp: speech_finish_def Let_def split: if_splits)

lemma arrives_counted:
  assumes "speech_checks lib req deps = (c, m)"
  shows "job_weight (checked_flight req (c, m)) = 0" and "status_weight status (checked_flight req (c, m)) = 0"
    and "brief (checked_flight req (c, m))"
proof -
  have c: "counts_reply (c, m)" using speech_checks_counts [of lib req deps] assms by simp
  moreover have "c = Continues r \<Longrightarrow> m = []" for r using assms by (simp add: speech_checks_passes)
  ultimately show "job_weight (checked_flight req (c, m)) = 0"
    and "status_weight status (checked_flight req (c, m)) = 0"
    by (cases c; simp add: job_weight_def status_weight_def counts_reply_def)+
  show "brief (checked_flight req (c, m))"
    using parts_brief [OF c] checks_brief [OF assms] by (cases c) (simp_all add: brief_def)
qed

lemma submission_refused:
  assumes "speech_submit lib now i (Some seen) p request = (Responds r, m)"
  shows "resp_status r = 503"
  using assms by (rule speech_submit_status)

lemma submission_accepted:
  "speech_submit lib now i (Some seen) p request = (Continues p', m) \<Longrightarrow> is_accepting seen"
  by (auto simp: speech_submit_def split: if_splits)

interpretation service_metrics: step_invariant "service_step lib deps synth"
    "\<lambda>s. tickets_inv s \<and> metrics_inv s"
  for lib deps synth
proof
  fix s s' :: "'b service"
  assume st: "service_step lib deps synth s s'" and inv: "tickets_inv s \<and> metrics_inv s"
  then have t: "tickets_inv s'" using service_tickets.inv_step by blast
  have brief: "list_all brief (sv_flights s)" using inv by (simp add: metrics_inv_def)
  then have here: "brief (sv_flights s ! i)" if "i < length (sv_flights s)" for i
    using that by (simp add: list_all_length)
  from st have "metrics_inv s'"
  proof cases
    case (Arrive req c m)
    with inv show ?thesis by (simp add: metrics_inv_def arrives_counted [OF Arrive(2)])
  next
    case (Post i c td)
    have "brief ((sv_flights s ! i)\<lparr>fl_todo := td\<rparr>)"
      using here [OF Post(2)] Post(3) counted_statuses_cons [of c "calls td"]
      by (auto simp: brief_def split: if_splits)
    with Post inv brief_update(2) [OF brief] show ?thesis
      by (simp add: metrics_inv_def weigh_set job_weight_def status_weight_def counted_statuses_cons [of c "calls td"])
  next
    case (Read i td)
    have "brief ((sv_flights s ! i)\<lparr>fl_todo := Call (Queue_Depth_Set (queue_depth (sv_pool s))) # td\<rparr>)"
      using here [OF Read(2)] Read(3) by (simp add: brief_def)
    with Read inv brief_update(2) [OF brief] show ?thesis
      by (simp add: metrics_inv_def weigh_set job_weight_def status_weight_def)
  next
    case (Look i request)
    with inv show ?thesis
      by (auto simp: metrics_inv_def weigh_set set_stage_nth job_weight_def status_weight_def brief_def intro!: brief_update)
  next
    case (Refused i seen request now r m)
    with inv submission_refused [OF Refused(6)] show ?thesis
      by (auto simp: metrics_inv_def weigh_set set_stage_nth job_weight_def status_weight_def brief_def intro!: brief_update)
  next
    case (Submitted i seen request now p' m)
    with inv submission_accepted [OF Submitted(6)] show ?thesis
      by (auto simp: metrics_inv_def weigh_set set_stage_nth job_weight_def status_weight_def brief_def intro!: brief_update)
  next
    case (Worker now act p')
    have o: "tickets (open_jobs (sv_pool s)) (sv_flights s)" using inv by (simp add: tickets_inv_def)
    note d = deliver_weigh [OF o Worker(2)]
    have "weigh job_weight (deliver act (sv_flights s)) = weigh job_weight (sv_flights s)"
      "weigh (status_weight status) (deliver act (sv_flights s)) = weigh (status_weight status) (sv_flights s)" for status
      by (rule d(1), simp add: job_weight_def status_weight_def)+
    moreover have "list_all brief (deliver act (sv_flights s))"
      by (rule d(2) [of job_weight, OF _ brief]) (simp add: job_weight_def)
    ultimately show ?thesis using Worker inv by (simp add: metrics_inv_def)
  next
    case (Finish i a started ended q r m)
    with inv speech_finish_counts [OF Finish(5)] finish_brief [OF Finish(5)] show ?thesis
      by (auto simp: metrics_inv_def weigh_set set_stage_nth job_weight_def status_weight_def brief_def intro!: brief_update)
  next
    case Stop
    with inv show ?thesis by (simp add: metrics_inv_def)
  qed
  with t show "tickets_inv s' \<and> metrics_inv s'" by simp
qed

text \<open>How far the metrics can be from the requests: by one for each handler that is counting.\<close>

lemma jobs_change_bound: "\<bar>jobs_change cs\<bar> \<le> int (length (job_calls cs))"
  by (induction cs) (auto simp: jobs_change_def)

lemma weights_close:
  "list_all brief fs \<Longrightarrow>
     \<bar>weigh job_weight fs - int (length (filter (\<lambda>f. in_progress (fl_stage f)) fs))\<bar>
       \<le> int (length (filter (\<lambda>f. fl_todo f \<noteq> []) fs))
     \<and> weigh (status_weight status) fs \<le> int (length (filter (\<lambda>f. replied_with status (fl_stage f)) fs))
     \<and> int (length (filter (\<lambda>f. replied_with status (fl_stage f)) fs))
       \<le> weigh (status_weight status) fs + int (length (filter (\<lambda>f. fl_todo f \<noteq> []) fs))"
proof (induction fs)
  case (Cons f fs)
  have b: "length (job_calls (calls (fl_todo f))) \<le> 1" "length (counted_statuses (calls (fl_todo f))) \<le> 1"
    using Cons.prems by (simp_all add: brief_def)
  have j: "\<bar>jobs_change (calls (fl_todo f))\<bar> \<le> of_bool (fl_todo f \<noteq> [])"
    using jobs_change_bound [of "calls (fl_todo f)"] b(1) by (cases "fl_todo f") auto
  have s: "count_list (counted_statuses (calls (fl_todo f))) status \<le> of_bool (fl_todo f \<noteq> [])"
    using count_le_length [of "counted_statuses (calls (fl_todo f))" status] b(2) by (cases "fl_todo f") auto
  have IH: "list_all brief fs" using Cons.prems by simp
  show ?case using Cons.IH [OF IH] j s by (auto simp: job_weight_def status_weight_def)
qed simp

lemma nat_to_string_inject [simp]: "nat_to_string m = nat_to_string n \<longleftrightarrow> m = n"
  by (metis digits_value_nat_to_string)

lemma int_to_string_inject [simp]: "int_to_string i = int_to_string j \<longleftrightarrow> i = j"
proof -
  have "\<not> is_digit (CHR ''-'')" by (simp add: is_digit_def)
  then have "nat_to_string n \<noteq> CHR ''-'' # xs" for n xs
    using nat_to_string_digits [of n] by auto
  then show ?thesis by (auto simp: int_to_string_def dest: sym)
qed

lemma requests_total_counter:
  "fold record_metric cs m (call_series (Requests_Total status))
     = m (call_series (Requests_Total status)) + of_nat (count_list (counted_statuses cs) status)"
proof (induction cs arbitrary: m)
  case Nil
  then show ?case by simp
next
  case (Cons c cs)
  have "record_metric c m (call_series (Requests_Total status)) = m (call_series (Requests_Total status))
      + of_nat (count_list (counted_statuses [c]) status)"
    by (cases c) (auto simp: record_metric_def)
  moreover have "counted_statuses (c # cs) = counted_statuses [c] @ counted_statuses cs"
    using counted_statuses_append [of "[c]" cs] by simp
  ultimately show ?case using Cons.IH [of "record_metric c m"] by (simp del: counted_statuses.simps)
qed

subsection \<open>How long a request waits\<close>

text \<open>The worker's steps until the job of request \<open>i\<close> is answered: at most four for each job before
  it, and what is left of the one in hand.\<close>

definition steps_to_answer :: "nat \<Rightarrow> 'b InferencePool \<Rightarrow> nat" where
  "steps_to_answer i p =
     (case worker p of Waiting \<Rightarrow> 4 | In_Hand _ \<Rightarrow> 3 | Running _ \<Rightarrow> 2 | Synthesized _ _ \<Rightarrow> 1 | Exited \<Rightarrow> 0)
     + 4 * length (takeWhile (\<lambda>job. job_owner job \<noteq> i) (open_jobs p))"

lemma steps_to_answer_worker:
  assumes "worker_step synth now p = Some (act, p')" and "i \<in> job_owner ` set (open_jobs p')"
    and "distinct (map job_owner (open_jobs p))"
  shows "steps_to_answer i p' < steps_to_answer i p"
proof -
  have gone: "job_owner job \<noteq> i" if "in_hand (worker p) = [job]" "open_jobs p' = queue p" for job
  proof -
    have "i \<in> job_owner ` set (queue p)" using assms(2) that(2) by simp
    then show ?thesis using assms(3) that(1) by (auto simp: open_jobs_def)
  qed
  show ?thesis
  proof (cases "worker p")
    case Waiting
    with assms(1) show ?thesis
      by (cases "queue p") (auto simp: worker_step_def steps_to_answer_def open_jobs_def split: if_splits)
  next
    case (In_Hand job)
    with assms(1) gone [of job] show ?thesis
      by (auto simp: worker_step_def steps_to_answer_def open_jobs_def split: if_splits)
  next
    case (Running job)
    with assms(1) gone [of job] show ?thesis
      by (auto simp: worker_step_def steps_to_answer_def open_jobs_def split: outcome.splits prod.splits)
  next
    case (Synthesized job r)
    with assms(1) gone [of job] show ?thesis
      by (auto simp: worker_step_def steps_to_answer_def open_jobs_def)
  next
    case Exited
    with assms(1) show ?thesis by (simp add: worker_step_def)
  qed
qed

lemma steps_to_answer_append:
  "i \<in> job_owner ` set (open_jobs p) \<Longrightarrow> open_jobs p' = open_jobs p @ jobs \<Longrightarrow> worker p' = worker p
     \<Longrightarrow> steps_to_answer i p' = steps_to_answer i p"
  by (auto simp: steps_to_answer_def takeWhile_append)

lemma takeWhile_shorter: "x \<in> set xs \<Longrightarrow> \<not> P x \<Longrightarrow> length (takeWhile P xs) < length xs"
  by (induction xs) auto

text \<open>When the worker has no step: it waits for work, it has exited, or it is in a call of the backend that
  neither returns nor throws.\<close>

lemma worker_idle:
  "worker_step synth now p = None \<longleftrightarrow> (case worker p of
     Waiting \<Rightarrow> accepting p \<and> queue p = []
   | Exited \<Rightarrow> True
   | Running job \<Rightarrow> fst (synth (job_request job) (pool_backend p)) = Undefined
   | _ \<Rightarrow> False)"
  by (auto simp: worker_step_def split: worker.split list.split outcome.split prod.split)

text \<open>No step of the others makes it longer.\<close>

lemma steps_to_answer_mono:
  assumes "service_step lib deps synth s s'" and "tickets_inv s" and "i < length (sv_flights s)"
    and "fl_stage (sv_flights s ! i) = Waits" and "fl_stage (sv_flights s' ! i) = Waits"
  shows "steps_to_answer i (sv_pool s') \<le> steps_to_answer i (sv_pool s)"
proof -
  have t: "tickets_inv s'" using assms(1,2) by (rule service_tickets.inv_step)
  have own: "i \<in> job_owner ` set (open_jobs (sv_pool s))"
    using assms(2-4) by (auto simp: tickets_inv_def tickets_def)
  have d: "distinct (map job_owner (open_jobs (sv_pool s)))"
    using assms(2) by (simp add: tickets_inv_def tickets_def)
  from assms(1) show ?thesis
  proof cases
    case (Submitted j seen request now p' m)
    have "open_jobs p' = open_jobs (sv_pool s) @ [stamp (timeout_seconds (sv_pool s)) now (speech_job j request)]"
      "worker p' = worker (sv_pool s)"
      using submit_open [OF speech_submit_accepted [OF Submitted(6)]] by simp_all
    from steps_to_answer_append [OF own this] Submitted show ?thesis by simp
  next
    case (Worker now act p')
    have "length (sv_flights s') = length (sv_flights s)"
      using Worker by (simp add: deliver_def split: action.split)
    then have "i \<in> job_owner ` set (open_jobs p')"
      using t assms(3,5) Worker by (auto simp: tickets_inv_def tickets_def)
    from steps_to_answer_worker [OF Worker(2) this d] Worker show ?thesis by simp
  next
    case Stop
    then show ?thesis by (simp add: steps_to_answer_def stop_accepting_def open_jobs_def)
  qed simp_all
qed

lemma steps_to_answer_bound:
  assumes "deep_inv depth (pool_of s)" and "i \<in> job_owner ` set (open_jobs (sv_pool s))"
  shows "int (steps_to_answer i (sv_pool s)) \<le> 4 * depth + 3"
proof -
  let ?p = "sv_pool s" and ?P = "\<lambda>job. job_owner job \<noteq> i"
  have q: "int (length (queue ?p)) \<le> depth"
    using assms(1) by (simp add: deep_inv_def pool_of_def pool_inv_defs)
  have "length (takeWhile ?P (open_jobs ?p)) < length (open_jobs ?p)"
    using assms(2) by (auto intro: takeWhile_shorter)
  then have "length (takeWhile ?P (open_jobs ?p)) < length (in_hand (worker ?p)) + length (queue ?p)"
    by (simp add: open_jobs_def)
  with q show ?thesis by (cases "worker ?p") (auto simp: steps_to_answer_def)
qed

subsection \<open>The reachable services\<close>

lemma new_service_inv [simp]:
  assumes "new_InferencePool (Some b) depth timeout = Inr p0"
  shows "tickets_inv (new_service p0)" and "content_inv lib deps synth (new_service p0)"
    and "metrics_inv (new_service p0)" and "pool_of (new_service p0) = (p0, no_history)"
  using assms
  by (auto simp: new_InferencePool_def new_service_def content_inv_def tickets_inv_def tickets_def
      metrics_inv_def open_jobs_def worker_ok_def pool_of_def split: if_splits)

lemma service_reachable:
  assumes "(service_step lib deps synth)\<^sup>*\<^sup>* (new_service p0) s"
    and "new_InferencePool (Some b) depth timeout = Inr p0" and "depth \<le> INT_MAX"
  shows "tickets_inv s" and "content_inv lib deps synth s" and "metrics_inv s"
    and "reachable synth p0 (pool_of s)" and "deep_inv depth (pool_of s)"
proof -
  show "tickets_inv s" "metrics_inv s"
    using service_metrics.inv_steps [OF assms(1)] new_service_inv [OF assms(2)] by auto
  show "content_inv lib deps synth s"
    using service_content.inv_steps [OF assms(1)] new_service_inv [OF assms(2)] by auto
  have "deep_inv depth (pool_of (new_service p0))"
    using new_pool_inv [OF assms(2)] assms(3) by (simp add: deep_inv_def pool_of_def new_service_def)
  with service_pool.inv_steps [OF assms(1)] service_pool.sim_steps [OF assms(1)] new_service_inv(4) [OF assms(2)]
  show "deep_inv depth (pool_of s)" "reachable synth p0 (pool_of s)"
    by (auto simp: reachable_iff)
qed

lemma replied_inv:
  assumes "content_inv lib deps synth s" and "fl \<in> set (sv_flights s)" and "fl_stage fl = Replied r"
    and "resp_status r = 200"
  shows "\<exists>request b res. acceptable lib (fl_http fl) deps request \<and> fst (synth request b) = Returns res
     \<and> binary_body r = audio_data res"
proof -
  have "flight_ok lib deps synth fl" using assms(1,2) by (simp add: content_inv_def list_all_iff)
  with assms(3,4) show ?thesis
    by (auto simp: flight_ok_def reply_for_def made_def split: option.splits)
qed

subsection \<open>An example\<close>

definition demo_deps :: "'b HandlerDeps" where
  "demo_deps = \<lparr>deps_backend_ready = None, deps_voice_catalog = None, deps_pool = None,
     deps_config = None, deps_start_time = 0\<rparr>"

abbreviation demo_lib :: "SynthesisRequest json_library" where
  "demo_lib \<equiv> example_library (Some ''voxtral-4b'')"

definition demo_flight_of :: "HttpRequest \<Rightarrow> 'b stage \<Rightarrow> 'b flight" where
  "demo_flight_of req st = \<lparr>fl_http = req, fl_request = Some example_request, fl_stage = st, fl_todo = []\<rparr>"

abbreviation demo_flight :: "'b stage \<Rightarrow> 'b flight" where
  "demo_flight \<equiv> demo_flight_of example_http_request"

definition demo_arrived :: "HttpRequest \<Rightarrow> 'b \<Rightarrow> 'b service" where
  "demo_arrived req b = (new_service (demo_pool b))\<lparr>sv_flights := [demo_flight_of req Checked]\<rparr>"

definition demo_speech_job :: InferenceJob where
  "demo_speech_job = (speech_job 0 example_request)\<lparr>job_deadline := 30000000005\<rparr>"

lemma demo_checks: "speech_checks demo_lib example_http_request demo_deps = (Continues example_request, [])"
  using example_acceptable
  by (simp add: speech_checks_passes acceptable_def fields_ok_def known_voice_def input_limit_def
      demo_deps_def example_deps_def)

lemma demo_submit:
  "\<exists>m. speech_submit demo_lib 5 0 (Some (demo_pool b)) (demo_pool b) example_request
     = (Continues ((demo_pool b)\<lparr>queue := [demo_speech_job]\<rparr>), m)"
  by (simp add: speech_submit_def submit_def demo_pool_def is_accepting_def size_to_int_def stamp_def
      speech_job_def demo_speech_job_def ns_per_sec_def Let_def)

text \<open>A handler counts what it has to, the others standing still.\<close>

lemma set_todo_twice [simp]: "set_todo i td (set_todo i td' fs) = set_todo i td fs"
  by (cases "i < length fs") (simp_all add: set_todo_def list_update_beyond)

lemma posts_run:
  "fl_todo (sv_flights s ! i) = td \<Longrightarrow> i < length (sv_flights s) \<Longrightarrow>
     \<exists>ms. (service_step lib deps synth)\<^sup>*\<^sup>* s (s\<lparr>sv_flights := set_todo i [] (sv_flights s), sv_metrics := ms\<rparr>)"
proof (induction td arbitrary: s)
  case Nil
  then have "set_todo i [] (sv_flights s) = sv_flights s"
    by (metis flight.surjective flight.update_convs(4) list_update_id old.unit.exhaust set_todo_def)
  then have "s\<lparr>sv_flights := set_todo i [] (sv_flights s), sv_metrics := sv_metrics s\<rparr> = s" by simp
  then show ?case by (metis rtranclp.rtrancl_refl)
next
  case (Cons x td)
  let ?R = "service_step lib deps synth"
  have call: "\<exists>ms. ?R\<^sup>*\<^sup>* u (u\<lparr>sv_flights := set_todo i [] (sv_flights u), sv_metrics := ms\<rparr>)"
    if u: "fl_todo (sv_flights u ! i) = Call c # td" "i < length (sv_flights u)" for u :: "'a service" and c
  proof -
    let ?v = "u\<lparr>sv_flights := set_todo i td (sv_flights u), sv_metrics := sv_metrics u @ [c]\<rparr>"
    have "fl_todo (sv_flights ?v ! i) = td" using u(2) by (simp add: set_todo_nth)
    then obtain ms where "?R\<^sup>*\<^sup>* ?v (?v\<lparr>sv_flights := set_todo i [] (sv_flights ?v), sv_metrics := ms\<rparr>)"
      using Cons.IH [of ?v] u(2) by auto
    moreover have "?R u ?v" using service_step.Post [OF u(2,1)] .
    ultimately show ?thesis by (intro exI [of _ ms]) (simp add: converse_rtranclp_into_rtranclp)
  qed
  show ?case
  proof (cases x)
    case (Call c)
    with call [of s c] Cons.prems show ?thesis by simp
  next
    case Read_Depth
    let ?c = "Queue_Depth_Set (queue_depth (sv_pool s))"
    let ?v = "s\<lparr>sv_flights := set_todo i (Call ?c # td) (sv_flights s)\<rparr>"
    have "fl_todo (sv_flights ?v ! i) = Call ?c # td" using Cons.prems(2) by (simp add: set_todo_nth)
    then obtain ms where "?R\<^sup>*\<^sup>* ?v (?v\<lparr>sv_flights := set_todo i [] (sv_flights ?v), sv_metrics := ms\<rparr>)"
      using call [of ?v ?c] Cons.prems(2) by auto
    moreover have "?R s ?v" using service_step.Read [of i s td] Cons.prems Read_Depth by simp
    ultimately show ?thesis by (intro exI [of _ ms]) (simp add: converse_rtranclp_into_rtranclp)
  qed
qed

lemma posts_run_one:
  assumes "sv_flights s = [f]"
  shows "\<exists>s'. (service_step lib deps synth)\<^sup>*\<^sup>* s s' \<and> sv_flights s' = [f\<lparr>fl_todo := []\<rparr>]
    \<and> sv_pool s' = sv_pool s \<and> sv_history s' = sv_history s"
proof -
  have "0 < length (sv_flights s)" using assms by simp
  from posts_run [OF refl this, of lib deps synth]
  obtain ms where "(service_step lib deps synth)\<^sup>*\<^sup>* s (s\<lparr>sv_flights := set_todo 0 [] (sv_flights s), sv_metrics := ms\<rparr>)"
    by (elim exE)
  then show ?thesis using assms by (intro exI conjI) (assumption, simp_all add: set_todo_def)
qed

lemma demo_waits_from:
  "\<exists>s. (service_step demo_lib deps synth)\<^sup>*\<^sup>* (demo_arrived req b) s
     \<and> sv_flights s = [demo_flight_of req Waits] \<and> sv_pool s = (demo_pool b)\<lparr>queue := [demo_speech_job]\<rparr>
     \<and> accepted_jobs (sv_history s) = [demo_speech_job]"
proof -
  let ?R = "service_step demo_lib deps synth" and ?s1 = "demo_arrived req b"
  let ?td = "posts (counted_before example_request 0)"
  let ?s2 = "?s1\<lparr>sv_flights := [(demo_flight_of req (Looked (demo_pool b)))\<lparr>fl_todo := ?td\<rparr>]\<rparr>"
  have acc: "is_accepting (demo_pool b)" by (simp add: is_accepting_def demo_pool_def)
  have look: "?R ?s1 ?s2"
    using service_step.Look [of 0 ?s1 example_request demo_lib deps synth] acc
    by (simp add: new_service_def demo_arrived_def demo_flight_of_def set_stage_def set_todo_def)
  obtain s3 where s3: "?R\<^sup>*\<^sup>* ?s2 s3" "sv_flights s3 = [demo_flight_of req (Looked (demo_pool b))]"
    "sv_pool s3 = demo_pool b" "sv_history s3 = no_history"
    using posts_run_one [of ?s2 "(demo_flight_of req (Looked (demo_pool b)))\<lparr>fl_todo := ?td\<rparr>" demo_lib deps synth]
    by (auto simp: demo_flight_of_def demo_arrived_def new_service_def)
  obtain m where m: "speech_submit demo_lib 5 0 (Some (demo_pool b)) (demo_pool b) example_request
     = (Continues ((demo_pool b)\<lparr>queue := [demo_speech_job]\<rparr>), m)"
    using demo_submit [of b] by (elim exE)
  have fl: "sv_flights s3 ! 0 = demo_flight_of req (Looked (demo_pool b))" "0 < length (sv_flights s3)"
    using s3(2) by simp_all
  have stage: "fl_stage (sv_flights s3 ! 0) = Looked (demo_pool b)"
    "fl_request (sv_flights s3 ! 0) = Some example_request" "fl_todo (sv_flights s3 ! 0) = []"
    unfolding fl by (simp_all add: demo_flight_of_def)
  have log: "log_submit True (stamp (timeout_seconds (demo_pool b)) 5 (speech_job 0 example_request)) no_history
      = no_history\<lparr>accepted_jobs := [demo_speech_job]\<rparr>"
    by (simp add: log_submit_def no_history_def stamp_def demo_pool_def demo_speech_job_def speech_job_def ns_per_sec_def)
  have todo: "set_todo 0 [Read_Depth] (set_stage 0 Waits (sv_flights s3))
      = [(demo_flight_of req Waits)\<lparr>fl_todo := [Read_Depth]\<rparr>]"
    unfolding s3(2) by (simp add: set_stage_def set_todo_def demo_flight_of_def)
  note sub = service_step.Submitted [OF fl(2) stage, of demo_lib 5, unfolded s3(3), OF m, of deps synth,
      unfolded todo s3(4) log]
  obtain s4 where s4: "?R s3 s4" "sv_flights s4 = [(demo_flight_of req Waits)\<lparr>fl_todo := [Read_Depth]\<rparr>]"
    "sv_pool s4 = (demo_pool b)\<lparr>queue := [demo_speech_job]\<rparr>" "accepted_jobs (sv_history s4) = [demo_speech_job]"
    by (rule that [OF sub]) simp_all
  obtain s5 where s5: "?R\<^sup>*\<^sup>* s4 s5" "sv_flights s5 = [demo_flight_of req Waits]" "sv_pool s5 = sv_pool s4"
    "sv_history s5 = sv_history s4"
    using posts_run_one [OF s4(2), of demo_lib deps synth] by (auto simp: demo_flight_of_def)
  have "?R\<^sup>*\<^sup>* ?s1 s5" using look s3(1) s4(1) s5(1)
    by (meson converse_rtranclp_into_rtranclp rtranclp_trans)
  with s4 s5 show ?thesis by (intro exI [of _ s5]) simp
qed

lemma demo_arrives:
  "speech_checks demo_lib req deps = (Continues example_request, [])
     \<Longrightarrow> service_step demo_lib deps synth (new_service (demo_pool b)) (demo_arrived req b)"
  using service_step.Arrive [of demo_lib req deps "Continues example_request" "[]" synth "new_service (demo_pool b)"]
  by (simp add: new_service_def demo_arrived_def demo_flight_of_def posts_def)

lemma demo_waits:
  "\<exists>s. (service_step demo_lib demo_deps synth)\<^sup>*\<^sup>* (new_service (demo_pool b)) s
     \<and> sv_flights s = [demo_flight Waits] \<and> sv_pool s = (demo_pool b)\<lparr>queue := [demo_speech_job]\<rparr>"
  using demo_waits_from [of demo_deps synth example_http_request b] demo_arrives [OF demo_checks, of synth b]
  by (meson converse_rtranclp_into_rtranclp)

text \<open>A backend that always returns the same audio, and the worker's four steps over it.\<close>

definition demo_audio :: SynthesisResult where
  "demo_audio = default_SynthesisResult\<lparr>audio_data := [7]\<rparr>"

definition demo_synth :: "SynthesisRequest \<Rightarrow> 'b \<Rightarrow> SynthesisResult outcome \<times> 'b" where
  "demo_synth request b = (Returns demo_audio, b)"

lemma demo_worker:
  "worker_step demo_synth 6 ((demo_pool b)\<lparr>queue := [demo_speech_job]\<rparr>)
     = Some (Took demo_speech_job, (demo_pool b)\<lparr>worker := In_Hand demo_speech_job\<rparr>)"
  "worker_step demo_synth 6 ((demo_pool b)\<lparr>worker := In_Hand demo_speech_job\<rparr>)
     = Some (Entered demo_speech_job, (demo_pool b)\<lparr>active := 1, worker := Running demo_speech_job\<rparr>)"
  "worker_step demo_synth 6 ((demo_pool b)\<lparr>active := 1, worker := Running demo_speech_job\<rparr>)
     = Some (Inferred demo_speech_job, (demo_pool b)\<lparr>active := 1, worker := Synthesized demo_speech_job demo_audio\<rparr>)"
  "worker_step demo_synth 6 ((demo_pool b)\<lparr>active := 1, worker := Synthesized demo_speech_job demo_audio\<rparr>)
     = Some (Answered demo_speech_job (Succeeded demo_audio), demo_pool b)"
  by (simp_all add: worker_step_def demo_pool_def demo_speech_job_def demo_synth_def)

lemma worker_moves:
  assumes "worker_step synth now (sv_pool s) = Some (act, p')"
  shows "\<exists>s'. service_step lib deps synth s s' \<and> sv_flights s' = deliver act (sv_flights s) \<and> sv_pool s' = p'
    \<and> accepted_jobs (sv_history s') = accepted_jobs (sv_history s)"
  by (rule exI, rule conjI, rule service_step.Worker [OF assms]) simp

lemma demo_replied_from:
  "\<exists>s r. (service_step demo_lib deps demo_synth)\<^sup>*\<^sup>* (demo_arrived req b) s
     \<and> sv_flights s = [demo_flight_of req (Replied r)] \<and> resp_status r = 200 \<and> sv_pool s = demo_pool b
     \<and> accepted_jobs (sv_history s) = [demo_speech_job]"
proof -
  let ?R = "service_step demo_lib deps demo_synth" and ?s0 = "demo_arrived req b"
  obtain s3 where s3: "?R\<^sup>*\<^sup>* ?s0 s3" "sv_flights s3 = [demo_flight_of req Waits]"
    "sv_pool s3 = (demo_pool b)\<lparr>queue := [demo_speech_job]\<rparr>"
    "accepted_jobs (sv_history s3) = [demo_speech_job]"
    using demo_waits_from [of deps demo_synth req b] by (elim exE conjE)
  obtain s4 where s4: "?R s3 s4" "sv_flights s4 = [demo_flight_of req Waits]"
    "sv_pool s4 = (demo_pool b)\<lparr>worker := In_Hand demo_speech_job\<rparr>"
    "accepted_jobs (sv_history s4) = [demo_speech_job]"
    using worker_moves [of demo_synth 6 s3, unfolded s3(2-4), OF demo_worker(1)] by (auto simp: deliver_def)
  obtain s5 where s5: "?R s4 s5" "sv_flights s5 = [demo_flight_of req Waits]"
    "sv_pool s5 = (demo_pool b)\<lparr>active := 1, worker := Running demo_speech_job\<rparr>"
    "accepted_jobs (sv_history s5) = [demo_speech_job]"
    using worker_moves [of demo_synth 6 s4, unfolded s4(2-4), OF demo_worker(2)] by (auto simp: deliver_def)
  obtain s6 where s6: "?R s5 s6" "sv_flights s6 = [demo_flight_of req Waits]"
    "sv_pool s6 = (demo_pool b)\<lparr>active := 1, worker := Synthesized demo_speech_job demo_audio\<rparr>"
    "accepted_jobs (sv_history s6) = [demo_speech_job]"
    using worker_moves [of demo_synth 6 s5, unfolded s5(2-4), OF demo_worker(3)] by (auto simp: deliver_def)
  have "deliver (Answered demo_speech_job (Succeeded demo_audio)) [demo_flight_of req Waits :: 'a flight]
      = [demo_flight_of req (Woken (Succeeded demo_audio))]"
    by (simp add: deliver_def calls_back_def demo_speech_job_def speech_job_def set_stage_def demo_flight_of_def)
  then obtain s7 where s7: "?R s6 s7" "sv_flights s7 = [demo_flight_of req (Woken (Succeeded demo_audio))]"
    "sv_pool s7 = demo_pool b"
    "accepted_jobs (sv_history s7) = [demo_speech_job]"
    using worker_moves [of demo_synth 6 s6, unfolded s6(2-4), OF demo_worker(4)] by auto
  obtain r m where f: "speech_finish demo_lib 0 9 0 (Succeeded demo_audio) = (r, m)"
    by fastforce
  have "0 < length (sv_flights s7)" "fl_stage (sv_flights s7 ! 0) = Woken (Succeeded demo_audio)"
    "fl_todo (sv_flights s7 ! 0) = []"
    unfolding s7(2) by (simp_all add: demo_flight_of_def)
  note fin = service_step.Finish [OF this f, of deps demo_synth]
  have todo: "set_todo 0 (posts m) (set_stage 0 (Replied r) (sv_flights s7))
      = [(demo_flight_of req (Replied r))\<lparr>fl_todo := posts m\<rparr>]"
    unfolding s7(2) by (simp add: demo_flight_of_def set_stage_def set_todo_def)
  obtain s8 where s8: "?R s7 s8" "sv_flights s8 = [(demo_flight_of req (Replied r))\<lparr>fl_todo := posts m\<rparr>]"
    "sv_pool s8 = demo_pool b" "accepted_jobs (sv_history s8) = [demo_speech_job]"
    by (rule that [OF fin [unfolded todo]]) (simp_all add: s7(3,4))
  obtain s9 where s9: "?R\<^sup>*\<^sup>* s8 s9" "sv_flights s9 = [demo_flight_of req (Replied r)]" "sv_pool s9 = sv_pool s8"
    "sv_history s9 = sv_history s8"
    using posts_run_one [OF s8(2), of demo_lib deps demo_synth] by (auto simp: demo_flight_of_def)
  have "resp_status r = 200" using speech_finish_success [OF f] by simp
  moreover have "?R\<^sup>*\<^sup>* ?s0 s7" using s3(1) s4(1) s5(1) s6(1) s7(1) by (meson rtranclp.rtrancl_into_rtrancl)
  then have "?R\<^sup>*\<^sup>* ?s0 s9" using s8(1) s9(1) by (meson rtranclp.rtrancl_into_rtrancl rtranclp_trans)
  ultimately show ?thesis using s8 s9 by (intro exI [of _ s9] exI [of _ r]) simp
qed

lemma demo_replied:
  "\<exists>s r. (service_step demo_lib demo_deps demo_synth)\<^sup>*\<^sup>* (new_service (demo_pool b)) s
     \<and> sv_flights s = [demo_flight (Replied r)] \<and> resp_status r = 200"
  using demo_replied_from [of demo_deps example_http_request b] demo_arrives [OF demo_checks, of demo_synth b]
  by (meson converse_rtranclp_into_rtranclp)

subsection \<open>Properties\<close>

text \<open>Requests do not get each other's audio: however many speech requests run at once, however
  their handlers interleave with one another, with the worker and with a shutdown, a request that
  is answered with status 200 was an acceptable one and its reply carries audio the backend
  returned for that request's own fields.\<close>

theorem concurrent_replies_are_own:
  assumes "(service_step lib deps synth)\<^sup>*\<^sup>* (new_service p0) s"
    and "new_InferencePool (Some b) depth timeout = Inr p0" and "depth \<le> INT_MAX"
    and "fl \<in> set (sv_flights s)" and "fl_stage fl = Replied r" and "resp_status r = 200"
  shows "\<exists>request b' res. acceptable lib (fl_http fl) deps request
    \<and> fst (synth request b') = Returns res \<and> binary_body r = audio_data res"
  using replied_inv [OF service_reachable(2) [OF assms(1-3)] assms(4-6)] .

theorem concurrent_replies_are_own_witness:
  "\<exists>r :: HttpResponse. resp_status r = 200 \<and> (\<exists>request. acceptable demo_lib example_http_request (demo_deps :: nat HandlerDeps) request
     \<and> binary_body r = [7])"
proof -
  obtain s r where s: "(service_step demo_lib demo_deps demo_synth)\<^sup>*\<^sup>* (new_service (demo_pool (0 :: nat))) s"
    "sv_flights s = [demo_flight (Replied r)]" and r: "resp_status r = 200"
    using demo_replied [of "0 :: nat"] by (elim exE conjE)
  have "demo_flight (Replied r) \<in> set (sv_flights s)" "fl_stage (demo_flight (Replied r)) = Replied r"
    by (simp_all add: s demo_flight_of_def)
  from concurrent_replies_are_own [OF s(1) demo_new _ this r] obtain request
    where "acceptable demo_lib example_http_request (demo_deps :: nat HandlerDeps) request" "binary_body r = [7]"
    by (auto simp: INT_MAX_def demo_synth_def demo_audio_def demo_flight_of_def)
  with r show ?thesis by (intro exI conjI)
qed

text \<open>C7. The metrics follow what is going on, in every interleaving of the single calls on them: the
  gauge of active jobs differs from the number of requests that are past the readiness check and whose
  answer is not settled, and the counter of a status falls short of the number of requests whose handler
  has taken the branch that answers with it, by no more than the number of handlers that have calls on
  the metrics still to make. So all of them are exact whenever no handler is in the middle of its calls,
  and no counter is ahead of the decisions it counts.\<close>

theorem concurrent_metrics_settle:
  assumes "(service_step lib deps synth)\<^sup>*\<^sup>* (new_service p0) s"
    and "new_InferencePool (Some b) depth timeout = Inr p0" and "depth \<le> INT_MAX"
  shows "let values = fold record_metric (sv_metrics s) (\<lambda>_. 0);
      number = (\<lambda>P. of_nat (length (filter P (sv_flights s))) :: rat);
      counting = number (\<lambda>f. fl_todo f \<noteq> []);
      jobs = number (\<lambda>f. in_progress (fl_stage f));
      replies = number (\<lambda>f. \<exists>r. fl_stage f = Replied r \<and> resp_status r = status);
      gauge = values (''opentts_active_jobs'', []);
      counter = values (''opentts_requests_total'', [(''status'', int_to_string status)])
    in \<bar>gauge - jobs\<bar> \<le> counting \<and> counter \<le> replies \<and> replies \<le> counter + counting"
proof -
  have m: "metrics_inv s" using service_reachable(3) [OF assms] .
  have gauge: "fold record_metric (sv_metrics s) (\<lambda>_. 0) (''opentts_active_jobs'', [])
      = rat_of_int (weigh job_weight (sv_flights s))"
    using m by (simp add: active_jobs_gauge metrics_inv_def)
  have counter: "fold record_metric (sv_metrics s) (\<lambda>_. 0) (''opentts_requests_total'', [(''status'', int_to_string status)])
      = rat_of_int (weigh (status_weight status) (sv_flights s))"
  proof -
    have "int (count_list (counted_statuses (sv_metrics s)) status) = weigh (status_weight status) (sv_flights s)"
      using m by (simp add: metrics_inv_def)
    then have "rat_of_int (weigh (status_weight status) (sv_flights s))
        = of_nat (count_list (counted_statuses (sv_metrics s)) status)" by (metis of_int_of_nat_eq)
    then show ?thesis using requests_total_counter [of "sv_metrics s" "\<lambda>_. 0" status] by simp
  qed
  have replied: "(\<lambda>f. \<exists>r. fl_stage f = Replied r \<and> resp_status r = status) = (\<lambda>f :: 'a flight. replied_with status (fl_stage f))"
    by (rule ext) (auto elim: replied_with.elims)
  have "list_all brief (sv_flights s)" using m by (simp add: metrics_inv_def)
  note close = weights_close [OF this, of status]
  then have "rat_of_int \<bar>weigh job_weight (sv_flights s) - int (length (filter (\<lambda>f. in_progress (fl_stage f)) (sv_flights s)))\<bar>
        \<le> rat_of_int (int (length (filter (\<lambda>f. fl_todo f \<noteq> []) (sv_flights s))))"
    "rat_of_int (weigh (status_weight status) (sv_flights s))
        \<le> rat_of_int (int (length (filter (\<lambda>f. replied_with status (fl_stage f)) (sv_flights s))))"
    "rat_of_int (int (length (filter (\<lambda>f. replied_with status (fl_stage f)) (sv_flights s))))
        \<le> rat_of_int (weigh (status_weight status) (sv_flights s) + int (length (filter (\<lambda>f. fl_todo f \<noteq> []) (sv_flights s))))"
    unfolding of_int_le_iff by blast+
  then show ?thesis unfolding Let_def gauge counter replied by simp
qed

theorem concurrent_metrics_settle_witness:
  "\<exists>s :: nat service. fold record_metric (sv_metrics s) (\<lambda>_. 0) (''opentts_active_jobs'', []) = 1
     \<and> length (sv_flights s) = 1"
proof -
  obtain s where s: "(service_step demo_lib demo_deps demo_synth)\<^sup>*\<^sup>* (new_service (demo_pool (0 :: nat))) s"
    "sv_flights s = [demo_flight Waits]" using demo_waits [of demo_synth "0 :: nat"] by (elim exE conjE)
  from concurrent_metrics_settle [OF s(1) demo_new, of 200] have
    "fold record_metric (sv_metrics s) (\<lambda>_. 0) (''opentts_active_jobs'', []) = 1"
    by (simp add: s(2) INT_MAX_def demo_flight_of_def Let_def)
  with s(2) show ?thesis by auto
qed

text \<open>C6. Nobody waits for ever: take a request whose handler waits for its audio, in any state the
  service reaches over any backend. The number of worker steps left until the request's callback is
  called is at most \<open>4 depth + 3\<close>; nothing anyone does makes it longer, later submissions and a
  shutdown included, and each step of the worker makes it shorter or calls the callback; \<^verbatim>\<open>shutdown\<close> has
  not returned; and the worker can take a step, unless it is in a call of the backend that neither
  returns nor throws. For the engine adapter that is a call that leaves its buffers, as characterized for
  every synthesis in \<open>Backend\<close>.\<close>

theorem bounded_wait:
  assumes "(service_step lib deps synth)\<^sup>*\<^sup>* (new_service p0) s"
    and "new_InferencePool (Some b) depth timeout = Inr p0" and "depth \<le> INT_MAX"
    and "i < length (sv_flights s)" and "fl_stage (sv_flights s ! i) = Waits"
  shows "int (steps_to_answer i (sv_pool s)) \<le> 4 * depth + 3
    \<and> \<not> shutdown_returns (sv_pool s)
    \<and> ((\<exists>act p'. worker_step synth now (sv_pool s) = Some (act, p'))
        \<longleftrightarrow> \<not> (\<exists>job. worker (sv_pool s) = Running job
               \<and> fst (synth (job_request job) (pool_backend (sv_pool s))) = Undefined))
    \<and> (\<forall>s'. service_step lib deps synth s s' \<longrightarrow> fl_stage (sv_flights s' ! i) = Waits
         \<longrightarrow> steps_to_answer i (sv_pool s') \<le> steps_to_answer i (sv_pool s))
    \<and> (\<forall>now act p'. worker_step synth now (sv_pool s) = Some (act, p')
         \<longrightarrow> fl_stage (deliver act (sv_flights s) ! i) = Waits
         \<longrightarrow> steps_to_answer i p' < steps_to_answer i (sv_pool s))"
proof (intro conjI allI impI)
  note r = service_reachable [OF assms(1-3)]
  have own: "i \<in> job_owner ` set (open_jobs (sv_pool s))" and d: "distinct (map job_owner (open_jobs (sv_pool s)))"
    using r(1) assms(4,5) by (auto simp: tickets_inv_def tickets_def)
  show "int (steps_to_answer i (sv_pool s)) \<le> 4 * depth + 3" by (rule steps_to_answer_bound [OF r(5) own])
  have ne: "open_jobs (sv_pool s) \<noteq> []" using own by auto
  have ex: "worker (sv_pool s) = Exited \<longrightarrow> queue (sv_pool s) = []"
    using r(5) by (simp add: deep_inv_def pool_of_def pool_inv_defs)
  then show "\<not> shutdown_returns (sv_pool s)"
    using ne by (auto simp: open_jobs_def shutdown_returns_def)
  have "worker_step synth now (sv_pool s) = None \<longleftrightarrow> (\<exists>job. worker (sv_pool s) = Running job
      \<and> fst (synth (job_request job) (pool_backend (sv_pool s))) = Undefined)"
    using ne ex unfolding worker_idle by (cases "worker (sv_pool s)") (auto simp: open_jobs_def)
  then show "(\<exists>act p'. worker_step synth now (sv_pool s) = Some (act, p')) \<longleftrightarrow> \<not> (\<exists>job. worker (sv_pool s) = Running job
      \<and> fst (synth (job_request job) (pool_backend (sv_pool s))) = Undefined)" by force
  show "steps_to_answer i (sv_pool s') \<le> steps_to_answer i (sv_pool s)"
    if "service_step lib deps synth s s'" "fl_stage (sv_flights s' ! i) = Waits" for s'
    using steps_to_answer_mono [OF that(1) r(1) assms(4,5) that(2)] .
  show "steps_to_answer i p' < steps_to_answer i (sv_pool s)"
    if st: "worker_step synth t (sv_pool s) = Some (act, p')" "fl_stage (deliver act (sv_flights s) ! i) = Waits"
    for t act p'
  proof -
    have "tickets (open_jobs p') (deliver act (sv_flights s))"
      using tickets_worker [OF st(1)] r(1) by (simp add: tickets_inv_def)
    moreover have "length (deliver act (sv_flights s)) = length (sv_flights s)"
      by (simp add: deliver_def split: action.split)
    ultimately have "i \<in> job_owner ` set (open_jobs p')" using st(2) assms(4) by (simp add: tickets_def)
    from steps_to_answer_worker [OF st(1) this d] show ?thesis .
  qed
qed

text \<open>Over the engine adapter with its engine loaded.\<close>

abbreviation example_synth :: "SynthesisRequest \<Rightarrow> nat VoxtralBackend \<Rightarrow> SynthesisResult outcome \<times> nat VoxtralBackend" where
  "example_synth \<equiv> \<lambda>req. voxtral_synth_call (Some example_engine) ((\<lambda>x. x), 0, 1, req)"

theorem bounded_wait_witness:
  "\<exists>s :: nat VoxtralBackend service. sv_flights s = [demo_flight Waits] \<and> pool_backend (sv_pool s) = example_backend
     \<and> steps_to_answer 0 (sv_pool s) \<le> 11 \<and> \<not> shutdown_returns (sv_pool s)
     \<and> (\<exists>act p'. worker_step example_synth 6 (sv_pool s) = Some (act, p'))"
proof -
  obtain s where s: "(service_step demo_lib demo_deps example_synth)\<^sup>*\<^sup>* (new_service (demo_pool example_backend)) s"
    "sv_flights s = [demo_flight Waits]" "sv_pool s = (demo_pool example_backend)\<lparr>queue := [demo_speech_job]\<rparr>"
    using demo_waits [of example_synth example_backend] by (elim exE conjE)
  have "pool_backend (sv_pool s) = example_backend" "worker (sv_pool s) = Waiting"
    by (simp_all add: s(3) demo_pool_def)
  with bounded_wait [OF s(1) demo_new, of 0 6] s(2) show ?thesis
    by (intro exI [of _ s]) (simp add: INT_MAX_def demo_flight_of_def)
qed

end
