(* ===== verification/Dispatch.thy ===== *)
theory Dispatch
  imports HttpAdapter
begin

text \<open>
  The routes as the HTTP library sees them: what \<^verbatim>\<open>HttpAdapter::register_routes\<close> registers, the answer
  to any request once the library has chosen a route or none, and the listener's set-up and life in
  \<^verbatim>\<open>start\<close>, \<^verbatim>\<open>stop\<close> and the destructor. How the library chooses is an argument; of it the lemmas use
  that a chosen route is registered for the path of the request, which holds for the library's
  matching of the plain paths used here.
\<close>

subsection \<open>Registration\<close>

datatype route = Health_Route | Ready_Route | Metrics_Route | Voices_Route | Speech_Route

record registration =
  reg_method :: string
  reg_pattern :: string
  reg_route :: route

definition registered_routes :: "registration list" where
  "registered_routes = [
     \<lparr>reg_method = ''GET'', reg_pattern = ''/health'', reg_route = Health_Route\<rparr>,
     \<lparr>reg_method = ''GET'', reg_pattern = ''/ready'', reg_route = Ready_Route\<rparr>,
     \<lparr>reg_method = ''GET'', reg_pattern = ''/metrics'', reg_route = Metrics_Route\<rparr>,
     \<lparr>reg_method = ''GET'', reg_pattern = ''/v1/voices'', reg_route = Voices_Route\<rparr>,
     \<lparr>reg_method = ''POST'', reg_pattern = ''/v1/audio/speech'', reg_route = Speech_Route\<rparr>]"

type_synonym matcher = "registration list \<Rightarrow> string \<Rightarrow> string \<Rightarrow> route option"

text \<open>The matching of plain paths, and a matcher that does it.\<close>

definition matches_paths :: "matcher \<Rightarrow> bool" where
  "matches_paths match \<longleftrightarrow> (\<forall>rs verb path r. match rs verb path = Some r
     \<longrightarrow> (\<exists>reg \<in> set rs. reg_pattern reg = path \<and> reg_route reg = r))"

definition exact_match :: matcher where
  "exact_match rs verb path = map_option reg_route
     (find (\<lambda>reg. reg_method reg = verb \<and> reg_pattern reg = path) rs)"

lemma exact_match_paths [simp]: "matches_paths exact_match"
proof -
  have "\<exists>reg \<in> set rs. reg_pattern reg = path \<and> reg_route reg = r"
    if "exact_match rs verb path = Some r" for rs verb path r
    using that by (auto simp: exact_match_def find_Some_iff intro!: bexI nth_mem)
  then show ?thesis by (simp add: matches_paths_def)
qed

subsection \<open>Answering a request\<close>

text \<open>What the routes take from outside: the clock and the version for \<^verbatim>\<open>/health\<close>, the serialized
  registry for \<^verbatim>\<open>/metrics\<close>, a fresh request id, the thread's log id, and the environments of the
  middleware and of the speech handler.\<close>

record 'b serve_env =
  se_version :: string
  se_now :: time_point
  se_serialized :: string
  se_request_id :: string
  se_thread_id :: string
  se_middleware :: middleware_env
  se_speech :: "'b TtsServer \<Rightarrow> 'b speech_env"

text \<open>An exception that leaves a handler is caught by the library, which sets the status 500 and calls the
  error handler, as documented for a server without an exception handler of its own; only the speech
  handler lets one through. What the library itself adds to such an answer is not among the calls.\<close>

definition caught :: "'j json_library \<Rightarrow> string \<Rightarrow> route_result \<Rightarrow> route_result" where
  "caught lib request_id r = (case rr_calls r of
     Some calls \<Rightarrow> r
   | None \<Rightarrow> r\<lparr>rr_calls := Some (Set_Status 500 # error_handler lib request_id 500)\<rparr>)"

text \<open>Without a route the library answers 404 and calls the error handler. \<open>None\<close>: the handler never
  returns.\<close>

definition serve ::
  "'j json_library \<Rightarrow> matcher \<Rightarrow> 'b serve_env \<Rightarrow> ('b \<Rightarrow> bool) \<Rightarrow> lib_request \<Rightarrow> 'b TtsServer
     \<Rightarrow> (route_result \<times> 'b TtsServer) option" where
  "serve lib match env ready req s =
     (let i = se_request_id env in
      case match registered_routes (lib_method req) (lib_path req) of
        Some Health_Route \<Rightarrow> Some (route_health lib (se_version env) (se_now env) i ready s, s)
      | Some Ready_Route \<Rightarrow> Some (route_ready lib i ready s, s)
      | Some Metrics_Route \<Rightarrow> Some (route_metrics (se_serialized env) (se_thread_id env), s)
      | Some Voices_Route \<Rightarrow> Some (route_voices lib (se_middleware env) i ready req s)
      | Some Speech_Route \<Rightarrow> map_option (\<lambda>(r, s'). (caught lib i r, s'))
          (route_speech lib (se_middleware env) (se_speech env) i ready req s)
      | None \<Rightarrow> Some (\<lparr>rr_calls = Some (Set_Status 404 # error_handler lib i 404), rr_metrics = [],
                       rr_request_id = se_thread_id env\<rparr>, s))"

subsection \<open>The listener's set-up\<close>

datatype listen_call =
    Set_Read_Timeout int int
  | Set_Write_Timeout int int
  | Set_Payload_Max_Length int
  | Listen string int

definition start_calls :: "ServerConfig \<Rightarrow> listen_call list" where
  "start_calls cfg = [
     Set_Read_Timeout (request_timeout_seconds cfg) 0,
     Set_Write_Timeout (request_timeout_seconds cfg) 0,
     Set_Payload_Max_Length 1048576,
     Listen (host cfg) (port cfg)]"

text \<open>\<^verbatim>\<open>start\<close> as a whole: \<open>during\<close> is what happens to the listener while \<^verbatim>\<open>listen\<close> blocks, and \<open>ok\<close> what
  it returns.\<close>

definition adapter_start ::
  "ServerConfig \<Rightarrow> (listener \<Rightarrow> listener) \<Rightarrow> bool \<Rightarrow> listener \<Rightarrow> bool \<times> listen_call list \<times> listener" where
  "adapter_start cfg during ok l = (ok, start_calls cfg, listener_end (during (listener_begin l)))"

definition adapter_destroy :: "listener \<Rightarrow> listener" where
  "adapter_destroy l = listener_stop l"

subsection \<open>Lemmas\<close>

text \<open>A reply is as documented when it is a success or an error document of the API.\<close>

definition documented :: "'j json_library \<Rightarrow> HttpResponse \<Rightarrow> bool" where
  "documented lib r \<longleftrightarrow> resp_status r = 200 \<or>
     (resp_status r \<in> {400, 401, 404, 413, 429, 500, 503} \<and> binary_body r = []
       \<and> lookup (resp_headers r) ''Content-Type'' = Some ''application/json''
       \<and> (\<exists>t c m p. resp_body r = json_dump lib (error_document t c m p)))"

lemma error_documented:
  "status \<in> {400, 401, 404, 413, 429, 500, 503} \<Longrightarrow> documented lib (make_error_response lib status t c m p)"
  by (auto simp: documented_def make_error_response_def json_response_fields)

lemma documented_header [simp]:
  "n \<noteq> ''Content-Type'' \<Longrightarrow> documented lib (set_header n v r) = documented lib r"
  by (simp add: documented_def)

lemma security_documented [simp]: "documented lib (apply_security_headers r i) = documented lib r"
  by (simp add: apply_security_headers_def Let_def)

lemma middleware_documented:
  "run_middleware lib env req s = (Some r, m, s') \<Longrightarrow> documented lib r"
  by (auto simp: run_middleware_def Let_def auth_limited_response_def rate_limited_response_def
      error_documented split: prod.splits if_splits)

definition error_reply :: "'j json_library \<Rightarrow> HttpResponse \<Rightarrow> bool" where
  "error_reply lib r \<longleftrightarrow> (\<exists>st t c m p. r = make_error_response lib st t c m p)"

lemma error_replies [simp]:
  "error_reply lib (make_error_response lib st t c m p)" "error_reply lib (make_error_from_validation lib v)"
  unfolding error_reply_def make_error_from_validation_def by blast+

lemma speech_checks_error:
  "speech_checks lib req deps = (Responds r, m) \<Longrightarrow> error_reply lib r"
  unfolding speech_checks_def Let_def
  by (auto simp: refuse_def split: if_splits parsed.splits option.splits)

lemma speech_submit_error:
  "speech_submit lib now owner seen p request = (Responds r, m) \<Longrightarrow> documented lib r"
  by (auto simp: speech_submit_def Let_def not_ready_response_def queue_full_response_def error_documented
      split: if_splits prod.splits)

lemma speech_finish_documented:
  "speech_finish lib t0 t1 q a = (r, m) \<Longrightarrow> documented lib r"
  by (auto simp: speech_finish_def Let_def inference_failed_response_def error_documented
      documented_def [of _ "_\<lparr>binary_body := _\<rparr>"] new_HttpResponse_def split: if_splits)

lemma handle_speech_documented:
  assumes "handle_speech lib env req deps = (Reply r, m, left)"
  shows "documented lib r"
proof -
  obtain c m1 where c: "speech_checks lib req deps = (c, m1)" by (cases "speech_checks lib req deps")
  show ?thesis
  proof (cases c)
    case (Responds x)
    then have "speech_checks lib req deps = (Responds r, m1)" using assms c by (simp add: handle_speech_def)
    from speech_checks_error [OF this] speech_checks_status [OF this] show ?thesis
      by (auto simp: error_reply_def error_response_fields intro: error_documented)
  next
    case Escapes
    with assms c show ?thesis by (simp add: handle_speech_def)
  next
    case (Continues request)
    with assms c show ?thesis
      by (auto simp: handle_speech_def dest: speech_submit_error speech_finish_documented
          split: prod.splits progress.splits option.splits)
  qed
qed

lemma middleware_refusal_status:
  "run_middleware lib env req s = (Some r, m, s') \<Longrightarrow> resp_status r \<in> {401, 429}"
  by (auto simp: run_middleware_def Let_def auth_limited_response_def rate_limited_response_def
      error_response_fields split: prod.splits if_splits)

lemma adapted_status [simp]: "Set_Status st \<in> set (adapt_response r) \<longleftrightarrow> resp_status r = st"
  by (auto simp: adapt_response_def)

lemma security_keeps [simp]:
  "resp_status (apply_security_headers r i) = resp_status r"
  "resp_body (apply_security_headers r i) = resp_body r"
  "binary_body (apply_security_headers r i) = binary_body r"
  "lookup (resp_headers (apply_security_headers r i)) ''Content-Type'' = lookup (resp_headers r) ''Content-Type''"
  by (simp_all add: apply_security_headers_def Let_def)

text \<open>The calls that send a documented reply.\<close>

definition sends_documented :: "'j json_library \<Rightarrow> response_call list \<Rightarrow> bool" where
  "sends_documented lib calls \<longleftrightarrow> hd calls = Set_Status 200 \<or>
     (\<exists>st t c m p. st \<in> {400, 401, 404, 413, 429, 500, 503} \<and> hd calls = Set_Status st
        \<and> last calls = Set_Content (json_dump lib (error_document t c m p)) ''application/json'')"

lemma adapt_documented: "documented lib r \<Longrightarrow> sends_documented lib (adapt_response r)"
  by (auto simp: documented_def sends_documented_def adapt_response_def is_binary_def)

lemma error_handler_documented: "sends_documented lib (Set_Status 404 # error_handler lib i 404)"
  by (auto simp: sends_documented_def error_handler_def error_response_fields Let_def)

text \<open>What the voices and speech routes send, when their handler returns, is a documented reply.\<close>

lemma route_voices_calls:
  "rr_calls (fst (route_voices lib env i ready req s)) = Some calls \<Longrightarrow> sends_documented lib calls"
  by (auto simp: route_voices_def respond_def Let_def handle_voices_def json_response_fields
      documented_def [of _ "json_response _ 200 _"] dest!: middleware_documented
      intro!: adapt_documented split: prod.splits option.splits)

lemma route_speech_calls:
  "route_speech lib env speech i ready req s = Some (r, s') \<Longrightarrow> rr_calls r = Some calls
     \<Longrightarrow> sends_documented lib calls"
  by (auto simp: route_speech_def respond_def Let_def dest!: middleware_documented
      handle_speech_documented intro!: adapt_documented split: prod.splits option.splits reply.splits)

lemma respond_caught [simp]: "caught lib i (respond i' e m) = respond i' e m"
  by (simp add: caught_def respond_def)

text \<open>The answer after an exception: the library's status, and nothing from the program.\<close>

definition bare_500 :: "'j json_library \<Rightarrow> matcher \<Rightarrow> lib_request \<Rightarrow> response_call list \<Rightarrow> bool" where
  "bare_500 lib match req calls \<longleftrightarrow> calls = [Set_Status 500]
     \<and> match registered_routes (lib_method req) (lib_path req) = Some Speech_Route
     \<and> throws_on lib (adapt_request req)"

lemma serve_speech_cases:
  assumes "serve lib match env ready req s = Some (r, s')"
    and "match registered_routes (lib_method req) (lib_path req) = Some Speech_Route"
  obtains (responds) resp m where "r = respond (se_request_id env) resp m"
    "route_speech lib (se_middleware env) (se_speech env) (se_request_id env) ready req s = Some (r, s')"
  | (thrown) calls where "rr_calls r = Some calls" "bare_500 lib match req calls" "rr_request_id r = se_request_id env"
proof -
  obtain r0 where r0: "route_speech lib (se_middleware env) (se_speech env) (se_request_id env) ready req s
      = Some (r0, s')" and r: "r = caught lib (se_request_id env) r0"
    using assms by (auto simp: serve_def Let_def)
  from r0 show thesis
  proof (cases rule: route_speech_cases)
    case (responds resp m)
    with r r0 show thesis by (intro that(1)) simp_all
  next
    case thrown
    with r assms(2) show thesis by (intro that(2)) (simp_all add: caught_def bare_500_def error_handler_def)
  qed
qed

lemma serve_documented:
  assumes "serve lib match env ready req s = Some (r, s')"
    and "match registered_routes (lib_method req) (lib_path req) \<noteq> Some Ready_Route"
  shows "\<exists>calls. rr_calls r = Some calls \<and> (sends_documented lib calls \<or> bare_500 lib match req calls)"
proof (cases "match registered_routes (lib_method req) (lib_path req)")
  case None
  with assms error_handler_documented show ?thesis by (auto simp: serve_def Let_def)
next
  case (Some rt)
  have ok: "sends_documented lib (adapt_response x)" if "resp_status x = 200" for x
    using that by (intro adapt_documented) (simp add: documented_def)
  show ?thesis
  proof (cases rt)
    case Health_Route
    with assms Some show ?thesis
      by (auto simp: serve_def Let_def route_health_def respond_def handle_health_def json_response_fields intro!: ok)
  next
    case Metrics_Route
    with assms Some show ?thesis
      by (auto simp: serve_def Let_def route_metrics_def handle_metrics_def new_HttpResponse_def intro!: ok)
  next
    case Voices_Route
    then have "fst (route_voices lib (se_middleware env) (se_request_id env) ready req s) = r"
      using assms Some by (simp add: serve_def Let_def)
    moreover obtain calls where "rr_calls r = Some calls"
      using calculation by (auto simp: route_voices_def respond_def Let_def split: prod.splits option.splits)
    ultimately show ?thesis
      using route_voices_calls [of lib "se_middleware env" "se_request_id env" ready req s calls] by simp
  next
    case Speech_Route
    with Some have rt: "match registered_routes (lib_method req) (lib_path req) = Some Speech_Route" by simp
    show ?thesis
    proof (cases rule: serve_speech_cases [OF assms(1) rt])
      case (1 resp m)
      have "rr_calls r = Some (adapt_response (apply_security_headers resp (se_request_id env)))"
        by (simp add: 1(1) respond_def)
      with route_speech_calls [OF 1(2) this] show ?thesis by simp
    qed blast
  qed (use assms Some in simp)
qed

text \<open>The security headers, and the log id a route leaves.\<close>

lemma respond_headers:
  "\<exists>calls. rr_calls (respond i e m) = Some calls \<and> set (security_headers i) \<subseteq> set calls
     \<and> rr_request_id (respond i e m) = []"
  by (simp add: respond_def respond_secure)

lemma serve_secure:
  assumes "serve lib match env ready req s = Some (r, s')"
    and "match registered_routes (lib_method req) (lib_path req) \<noteq> Some Metrics_Route"
  shows "\<exists>calls. rr_calls r = Some calls \<and>
    (set (security_headers (se_request_id env)) \<subseteq> set calls
       \<and> rr_request_id r = (if match registered_routes (lib_method req) (lib_path req) = None
           then se_thread_id env else [])
     \<or> bare_500 lib match req calls \<and> rr_request_id r = se_request_id env)"
proof (cases "match registered_routes (lib_method req) (lib_path req)")
  case None
  have "set (security_headers i) \<subseteq> set (error_handler lib i 404)" for i
    using security_headers_in by (force simp: error_handler_def security_headers_def Let_def)
  then have "set (security_headers (se_request_id env))
      \<subseteq> set (Set_Status 404 # error_handler lib (se_request_id env) 404)"
    by (simp add: subset_insertI2)
  moreover have "rr_calls r = Some (Set_Status 404 # error_handler lib (se_request_id env) 404)"
    "rr_request_id r = se_thread_id env" using None assms(1) by (auto simp: serve_def Let_def)
  ultimately show ?thesis using None by simp
next
  case (Some rt)
  have "rt = Speech_Route \<or> (\<exists>e m. r = respond (se_request_id env) e m)"
    using assms Some by (cases rt) (auto simp: serve_def Let_def route_health_def route_ready_def
        route_voices_def split: prod.splits option.splits)
  then show ?thesis
  proof
    assume "\<exists>e m. r = respond (se_request_id env) e m"
    with Some respond_headers show ?thesis by fastforce
  next
    assume "rt = Speech_Route"
    with Some have rt: "match registered_routes (lib_method req) (lib_path req) = Some Speech_Route" by simp
    show ?thesis
    proof (cases rule: serve_speech_cases [OF assms(1) rt])
      case (1 resp m)
      with rt respond_headers show ?thesis by fastforce
    qed (use rt in auto)
  qed
qed

text \<open>A success beyond the probes went through the middleware.\<close>

lemma refused_routes:
  assumes "run_middleware lib env (adapt_request req) s = (Some e, m, t)"
  shows "route_voices lib env i ready req s = (respond i e m, t)"
    and "route_speech lib env speech i ready req s = Some (respond i e m, t)"
  using assms by (simp_all add: route_voices_def route_speech_def Let_def)

lemma respond_status: "rr_calls (respond i e m) = Some calls \<Longrightarrow> Set_Status st \<in> set calls \<longleftrightarrow> resp_status e = st"
  by (auto simp: respond_def)

lemma serve_admitted:
  assumes "serve lib match env ready req s = Some (r, s')" and "rr_calls r = Some calls"
    and "Set_Status 200 \<in> set calls" and "matches_paths match"
    and "lib_path req \<notin> {''/health'', ''/ready'', ''/metrics''}"
  shows "fst (run_middleware lib (se_middleware env) (adapt_request req) s) = None"
proof -
  obtain rt where rt: "match registered_routes (lib_method req) (lib_path req) = Some rt"
  proof (cases "match registered_routes (lib_method req) (lib_path req)")
    case None
    with assms(1-3) have False by (auto simp: serve_def error_handler_def Let_def)
    then show ?thesis ..
  qed
  obtain reg where "reg \<in> set registered_routes" "reg_pattern reg = lib_path req" "reg_route reg = rt"
    using assms(4) rt unfolding matches_paths_def by metis
  with assms(5) have "rt \<in> {Voices_Route, Speech_Route}"
    unfolding registered_routes_def by (simp, elim disjE, simp_all)
  then have route: "serve lib match env ready req s
      = (if rt = Voices_Route then Some (route_voices lib (se_middleware env) (se_request_id env) ready req s)
         else map_option (\<lambda>(r, s'). (caught lib (se_request_id env) r, s'))
           (route_speech lib (se_middleware env) (se_speech env) (se_request_id env) ready req s))"
    using rt by (auto simp: serve_def Let_def)
  show ?thesis
  proof (cases "run_middleware lib (se_middleware env) (adapt_request req) s")
    case (fields reply m t)
    show ?thesis
    proof (cases reply)
      case (Some e)
      with fields have run: "run_middleware lib (se_middleware env) (adapt_request req) s = (Some e, m, t)" by simp
      have "r = respond (se_request_id env) e m"
        using assms(1) unfolding route refused_routes [OF run] by (simp split: if_splits)
      then have "resp_status e = 200" using assms(2,3) respond_status by blast
      with middleware_refusal_status [OF run] show ?thesis by simp
    qed (simp add: fields)
  qed
qed

lemma middleware_counts: "counted_statuses (fst (snd (run_middleware lib env req s))) = []"
  by (auto simp: run_middleware_def Let_def split: prod.splits)

text \<open>The counter of requests by status does not see what the middleware refuses.\<close>

lemma refusals_not_counted:
  assumes "run_middleware lib (se_middleware env) (adapt_request req) s = (Some e, m, t)"
    and "serve lib match env ready req s = Some (r, s')"
  shows "counted_statuses (rr_metrics r) = []"
proof -
  have m: "counted_statuses m = []"
    using middleware_counts [of lib "se_middleware env" "adapt_request req" s] assms(1) by simp
  show ?thesis
  proof (cases "match registered_routes (lib_method req) (lib_path req)")
    case None
    with assms(2) show ?thesis by (auto simp: serve_def Let_def)
  next
    case (Some rt)
    with assms(2) m show ?thesis
      by (cases rt; auto simp: serve_def Let_def route_health_def route_ready_def route_metrics_def
          refused_routes [OF assms(1)]; simp add: respond_def)
  qed
qed

definition example_serve_env :: "MockBackend serve_env" where
  "example_serve_env = \<lparr>se_version = ''1'', se_now = 9, se_serialized = [], se_request_id = ''id'',
     se_thread_id = [], se_middleware = example_mw, se_speech = (\<lambda>_. example_env)\<rparr>"

subsection \<open>Properties\<close>

text \<open>C15. Nothing but the probes without the key: over all routes and with authentication required, a
  request whose path is not one of the three internal ones is answered 200 only if its \<^verbatim>\<open>Authorization\<close>
  header is \<open>Bearer \<close> and the configured key; or, when the key or what follows \<open>Bearer \<close> has 256 bytes
  or more, a text whose length differs from the key's by a multiple of 256 and that agrees with it as
  far as both go. And the address of the request is not blocked.\<close>

theorem no_success_without_key:
  assumes "serve lib match env ready req s = Some (r, s')" and "rr_calls r = Some calls"
    and "Set_Status 200 \<in> set calls" and "matches_paths match"
    and "lib_path req \<notin> {''/health'', ''/ready'', ''/metrics''}" and "require_auth (srv_config s)"
  shows "let key = api_key (srv_config s) in
    (\<exists>token. header (adapt_request req) ''authorization'' = ''Bearer '' @ token
      \<and> (token = key \<or>
         256 \<le> max (length token) (length key) \<and> length token mod 256 = length key mod 256
         \<and> take (min (length token) (length key)) token = take (min (length token) (length key)) key))
    \<and> \<not> mw_blocked (se_middleware env) (adapt_request req) s"
proof -
  have "fst (run_middleware lib (se_middleware env) (adapt_request req) s) = None"
    using assms(1-5) by (rule serve_admitted)
  moreover have "\<not> is_internal_endpoint (req_path (adapt_request req))"
    using assms(5) by (simp add: is_internal_endpoint_def adapt_request_def)
  ultimately show ?thesis using admitted_with_key assms(6) by (simp add: Let_def)
qed

theorem no_success_without_key_witness:
  "header (adapt_request example_lib_request) ''authorization'' = ''Bearer '' @ ''k''"
proof -
  have adapted: "adapt_request example_lib_request = example_get"
    by code_simp
  have cfg: "srv_config example_server = default_config\<lparr>require_auth := True, api_key := ''k''\<rparr>"
    by (simp add: example_server_def new_TtsServer_def Let_def)
  obtain m t where run: "run_middleware (example_library None) example_mw example_get example_server = (None, m, t)"
    using example_admitted by (metis prod.collapse)
  let ?r = "respond ''id'' (handle_voices (example_library None) (make_deps mock_is_ready t)) m"
  have s: "serve (example_library None) exact_match example_serve_env mock_is_ready example_lib_request example_server
      = Some (?r, t)"
    by (simp add: serve_def exact_match_def registered_routes_def example_lib_request_def
        example_serve_env_def route_voices_def run adapted [unfolded example_lib_request_def] Let_def)
  have path: "lib_path example_lib_request \<notin> {''/health'', ''/ready'', ''/metrics''}"
    by (simp add: example_lib_request_def)
  have auth: "require_auth (srv_config example_server)" unfolding cfg by simp
  have "rr_calls ?r = Some (adapt_response (apply_security_headers (handle_voices (example_library None)
      (make_deps mock_is_ready t)) ''id''))" by (simp add: respond_def)
  from no_success_without_key [OF s this _ exact_match_paths path auth] show ?thesis
    unfolding cfg adapted by (auto simp: handle_voices_def json_response_fields example_get_def header_def)
qed

text \<open>C28. Every refusal has the API's form: whatever the request, the route and the server's state, an
  answer is a success or carries one of the statuses 400, 401, 404, 413, 429, 500 and 503 with a
  JSON error document and its content type. There are two exceptions: the readiness probe, which reports
  503 in a document of its own, and a speech request on whose body the JSON library throws something
  else than its parse error, a field of a wrong type for instance, which gets the status 500 of the library
  without any content from the program.\<close>

theorem refusals_are_error_documents:
  assumes "serve lib match env ready req s = Some (r, s')"
    and "match registered_routes (lib_method req) (lib_path req) \<noteq> Some Ready_Route"
  shows "\<exists>calls. rr_calls r = Some calls \<and> (hd calls = Set_Status 200 \<or>
    (\<exists>st t c m p. st \<in> {400, 401, 404, 413, 429, 500, 503} \<and> hd calls = Set_Status st
      \<and> last calls = Set_Content (json_dump lib (error_document t c m p)) ''application/json'') \<or>
    (calls = [Set_Status 500] \<and> match registered_routes (lib_method req) (lib_path req) = Some Speech_Route
      \<and> throws_on lib (adapt_request req)))"
  using serve_documented [OF assms] by (simp add: sends_documented_def bare_500_def)

theorem refusals_are_error_documents_witness:
  "\<exists>calls. rr_calls (fst (the (serve (example_library None) exact_match example_serve_env mock_is_ready
       (example_lib_request\<lparr>lib_path := ''/x''\<rparr>) example_server))) = Some calls \<and> hd calls \<in> {Set_Status 200, Set_Status 404}"
proof -
  have s: "serve (example_library None) exact_match example_serve_env mock_is_ready
      (example_lib_request\<lparr>lib_path := ''/x''\<rparr>) example_server
    = Some (\<lparr>rr_calls = Some (Set_Status 404 # error_handler (example_library None) ''id'' 404), rr_metrics = [],
         rr_request_id = []\<rparr>, example_server)"
    by (simp add: serve_def exact_match_def registered_routes_def example_lib_request_def example_serve_env_def Let_def)
  have "exact_match registered_routes (lib_method (example_lib_request\<lparr>lib_path := ''/x''\<rparr>)) ''/x'' \<noteq> Some Ready_Route"
    by (simp add: exact_match_def registered_routes_def)
  with refusals_are_error_documents [OF s] show ?thesis unfolding s by simp
qed

text \<open>C38. Every answer of the API but that of \<^verbatim>\<open>/metrics\<close> carries the three security headers, with the
  request's own id: the probes, the voices and speech routes, refusals of the middleware included, and
  the 404 handler; and each of these routes leaves the thread's log id cleared, while the 404 handler does
  not touch it. The exception is again a speech request on whose body the JSON library throws: the
  library's status 500 gets no header from the program, and the thread keeps the request's log id.\<close>

theorem responses_carry_security_headers:
  assumes "serve lib match env ready req s = Some (r, s')"
    and "match registered_routes (lib_method req) (lib_path req) \<noteq> Some Metrics_Route"
  shows "\<exists>calls. rr_calls r = Some calls \<and>
    (set (security_headers (se_request_id env)) \<subseteq> set calls
       \<and> rr_request_id r = (if match registered_routes (lib_method req) (lib_path req) = None
           then se_thread_id env else [])
     \<or> calls = [Set_Status 500] \<and> match registered_routes (lib_method req) (lib_path req) = Some Speech_Route
       \<and> throws_on lib (adapt_request req) \<and> rr_request_id r = se_request_id env)"
  using serve_secure [OF assms] by (simp add: bare_500_def)

theorem responses_carry_security_headers_witness:
  "\<exists>calls. rr_calls (fst (the (serve (example_library None) exact_match example_serve_env mock_is_ready
       (example_lib_request\<lparr>lib_path := ''/x''\<rparr>) example_server))) = Some calls
     \<and> set (security_headers ''id'') \<subseteq> set calls"
proof -
  have s: "serve (example_library None) exact_match example_serve_env mock_is_ready
      (example_lib_request\<lparr>lib_path := ''/x''\<rparr>) example_server
    = Some (\<lparr>rr_calls = Some (Set_Status 404 # error_handler (example_library None) ''id'' 404), rr_metrics = [],
         rr_request_id = []\<rparr>, example_server)"
    by (simp add: serve_def exact_match_def registered_routes_def example_lib_request_def example_serve_env_def Let_def)
  have "exact_match registered_routes (lib_method (example_lib_request\<lparr>lib_path := ''/x''\<rparr>)) ''/x'' = None"
    by (simp add: exact_match_def registered_routes_def)
  with responses_carry_security_headers [OF s] show ?thesis unfolding s by (simp add: example_serve_env_def)
qed

end
