(* ===== verification/BruteForce.thy ===== *)
theory BruteForce
  imports HttpAdapter
begin

text \<open>
  The authentication limiter as the middleware uses it. While the addresses that fail to authenticate
  fit in its table, nothing is evicted and the limiter meets the exact contract of \<open>WindowCounter\<close>, which
  \<open>Threads\<close> uses to bound the wrong keys the middleware looks at. The middleware asks the limiter before
  it looks at the key and tells it of every wrong one: these are its events.
\<close>

subsection \<open>The authentication limiter below its cap\<close>

definition auth_well_in :: "string set \<Rightarrow> auth_event \<Rightarrow> bool" where
  "auth_well_in A e \<longleftrightarrow> auth_well e \<and> (case auth_key e of None \<Rightarrow> True | Some ip \<Rightarrow> ip \<in> A)"

definition auth_inv_in :: "string set \<Rightarrow> int \<Rightarrow> nat \<Rightarrow> time_point \<Rightarrow> AuthRateLimiter \<Rightarrow> bool" where
  "auth_inv_in A window limit now limiter \<longleftrightarrow> auth_inv window limit now limiter \<and> 0 \<le> window
     \<and> fst ` set (auth_ip_states limiter) \<subseteq> A \<and> finite A \<and> card A \<le> auth_max_tracked_ips limiter"

text \<open>Fewer than \<open>b\<close> failures of the address are on record.\<close>

definition counts_below :: "nat \<Rightarrow> auth_event \<Rightarrow> AuthRateLimiter \<Rightarrow> bool" where
  "counts_below b e limiter = (case e of
     RecordFailure order now time ip \<Rightarrow> hits_in (auth_live limiter time ip) < b
   | AskBlocked now ip \<Rightarrow> False)"

lemma distinct_keys_length: "distinct_keys m \<Longrightarrow> fst ` set m \<subseteq> A \<Longrightarrow> finite A \<Longrightarrow> length m \<le> card A"
proof -
  assume m: "distinct_keys m" "fst ` set m \<subseteq> A" "finite A"
  have "length m = card (fst ` set m)"
    using m(1) distinct_card [of "map fst m"] by (simp add: distinct_keys_def)
  also have "\<dots> \<le> card A" using m(2,3) by (rule card_mono [rotated])
  finally show ?thesis .
qed

text \<open>Nothing is evicted.\<close>

lemma failure_below_cap:
  assumes "is_reorder order" and "auth_inv_in A window limit t limiter" and "ip \<in> A"
  shows "lookup (auth_ip_states (snd (check_and_record_failure order now fresh ip limiter)))
      = (lookup (auth_ip_states limiter))(ip \<mapsto> auth_entry now fresh limiter ip)"
    and "fst ` set (auth_ip_states (snd (check_and_record_failure order now fresh ip limiter))) \<subseteq> A"
proof -
  have d: "distinct_keys (auth_ip_states limiter)" and A: "fst ` set (auth_ip_states limiter) \<subseteq> A" "finite A"
      "card A \<le> auth_max_tracked_ips limiter"
    using assms(2) by (auto simp: auth_inv_in_def auth_inv_def)
  obtain m where m: "distinct_keys m" "lookup m = (lookup (auth_ip_states limiter))(ip \<mapsto> auth_entry now fresh limiter ip)"
    and r: "snd (check_and_record_failure order now fresh ip limiter) =
         (if auth_max_tracked_ips limiter > 0 \<and> length m > auth_max_tracked_ips limiter
          then evict_to_cap now (limiter\<lparr>auth_ip_states := m\<rparr>) else limiter\<lparr>auth_ip_states := m\<rparr>)"
    using check_and_record_failure_result [OF assms(1) d, of ip now fresh] by blast
  have "fst ` set m = dom (lookup m)" by (rule dom_map_of_conv_image_fst [symmetric])
  also have "\<dots> = insert ip (dom (lookup (auth_ip_states limiter)))" unfolding m(2) dom_fun_upd by simp
  also have "\<dots> \<subseteq> A" using A(1) assms(3) by (simp add: dom_map_of_conv_image_fst)
  finally have "fst ` set m \<subseteq> A" .
  moreover from distinct_keys_length [OF m(1) this A(2)] A(3) have "\<not> length m > auth_max_tracked_ips limiter"
    by simp
  ultimately have "auth_ip_states (snd (check_and_record_failure order now fresh ip limiter)) = m" "fst ` set m \<subseteq> A"
    using r by simp_all
  with m(2) show "lookup (auth_ip_states (snd (check_and_record_failure order now fresh ip limiter)))
      = (lookup (auth_ip_states limiter))(ip \<mapsto> auth_entry now fresh limiter ip)"
    and "fst ` set (auth_ip_states (snd (check_and_record_failure order now fresh ip limiter))) \<subseteq> A"
    by (simp_all only:)
qed

lemma is_blocked_keys: "fst ` set (auth_ip_states (snd (is_blocked now ip limiter))) \<subseteq> fst ` set (auth_ip_states limiter)"
proof -
  have "dom (lookup (auth_ip_states (snd (is_blocked now ip limiter)))) \<subseteq> dom (lookup (auth_ip_states limiter))"
    using is_blocked_lookup [of now ip limiter] by (auto simp: dom_def) (metis option.distinct(1))
  then show ?thesis by (simp add: dom_map_of_conv_image_fst)
qed

lemma ask_keeps_live:
  "auth_live (snd (is_blocked now ip limiter)) now k = auth_live limiter now k"
proof -
  have same: "auth_expired (snd (is_blocked now ip limiter)) = auth_expired limiter"
    using is_blocked_frame(1) [of now ip limiter] by (simp add: auth_expired_def fun_eq_iff)
  from is_blocked_lookup [of now ip limiter k] show ?thesis
    unfolding auth_live_def same by (elim disjE) auto
qed

lemma auth_hit_in:
  assumes "auth_inv_in A window limit t limiter" and "t \<le> auth_time e" and "auth_well_in A e"
  shows "auth_inv_in A window limit (auth_time e) (auth_hit e limiter)"
    and "auth_live (auth_hit e limiter) (auth_time e) = bump (auth_key e) (auth_time e) (auth_live limiter (auth_time e))"
proof -
  have inv: "auth_inv window limit t limiter" and w: "auth_well e"
    using assms by (simp_all add: auth_inv_in_def auth_well_in_def)
  have "auth_max_tracked_ips (auth_hit e limiter) = auth_max_tracked_ips limiter
      \<and> fst ` set (auth_ip_states (auth_hit e limiter)) \<subseteq> A
      \<and> auth_live (auth_hit e limiter) (auth_time e) = bump (auth_key e) (auth_time e) (auth_live limiter (auth_time e))"
  proof (cases e)
    case (RecordFailure order now time ip)
    have o: "is_reorder order" "now \<le> time" "ip \<in> A" using assms(3) RecordFailure by (simp_all add: auth_well_in_def)
    have d: "distinct_keys (auth_ip_states limiter)" using inv by (simp add: auth_inv_def)
    have win: "0 \<le> window" "window_secs limiter = window" using assms(1) by (simp_all add: auth_inv_in_def auth_inv_def)
    let ?now = "first_reading now time (auth_ip_states limiter) ip"
    let ?limiter = "snd (check_and_record_failure order ?now time ip limiter)"
    have entry: "auth_entry ?now time limiter ip = auth_entry time time limiter ip"
      using auth_entry_first [OF o(2), of limiter ip] win by auto
    note l = auth_failure_lookup(1,3) [OF o(1) d, of ?now time ip]
    note b = failure_below_cap [OF o(1) assms(1) o(3), of ?now time, unfolded entry]
    have "auth_live ?limiter time k = bump (Some ip) time (auth_live limiter time) k" for k
    proof (cases "k = ip")
      case True
      have "\<not> auth_expired limiter time (auth_entry time time limiter ip)"
        using win by (auto simp: auth_entry_def auth_expired_def ns_per_sec_def Let_def split: option.split)
      then have "\<not> auth_expired ?limiter time (auth_entry time time limiter ip)"
        using l(1) by (simp add: auth_expired_def)
      with True b(1) auth_entry_live [of time limiter ip] show ?thesis by (simp add: auth_live_def)
    next
      case False
      with b(1) have "lookup (auth_ip_states ?limiter) k = lookup (auth_ip_states limiter) k" by simp
      from auth_live_same_window [OF l(1) this] False show ?thesis by (simp add: bump_def)
    qed
    with RecordFailure b(2) l(2) show ?thesis by auto
  next
    case (AskBlocked now ip)
    have "fst ` set (auth_ip_states limiter) \<subseteq> A" using assms(1) by (simp add: auth_inv_in_def)
    with is_blocked_keys [of now ip limiter] have "fst ` set (auth_ip_states (snd (is_blocked now ip limiter))) \<subseteq> A"
      by (rule subset_trans)
    with AskBlocked is_blocked_frame(3) [of now ip limiter] show ?thesis
      by (simp add: fun_eq_iff ask_keeps_live bump_def)
  qed
  with auth_hit_inv [OF inv assms(2) w] assms(1)
  show "auth_inv_in A window limit (auth_time e) (auth_hit e limiter)"
    and "auth_live (auth_hit e limiter) (auth_time e) = bump (auth_key e) (auth_time e) (auth_live limiter (auth_time e))"
    by (simp_all add: auth_inv_in_def)
qed

text \<open>The contract with any bound on the failures on record of an address.\<close>

interpretation auth_exact:
  exact_counter auth_hit auth_key auth_time "auth_well_in A" "auth_inv_in A window limit" auth_live
    "window * ns_per_sec" "counts_below b" b
  for A window limit b
proof unfold_locales
  fix t u limiter k and e :: auth_event
  assume inv: "auth_inv_in A window limit t limiter"
  then have w: "auth_inv window limit t limiter" by (simp add: auth_inv_in_def)
  show "auth_inv_in A window limit u limiter" if "t \<le> u"
    using inv auth_window.invar_later [OF w that] by (simp add: auth_inv_in_def)
  show "auth_inv_in A window limit (auth_time e) (auth_hit e limiter)"
    and hit: "auth_live (auth_hit e limiter) (auth_time e) = bump (auth_key e) (auth_time e) (auth_live limiter (auth_time e))"
    if "t \<le> auth_time e" "auth_well_in A e"
    using auth_hit_in [OF inv that] .
  then show "auth_live (auth_hit e limiter) (auth_time e) k
      \<in> {None, bump (auth_key e) (auth_time e) (auth_live limiter (auth_time e)) k}"
    if "t \<le> auth_time e" "auth_well_in A e"
    using that by simp
  show "auth_live limiter u k = (case auth_live limiter t k of None \<Rightarrow> None
      | Some (c, w) \<Rightarrow> if u - w \<le> window * ns_per_sec then Some (c, w) else None)" if "t \<le> u"
    using w that by (rule auth_window.live_later)
  show "x \<le> t \<and> t - x \<le> window * ns_per_sec" if "auth_live limiter t k = Some (c, x)" for c x
    using w that by (rule auth_window.live_started)
  show "counts_below b e limiter \<longleftrightarrow> Suc (hits_in (auth_live limiter (auth_time e) k)) \<le> b"
    if "auth_key e = Some k"
    using that by (cases e) (auto simp: counts_below_def)
qed

lemma live_hits_later:
  assumes "auth_inv_in A window limit t limiter" and "t \<le> u"
  shows "hits_in (auth_live limiter u ip) \<le> hits_in (auth_live limiter t ip)"
  using auth_exact.live_later [OF assms, of ip] by (auto simp: hits_in_def split: option.splits)

subsection \<open>The middleware and the limiter\<close>

text \<open>The middleware looked at the key of the request and found it wrong.\<close>

definition wrong_key :: "'j json_library \<Rightarrow> middleware_env \<Rightarrow> HttpRequest \<Rightarrow> 'b TtsServer \<Rightarrow> bool" where
  "wrong_key lib env req s \<longleftrightarrow> (case fst (run_middleware lib env req s) of
     None \<Rightarrow> False | Some r \<Rightarrow> resp_status r = 401)"

lemma wrong_key_iff:
  "wrong_key lib env req s \<longleftrightarrow> \<not> is_internal_endpoint (req_path req) \<and> \<not> mw_blocked env req s
     \<and> mw_answer env req s \<le> 0 \<and> \<not> mw_authenticated req s"
  by (auto simp: wrong_key_def run_middleware_def mw_blocked_def mw_answer_def mw_authenticated_def
      auth_limited_response_def rate_limited_response_def reply_simps Let_def split: prod.splits)

text \<open>What it asks and tells the authentication limiter on the way.\<close>

definition mw_auth_events :: "'j json_library \<Rightarrow> middleware_env \<Rightarrow> HttpRequest \<Rightarrow> 'b TtsServer \<Rightarrow> auth_event list" where
  "mw_auth_events lib env req s =
     (let ip = client_address (srv_config s) req in
      if is_internal_endpoint (req_path req) \<or> \<not> require_auth (srv_config s) then []
      else AskBlocked (mw_blocked_at env) ip
        # (if wrong_key lib env req s
           then [failure_of_call (mw_failure_order env) (mw_failure_at env) (mw_failure_fresh env) ip
              (snd (is_blocked (mw_blocked_at env) ip (srv_auth_limiter s)))] else []))"

lemma run_middleware_auth_limiter:
  "srv_auth_limiter (snd (snd (run_middleware lib env req s)))
    = fold auth_hit (mw_auth_events lib env req s) (srv_auth_limiter s)"
  by (auto simp: mw_auth_events_def wrong_key_iff run_middleware_def mw_blocked_def
      mw_answer_def mw_authenticated_def Let_def record_failure_call [symmetric] split: prod.splits)

text \<open>The clock readings of a request follow one another.\<close>

definition env_ok :: "time_point \<Rightarrow> middleware_env \<Rightarrow> bool" where
  "env_ok t env \<longleftrightarrow> sorted [t, mw_blocked_at env, mw_request_at env, mw_request_fresh env,
       mw_failure_at env, mw_failure_fresh env]
     \<and> is_reorder (mw_request_order env) \<and> is_reorder (mw_failure_order env)"

lemma mw_auth_events_ok:
  assumes "env_ok t env"
  shows "sorted (t # map auth_time (mw_auth_events lib env req s))" and "t \<le> mw_failure_fresh env"
    and "\<forall>e \<in> set (mw_auth_events lib env req s). auth_well e \<and> auth_time e \<le> mw_failure_fresh env"
proof -
  let ?m = "auth_ip_states (snd (is_blocked (mw_blocked_at env) (client_address (srv_config s) req) (srv_auth_limiter s)))"
  have "mw_failure_at env \<le> mw_failure_fresh env" using assms by (simp add: env_ok_def)
  from seen_at_range [OF this, of ?m "client_address (srv_config s) req"] assms
  show "sorted (t # map auth_time (mw_auth_events lib env req s))" "t \<le> mw_failure_fresh env"
    "\<forall>e \<in> set (mw_auth_events lib env req s). auth_well e \<and> auth_time e \<le> mw_failure_fresh env"
    by (auto simp: mw_auth_events_def env_ok_def Let_def)
qed

subsection \<open>Properties\<close>

definition example_guess :: HttpRequest where
  "example_guess = example_get\<lparr>req_headers := [(''authorization'', ''Bearer x'')]\<rparr>"

text \<open>The refusal of a blocked address names 60 seconds whatever the window is: a client that is told
  to retry after 60 seconds and does so is refused again, as long as the window of its failures is
  still open then.\<close>

theorem auth_retry_after_ignores_window:
  assumes "require_auth (srv_config s)" and "\<not> is_internal_endpoint (req_path req)"
    and "lookup (auth_ip_states (srv_auth_limiter s)) (client_address (srv_config s) req) = Some st"
    and "max_failures (srv_auth_limiter s) < failures st"
    and "mw_blocked_at env + 60 * ns_per_sec
      \<le> failure_window_start st + window_secs (srv_auth_limiter s) * ns_per_sec"
    and "mw_blocked_at env' = mw_blocked_at env + 60 * ns_per_sec"
  shows "fst (run_middleware lib env req s) = Some (auth_limited_response lib)
    \<and> lookup (resp_headers (auth_limited_response lib)) ''Retry-After'' = Some ''60''
    \<and> fst (run_middleware lib env' req (snd (snd (run_middleware lib env req s))))
        = Some (auth_limited_response lib)"
proof -
  let ?ip = "client_address (srv_config s) req"
  have b: "is_blocked (mw_blocked_at env) ?ip (srv_auth_limiter s) = (True, srv_auth_limiter s)"
    "is_blocked (mw_blocked_at env') ?ip (srv_auth_limiter s) = (True, srv_auth_limiter s)"
    using assms(3-6) by (auto simp: is_blocked_def auth_expired_def ns_per_sec_def)
  then have r: "run_middleware lib env req s = (Some (auth_limited_response lib), [Requests_Rejected_Auth], s)"
    "run_middleware lib env' req s = (Some (auth_limited_response lib), [Requests_Rejected_Auth], s)"
    using assms(1,2) by (simp_all add: run_middleware_def Let_def)
  show ?thesis by (simp add: r auth_limited_response_def)
qed

theorem auth_retry_after_ignores_window_witness:
  "fst (run_middleware (example_library None) (example_mw\<lparr>mw_blocked_at := 60000000001\<rparr>) example_guess
     (example_server\<lparr>srv_auth_limiter := (new_auth_limiter 1 120)\<lparr>auth_ip_states :=
        [(''1.2.3.4'', \<lparr>failures = 2, failure_window_start = 0\<rparr>)]\<rparr>\<rparr>))
   = Some (auth_limited_response (example_library None))"
proof -
  let ?s = "example_server\<lparr>srv_auth_limiter := (new_auth_limiter 1 120)\<lparr>auth_ip_states :=
        [(''1.2.3.4'', \<lparr>failures = 2, failure_window_start = 0\<rparr>)]\<rparr>\<rparr>"
  let ?env' = "example_mw\<lparr>mw_blocked_at := 60000000001\<rparr>"
  have a: "client_address (srv_config ?s) example_guess = ''1.2.3.4''" "require_auth (srv_config ?s)"
    "\<not> is_internal_endpoint (req_path example_guess)"
    by (simp_all add: client_address_def extract_client_ip_def example_server_def new_TtsServer_def
        default_config_def example_guess_def example_get_def is_internal_endpoint_def Let_def)
  have b: "is_blocked 1 ''1.2.3.4'' (srv_auth_limiter ?s) = (True, srv_auth_limiter ?s)"
    by (simp add: is_blocked_def auth_expired_def new_auth_limiter_def ns_per_sec_def)
  have "snd (snd (run_middleware (example_library None) example_mw example_guess ?s)) = ?s"
    using a b by (simp add: run_middleware_def example_mw_def Let_def)
  with auth_retry_after_ignores_window [OF a(2,3), of "\<lparr>failures = 2, failure_window_start = 0\<rparr>"
      example_mw ?env' "example_library None"] a(1) show ?thesis
    by (simp add: new_auth_limiter_def example_mw_def ns_per_sec_def)
qed

end
