(* ===== verification/Threads.thy ===== *)
theory Threads
  imports BruteForce
begin

text \<open>
  Handler threads in the middleware. The HTTP library runs \<^verbatim>\<open>run_middleware\<close> in the threads of its
  pool; the limiters lock their table for one call each, so another thread may come between the
  question whether an address is blocked and the record of its failure. \<open>mw_step\<close> interleaves the
  three parts of the middleware of at most \<open>n\<close> requests, and what one address can get is bounded for
  every interleaving: every thread in flight can add one wrong key to what the limiter
  allows. Incrementing an atomic counter is taken together with the part it belongs to.
\<close>

subsection \<open>The parts of the middleware\<close>

text \<open>A part ends the middleware with a reply, or with \<^verbatim>\<open>std::nullopt\<close>, or goes on to the next.\<close>

type_synonym 'b part = "HttpResponse option option \<times> metric_call list \<times> 'b TtsServer"

definition ask_part :: "'j json_library \<Rightarrow> time_point \<Rightarrow> HttpRequest \<Rightarrow> 'b TtsServer \<Rightarrow> 'b part" where
  "ask_part lib now req s =
    (let cfg = srv_config s in
     if is_internal_endpoint (req_path req) then (Some None, [], s) else
     if require_auth cfg then
       let (blocked, limiter) = is_blocked now (client_address cfg req) (srv_auth_limiter s);
           s = s\<lparr>srv_auth_limiter := limiter\<rparr> in
       if blocked then (Some (Some (auth_limited_response lib)), [Requests_Rejected_Auth], s)
       else (None, [], s)
     else (None, [], s))"

definition rate_part ::
  "'j json_library \<Rightarrow> ((string \<times> RequestIpState) list \<Rightarrow> (string \<times> RequestIpState) list)
     \<Rightarrow> time_point \<Rightarrow> time_point \<Rightarrow> HttpRequest \<Rightarrow> 'b TtsServer \<Rightarrow> 'b part" where
  "rate_part lib order now fresh req s =
    (let (retry_after, limiter) = check_request order now fresh (client_address (srv_config s) req)
           (srv_request_limiter s);
         s = s\<lparr>srv_request_limiter := limiter\<rparr> in
     if retry_after > 0
     then (Some (Some (rate_limited_response lib retry_after)), [Requests_Rejected_Rate_Limit], s)
     else (None, [], s))"

definition key_part ::
  "'j json_library \<Rightarrow> ((string \<times> AuthIpState) list \<Rightarrow> (string \<times> AuthIpState) list)
     \<Rightarrow> time_point \<Rightarrow> time_point \<Rightarrow> HttpRequest \<Rightarrow> 'b TtsServer \<Rightarrow> 'b part" where
  "key_part lib order now fresh req s =
    (let cfg = srv_config s in
     if require_auth cfg then
       let auth_result = check_bearer_auth (header req ''authorization'') (api_key cfg) in
       if \<not> authenticated auth_result then
         let (_, limiter) = check_and_record_failure order now fresh (client_address cfg req)
               (srv_auth_limiter s)
         in (Some (Some (make_error_response lib 401 ''authentication_error''
               (auth_error_code auth_result) (auth_error_message auth_result) [])),
             [Requests_Rejected_Auth], s\<lparr>srv_auth_limiter := limiter\<rparr>)
       else (Some None, [], s)
     else (Some None, [], s))"

text \<open>Taken in a row, the parts are the middleware.\<close>

lemma run_middleware_parts:
  "run_middleware lib env req s =
    (case ask_part lib (mw_blocked_at env) req s of
       (Some r, m, s') \<Rightarrow> (r, m, s')
     | (None, m, s') \<Rightarrow>
         (case rate_part lib (mw_request_order env) (mw_request_at env) (mw_request_fresh env) req s' of
            (Some r, m', s'') \<Rightarrow> (r, m @ m', s'')
          | (None, m', s'') \<Rightarrow>
              (case key_part lib (mw_failure_order env) (mw_failure_at env) (mw_failure_fresh env) req s'' of
                 (r, m'', s''') \<Rightarrow> (the r, m @ m' @ m'', s'''))))"
  by (auto simp: run_middleware_def ask_part_def rate_part_def key_part_def Let_def
      split: prod.splits)

subsection \<open>Threads\<close>

text \<open>Where a thread is: before the first part, the second, the third; or out of the middleware.
  \<open>th_counted\<close> is when the request limiter let it pass, \<open>th_last\<close> the time of its last part. A limiter
  call reads the clock at \<open>now\<close>, and at \<open>fresh\<close> if it makes a new entry; the later of its readings is
  its time.\<close>

datatype mw_stage = Asking | Unblocked | Counted | Ended "HttpResponse option"

record mw_thread =
  th_request :: HttpRequest
  th_stage :: mw_stage
  th_counted :: "time_point option"
  th_last :: time_point

record 'b mw_state =
  mt_server :: "'b TtsServer"
  mt_now :: time_point
  mt_threads :: "mw_thread list"
  mt_metrics :: "metric_call list"

definition mw_start :: "time_point \<Rightarrow> 'b TtsServer \<Rightarrow> 'b mw_state" where
  "mw_start now s = \<lparr>mt_server = s, mt_now = now, mt_threads = [], mt_metrics = []\<rparr>"

fun running_part :: "mw_stage \<Rightarrow> bool" where
  "running_part (Ended r) = False"
| "running_part st = True"

definition in_flight :: "mw_thread list \<Rightarrow> nat" where
  "in_flight ts = length (filter (\<lambda>th. running_part (th_stage th)) ts)"

definition new_thread :: "HttpRequest \<Rightarrow> time_point \<Rightarrow> mw_thread" where
  "new_thread req now = \<lparr>th_request = req, th_stage = Asking, th_counted = None, th_last = now\<rparr>"

text \<open>A thread goes on: to the next stage, or out of the middleware with its reply.\<close>

definition moved :: "mw_stage \<Rightarrow> time_point \<Rightarrow> HttpResponse option option \<Rightarrow> mw_thread \<Rightarrow> mw_thread" where
  "moved st now r th = (case r of
     None \<Rightarrow> th\<lparr>th_stage := st, th_last := now,
        th_counted := (if st = Counted then Some now else th_counted th)\<rparr>
   | Some reply \<Rightarrow> th\<lparr>th_stage := Ended reply, th_last := now\<rparr>)"

definition advance :: "nat \<Rightarrow> mw_stage \<Rightarrow> time_point \<Rightarrow> 'b part \<Rightarrow> 'b mw_state \<Rightarrow> 'b mw_state" where
  "advance i st now p s = (case p of (r, m, srv) \<Rightarrow>
     s\<lparr>mt_server := srv, mt_now := now,
       mt_threads := (mt_threads s)[i := moved st now r (mt_threads s ! i)],
       mt_metrics := mt_metrics s @ m\<rparr>)"

abbreviation thread_at :: "nat \<Rightarrow> mw_stage \<Rightarrow> 'b mw_state \<Rightarrow> bool" where
  "thread_at i st s \<equiv> i < length (mt_threads s) \<and> th_stage (mt_threads s ! i) = st"

abbreviation request_of :: "nat \<Rightarrow> 'b mw_state \<Rightarrow> HttpRequest" where
  "request_of i s \<equiv> th_request (mt_threads s ! i)"

abbreviation rate_time :: "time_point \<Rightarrow> time_point \<Rightarrow> nat \<Rightarrow> 'b mw_state \<Rightarrow> time_point" where
  "rate_time now fresh i s \<equiv> seen_at now fresh (request_ip_states (srv_request_limiter (mt_server s)))
     (client_address (srv_config (mt_server s)) (request_of i s))"

abbreviation key_time :: "time_point \<Rightarrow> time_point \<Rightarrow> nat \<Rightarrow> 'b mw_state \<Rightarrow> time_point" where
  "key_time now fresh i s \<equiv> seen_at now fresh (auth_ip_states (srv_auth_limiter (mt_server s)))
     (client_address (srv_config (mt_server s)) (request_of i s))"

inductive mw_step :: "'j json_library \<Rightarrow> nat \<Rightarrow> 'b mw_state \<Rightarrow> 'b mw_state \<Rightarrow> bool" for lib n where
  Accept: "in_flight (mt_threads s) < n \<Longrightarrow> mt_now s \<le> now \<Longrightarrow>
     mw_step lib n s (s\<lparr>mt_now := now, mt_threads := mt_threads s @ [new_thread req now]\<rparr>)"
| Ask: "thread_at i Asking s \<Longrightarrow> mt_now s \<le> now \<Longrightarrow>
     mw_step lib n s (advance i Unblocked now (ask_part lib now (request_of i s) (mt_server s)) s)"
| Rate: "thread_at i Unblocked s \<Longrightarrow> mt_now s \<le> now \<Longrightarrow> now \<le> fresh \<Longrightarrow> is_reorder order \<Longrightarrow>
     mw_step lib n s (advance i Counted (rate_time now fresh i s)
       (rate_part lib order now fresh (request_of i s) (mt_server s)) s)"
| Key: "thread_at i Counted s \<Longrightarrow> mt_now s \<le> now \<Longrightarrow> now \<le> fresh \<Longrightarrow> is_reorder order \<Longrightarrow>
     mw_step lib n s (advance i Counted (key_time now fresh i s)
       (key_part lib order now fresh (request_of i s) (mt_server s)) s)"

lemma part_times:
  "mt_now s \<le> now \<Longrightarrow> now \<le> fresh \<Longrightarrow> mt_now s \<le> seen_at now fresh m ip \<and> now \<le> seen_at now fresh m ip"
  using seen_at_range [of now fresh m ip] by linarith

inductive_cases mw_stepE: "mw_step lib n s s'"


subsection \<open>What the parts do\<close>

definition thread_ip :: "ServerConfig \<Rightarrow> mw_thread \<Rightarrow> string" where
  "thread_ip cfg th = client_address cfg (th_request th)"

lemma parts_frame:
  "ask_part lib now req s = (r, m, s') \<Longrightarrow> srv_config s' = srv_config s \<and> srv_request_limiter s' = srv_request_limiter s"
  "rate_part lib rorder now fresh req s = (r, m, s') \<Longrightarrow> srv_config s' = srv_config s \<and> srv_auth_limiter s' = srv_auth_limiter s"
  "key_part lib forder now fresh req s = (r, m, s') \<Longrightarrow> srv_config s' = srv_config s \<and> srv_request_limiter s' = srv_request_limiter s"
  by (auto simp: ask_part_def rate_part_def key_part_def Let_def split: if_splits prod.splits)

lemma ask_part_limiter:
  assumes "ask_part lib now req s = (r, m, s')" and "require_auth (srv_config s)"
    and "\<not> is_internal_endpoint (req_path req)"
  shows "srv_auth_limiter s' = auth_hit (AskBlocked now (client_address (srv_config s) req)) (srv_auth_limiter s)
    \<and> (r = None \<longleftrightarrow> \<not> fst (is_blocked now (client_address (srv_config s) req) (srv_auth_limiter s)))"
  using assms by (auto simp: ask_part_def Let_def split: if_splits prod.splits)

lemma ask_part_internal:
  assumes "ask_part lib now req s = (r, m, s')" and "is_internal_endpoint (req_path req)"
  shows "r = Some None" "s' = s"
  using assms by (simp_all add: ask_part_def Let_def)

lemma rate_part_limiter:
  assumes "rate_part lib order now fresh req s = (r, m, s')"
  defines "e \<equiv> request_of_call order now fresh (client_address (srv_config s) req) (srv_request_limiter s)"
  shows "srv_request_limiter s' = request_hit e (srv_request_limiter s)
    \<and> (r = None \<longleftrightarrow> request_passes e (srv_request_limiter s))"
proof -
  have "0 \<le> fst (check_request order now fresh (client_address (srv_config s) req) (srv_request_limiter s))"
    by (rule check_request_nonneg)
  then show ?thesis using assms(1)
    by (auto simp: rate_part_def e_def request_hit_def request_passes_def Let_def check_request_call [symmetric]
        split: if_splits prod.splits)
qed

definition wrong_reply :: "HttpResponse option option \<Rightarrow> bool" where
  "wrong_reply r \<longleftrightarrow> (case r of Some (Some reply) \<Rightarrow> resp_status reply = 401 | _ \<Rightarrow> False)"

lemma key_part_limiter:
  assumes "key_part lib order now fresh req s = (r, m, s')"
  shows "r \<noteq> None \<and> srv_auth_limiter s' = (if wrong_reply r
     then auth_hit (failure_of_call order now fresh (client_address (srv_config s) req) (srv_auth_limiter s))
       (srv_auth_limiter s)
     else srv_auth_limiter s)"
  using assms
  by (auto simp: key_part_def wrong_reply_def reply_simps Let_def record_failure_call [symmetric]
      split: if_splits prod.splits)

lemma early_replies:
  "ask_part lib now req s = (r, m, s') \<Longrightarrow> \<not> wrong_reply r"
  "rate_part lib rorder now fresh req s = (r, m, s') \<Longrightarrow> \<not> wrong_reply r"
  by (auto simp: ask_part_def rate_part_def wrong_reply_def auth_limited_response_def
      rate_limited_response_def reply_simps Let_def split: if_splits prod.splits)

subsection \<open>The request limiter under threads\<close>

definition pass_log :: "ServerConfig \<Rightarrow> mw_thread multiset \<Rightarrow> (string option \<times> time_point) multiset" where
  "pass_log cfg M = image_mset (\<lambda>th. (Some (thread_ip cfg th), the (th_counted th)))
     {#th \<in># M. th_counted th \<noteq> None#}"

lemma pass_log_simps [simp]:
  "pass_log cfg {#} = {#}"
  "pass_log cfg (add_mset th M) = (case th_counted th of None \<Rightarrow> pass_log cfg M
     | Some u \<Rightarrow> add_mset (Some (thread_ip cfg th), u) (pass_log cfg M))"
  by (simp_all add: pass_log_def split: option.split)

text \<open>A thread that has not passed the limiter has no time of passing it.\<close>

definition stages_ok :: "mw_thread \<Rightarrow> bool" where
  "stages_ok th \<longleftrightarrow> (case th_stage th of
     Asking \<Rightarrow> th_counted th = None
   | Unblocked \<Rightarrow> th_counted th = None \<and> \<not> is_internal_endpoint (req_path (th_request th))
   | Counted \<Rightarrow> th_counted th \<noteq> None
   | Ended r \<Rightarrow> r = None \<longrightarrow> th_counted th \<noteq> None \<or> is_internal_endpoint (req_path (th_request th)))"

definition load_inv :: "ServerConfig \<Rightarrow> nat \<Rightarrow> time_point \<Rightarrow> RequestRateLimiter \<Rightarrow> 'b mw_state \<Rightarrow> bool" where
  "load_inv cfg limit t limiter s \<longleftrightarrow> srv_config (mt_server s) = cfg
     \<and> (\<forall>th \<in> set (mt_threads s). stages_ok th)
     \<and> logged request_hit (\<lambda>e. Some (req_ip e)) req_time request_well request_passes
         t limiter (mt_now s) (srv_request_limiter (mt_server s)) (pass_log cfg (mset (mt_threads s)))"

text \<open>The threads before and after one of them goes on.\<close>

lemma advance_threads:
  assumes "i < length (mt_threads s)"
  obtains M where "mset (mt_threads s) = add_mset (mt_threads s ! i) M"
    "\<And>st now r m srv. mset (mt_threads (advance i st now (r, m, srv) s))
       = add_mset (moved st now r (mt_threads s ! i)) M"
  using mset_replace [OF assms] by (auto simp: advance_def)

lemma advance_simps [simp]:
  "mt_server (advance i st now (r, m, srv) s) = srv"
  "mt_now (advance i st now (r, m, srv) s) = now"
  "mt_metrics (advance i st now (r, m, srv) s) = mt_metrics s @ m"
  by (simp_all add: advance_def)

lemma load_inv_mset:
  "load_inv cfg limit t limiter s \<longleftrightarrow> srv_config (mt_server s) = cfg
     \<and> (\<forall>th \<in># mset (mt_threads s). stages_ok th)
     \<and> logged request_hit (\<lambda>e. Some (req_ip e)) req_time request_well request_passes
         t limiter (mt_now s) (srv_request_limiter (mt_server s)) (pass_log cfg (mset (mt_threads s)))"
  by (simp add: load_inv_def)

lemma moved_simps [simp]:
  "th_request (moved st now r th) = th_request th"
  "th_last (moved st now r th) = now"
  "thread_ip cfg (moved st now r th) = thread_ip cfg th"
  "th_stage (moved st now r th) = (case r of None \<Rightarrow> st | Some reply \<Rightarrow> Ended reply)"
  "th_counted (moved st now r th) = (if r = None \<and> st = Counted then Some now else th_counted th)"
  by (auto simp: moved_def thread_ip_def split: option.split)

lemma load_step: "mw_step lib n s s' \<Longrightarrow> load_inv cfg limit t limiter s \<Longrightarrow> load_inv cfg limit t limiter s'"
proof (induction rule: mw_step.induct)
  case (Accept s now req)
  then show ?case
    by (auto simp: load_inv_mset new_thread_def stages_ok_def intro: logged_later)
next
  case (Ask i s now)
  obtain r m srv where p: "ask_part lib now (request_of i s) (mt_server s) = (r, m, srv)" by (rule prod_cases3)
  obtain M where M: "mset (mt_threads s) = add_mset (mt_threads s ! i) M"
    "mset (mt_threads (advance i Unblocked now (r, m, srv) s)) = add_mset (moved Unblocked now r (mt_threads s ! i)) M"
    using advance_threads [of i s] Ask.hyps by metis
  have "r = None \<Longrightarrow> \<not> is_internal_endpoint (req_path (request_of i s))"
    "r = Some None \<Longrightarrow> is_internal_endpoint (req_path (request_of i s))"
    using ask_part_internal [OF p] p by (auto simp: ask_part_def Let_def split: if_splits prod.splits)
  then show ?case
    using Ask parts_frame(1) [OF p]
    by (auto simp: load_inv_mset p M stages_ok_def intro: logged_later split: option.splits)
next
  case (Rate i s now fresh order)
  have le: "mt_now s \<le> rate_time now fresh i s" "now \<le> rate_time now fresh i s"
    using part_times [OF Rate.hyps(2,3)] by blast+
  obtain r m srv where p: "rate_part lib order now fresh (request_of i s) (mt_server s) = (r, m, srv)" by (rule prod_cases3)
  obtain M where M: "mset (mt_threads s) = add_mset (mt_threads s ! i) M"
    "\<And>t. mset (mt_threads (advance i Counted t (r, m, srv) s)) = add_mset (moved Counted t r (mt_threads s ! i)) M"
    using advance_threads [of i s] Rate.hyps by metis
  let ?e = "request_of_call order now fresh (client_address cfg (request_of i s)) (srv_request_limiter (mt_server s))"
  have cfg: "srv_config (mt_server s) = cfg" and th: "th_counted (mt_threads s ! i) = None"
    and oks: "\<forall>th \<in># M. stages_ok th"
    and l: "logged request_hit (\<lambda>e. Some (req_ip e)) req_time request_well request_passes
         t limiter (mt_now s) (srv_request_limiter (mt_server s)) (pass_log cfg M)"
    using Rate by (auto simp: load_inv_mset M stages_ok_def)
  have lim: "srv_request_limiter srv = request_hit ?e (srv_request_limiter (mt_server s))"
    "r = None \<longleftrightarrow> request_passes ?e (srv_request_limiter (mt_server s))"
    using rate_part_limiter [OF p, unfolded cfg] by simp_all
  have "r \<noteq> Some None" using p by (auto simp: rate_part_def Let_def split: if_splits prod.splits)
  moreover have "logged request_hit (\<lambda>e. Some (req_ip e)) req_time request_well request_passes
         t limiter (rate_time now fresh i s) (srv_request_limiter srv)
         (pass_log cfg (add_mset (moved Counted (rate_time now fresh i s) r (mt_threads s ! i)) M))"
    using logged_hit [OF l, of ?e] Rate.hyps(4) le lim th cfg
    by (cases r) (simp_all add: thread_ip_def)
  ultimately show ?case
    using oks th parts_frame(2) [OF p] cfg by (auto simp: load_inv_mset p M stages_ok_def split: option.splits)
next
  case (Key i s now fresh order)
  have le: "mt_now s \<le> key_time now fresh i s" "now \<le> key_time now fresh i s"
    using part_times [OF Key.hyps(2,3)] by blast+
  obtain r m srv where p: "key_part lib order now fresh (request_of i s) (mt_server s) = (r, m, srv)" by (rule prod_cases3)
  obtain M where M: "mset (mt_threads s) = add_mset (mt_threads s ! i) M"
    "\<And>t. mset (mt_threads (advance i Counted t (r, m, srv) s)) = add_mset (moved Counted t r (mt_threads s ! i)) M"
    using advance_threads [of i s] Key.hyps by metis
  have "r \<noteq> None" using key_part_limiter [OF p] by simp
  then show ?case
    using Key parts_frame(3) [OF p] le
    by (auto simp: load_inv_mset p M stages_ok_def intro: logged_later split: option.splits)
qed

interpretation mw_load: step_invariant "mw_step lib n" "load_inv cfg limit t limiter"
  for lib n cfg limit t limiter
  by unfold_locales (rule load_step)

subsection \<open>The authentication limiter under threads\<close>

definition wrong_thread :: "mw_thread \<Rightarrow> bool" where
  "wrong_thread th \<longleftrightarrow> (case th_stage th of Ended r \<Rightarrow> wrong_reply (Some r) | _ \<Rightarrow> False)"

definition guess_log :: "ServerConfig \<Rightarrow> mw_thread multiset \<Rightarrow> (string option \<times> time_point) multiset" where
  "guess_log cfg M = image_mset (\<lambda>th. (Some (thread_ip cfg th), th_last th)) {#th \<in># M. wrong_thread th#}"

lemma guess_log_simps [simp]:
  "guess_log cfg {#} = {#}"
  "guess_log cfg (add_mset th M) = (if wrong_thread th
     then add_mset (Some (thread_ip cfg th), th_last th) (guess_log cfg M) else guess_log cfg M)"
  by (simp_all add: guess_log_def)

text \<open>A thread that was told that its address is not blocked may still record a failure.\<close>

definition may_fail :: "mw_thread \<Rightarrow> bool" where
  "may_fail th \<longleftrightarrow> th_stage th = Unblocked \<or> th_stage th = Counted"

definition pending :: "ServerConfig \<Rightarrow> string \<Rightarrow> mw_thread multiset \<Rightarrow> nat" where
  "pending cfg ip M = size {#th \<in># M. may_fail th \<and> thread_ip cfg th = ip#}"

definition busy :: "mw_thread multiset \<Rightarrow> nat" where
  "busy M = size {#th \<in># M. running_part (th_stage th)#}"

lemma pending_simps [simp]:
  "pending cfg ip {#} = 0"
  "pending cfg ip (add_mset th M)
     = pending cfg ip M + (if may_fail th \<and> thread_ip cfg th = ip then 1 else 0)"
  by (simp_all add: pending_def)

lemma busy_simps [simp]:
  "busy {#} = 0"
  "busy (add_mset th M) = busy M + (if running_part (th_stage th) then 1 else 0)"
  by (simp_all add: busy_def)

lemma in_flight_busy: "in_flight ts = busy (mset ts)"
  by (induction ts) (simp_all add: in_flight_def)

lemma pending_busy: "pending cfg ip M \<le> busy M"
  by (induction M) (auto simp: may_fail_def)

definition guess_inv ::
  "ServerConfig \<Rightarrow> string set \<Rightarrow> int \<Rightarrow> nat \<Rightarrow> nat \<Rightarrow> time_point \<Rightarrow> AuthRateLimiter \<Rightarrow> 'b mw_state \<Rightarrow> bool" where
  "guess_inv cfg A window limit n t limiter s \<longleftrightarrow>
     (let M = mset (mt_threads s); now = mt_now s; l = srv_auth_limiter (mt_server s) in
      srv_config (mt_server s) = cfg \<and> busy M \<le> n
      \<and> ((\<forall>th \<in># M. thread_ip cfg th \<in> A) \<longrightarrow>
           auth_inv_in A window limit now l
           \<and> (\<forall>ip. hits_in (auth_live l now ip) + pending cfg ip M \<le> limit + n)
           \<and> logged auth_hit auth_key auth_time (auth_well_in A) (counts_below (limit + n))
                t limiter now l (guess_log cfg M)))"

lemma auth_well_in_simps [simp]:
  "auth_well_in A (AskBlocked now ip)"
  "auth_well_in A (RecordFailure order now time ip) \<longleftrightarrow> is_reorder order \<and> now \<le> time \<and> ip \<in> A"
  by (simp_all add: auth_well_in_def)

lemma asked_hits:
  assumes "\<not> fst (is_blocked now ip limiter)" and "auth_inv_in A window limit t limiter"
  shows "hits_in (auth_live limiter now ip) \<le> limit"
  using assms by (simp add: is_blocked_result auth_inv_in_def auth_inv_def)

abbreviation auth_logged where
  "auth_logged A b \<equiv> logged auth_hit auth_key auth_time (auth_well_in A) (counts_below b)"

lemma guess_invD:
  assumes "guess_inv cfg A window limit n t limiter s" and "\<forall>th \<in># mset (mt_threads s). thread_ip cfg th \<in> A"
  shows "auth_inv_in A window limit (mt_now s) (srv_auth_limiter (mt_server s))"
    and "hits_in (auth_live (srv_auth_limiter (mt_server s)) (mt_now s) ip)
      + pending cfg ip (mset (mt_threads s)) \<le> limit + n"
    and "auth_logged A (limit + n) t limiter (mt_now s) (srv_auth_limiter (mt_server s))
      (guess_log cfg (mset (mt_threads s)))"
  using assms by (simp_all add: guess_inv_def Let_def)

lemma guess_invI:
  assumes "srv_config (mt_server s) = cfg" and "busy (mset (mt_threads s)) \<le> n"
    and "\<And>ip. \<forall>th \<in># mset (mt_threads s). thread_ip cfg th \<in> A \<Longrightarrow>
      auth_inv_in A window limit (mt_now s) (srv_auth_limiter (mt_server s))
      \<and> hits_in (auth_live (srv_auth_limiter (mt_server s)) (mt_now s) ip)
          + pending cfg ip (mset (mt_threads s)) \<le> limit + n
      \<and> auth_logged A (limit + n) t limiter (mt_now s) (srv_auth_limiter (mt_server s))
          (guess_log cfg (mset (mt_threads s)))"
  shows "guess_inv cfg A window limit n t limiter s"
  using assms by (simp add: guess_inv_def Let_def)

text \<open>What a part means for the limiter: it leaves it alone, asks it, or tells it of a failure.\<close>

lemma guess_quiet:
  assumes g: "guess_inv cfg A window limit n t limiter s" and le: "mt_now s \<le> mt_now s'"
    and "srv_config (mt_server s') = cfg"
    and same: "srv_auth_limiter (mt_server s') = srv_auth_limiter (mt_server s)"
    and "busy (mset (mt_threads s')) \<le> n"
    and ips: "thread_ip cfg ` set (mt_threads s) \<subseteq> thread_ip cfg ` set (mt_threads s')"
    and p: "\<And>ip. pending cfg ip (mset (mt_threads s')) \<le> pending cfg ip (mset (mt_threads s))"
    and log: "guess_log cfg (mset (mt_threads s')) = guess_log cfg (mset (mt_threads s))"
  shows "guess_inv cfg A window limit n t limiter s'"
  using assms(3,5)
proof (rule guess_invI)
  fix ip
  assume "\<forall>th \<in># mset (mt_threads s'). thread_ip cfg th \<in> A"
  then have A: "\<forall>th \<in># mset (mt_threads s). thread_ip cfg th \<in> A" using ips by auto
  note i = guess_invD(1) [OF g A]
  have "hits_in (auth_live (srv_auth_limiter (mt_server s)) (mt_now s') ip)
      + pending cfg ip (mset (mt_threads s')) \<le> limit + n"
    using guess_invD(2) [OF g A, of ip] live_hits_later [OF i le, of ip] p [of ip] by linarith
  then show "auth_inv_in A window limit (mt_now s') (srv_auth_limiter (mt_server s'))
      \<and> hits_in (auth_live (srv_auth_limiter (mt_server s')) (mt_now s') ip)
          + pending cfg ip (mset (mt_threads s')) \<le> limit + n
      \<and> auth_logged A (limit + n) t limiter (mt_now s') (srv_auth_limiter (mt_server s'))
          (guess_log cfg (mset (mt_threads s')))"
    unfolding same log
    using auth_exact.invar_later [OF i le] logged_later [OF guess_invD(3) [OF g A] le] by (intro conjI)
qed

lemma guess_asked:
  assumes g: "guess_inv cfg A window limit n t limiter s" and le: "mt_now s \<le> mt_now s'"
    and "srv_config (mt_server s') = cfg"
    and h: "srv_auth_limiter (mt_server s')
      = auth_hit (AskBlocked (mt_now s') (thread_ip cfg th)) (srv_auth_limiter (mt_server s))"
    and busy: "busy (mset (mt_threads s')) \<le> n"
    and M: "mset (mt_threads s) = add_mset th M" "mset (mt_threads s') = add_mset th' M"
    and ip: "thread_ip cfg th' = thread_ip cfg th"
    and k: "\<not> may_fail th" "\<not> wrong_thread th" "\<not> wrong_thread th'"
      "may_fail th' \<Longrightarrow> \<not> fst (is_blocked (mt_now s') (thread_ip cfg th) (srv_auth_limiter (mt_server s)))"
  shows "guess_inv cfg A window limit n t limiter s'"
  using assms(3) busy
proof (rule guess_invI)
  fix j
  let ?l = "srv_auth_limiter (mt_server s)" and ?l' = "srv_auth_limiter (mt_server s')" and ?a = "mt_now s'"
  let ?e = "AskBlocked ?a (thread_ip cfg th)"
  assume "\<forall>th \<in># mset (mt_threads s'). thread_ip cfg th \<in> A"
  then have A: "\<forall>th \<in># mset (mt_threads s). thread_ip cfg th \<in> A" using M ip by simp
  note i = guess_invD(1) [OF g A]
  have le': "mt_now s \<le> auth_time ?e" using le by simp
  have i': "auth_inv_in A window limit ?a ?l'"
    using auth_exact.invar_hit [OF i le'] by (simp only: h auth_time.simps auth_well_in_simps)
  have live: "hits_in (auth_live ?l' ?a j) = hits_in (auth_live ?l ?a j)"
    by (simp add: h ask_keeps_live)
  have log: "auth_logged A (limit + n) t limiter ?a ?l' (guess_log cfg (add_mset th M))"
    using logged_hit [OF guess_invD(3) [OF g A] le'] by (simp add: h M counts_below_def)
  have "hits_in (auth_live ?l' ?a j) + pending cfg j (add_mset th' M) \<le> limit + n"
  proof (cases "may_fail th' \<and> thread_ip cfg th = j")
    case True
    then have "hits_in (auth_live ?l ?a j) \<le> limit" using asked_hits [OF k(4) i] by simp
    moreover have "pending cfg j (add_mset th' M) \<le> n"
      using pending_busy [of cfg j "add_mset th' M"] busy by (simp only: M)
    ultimately show ?thesis unfolding live by (rule add_mono)
  next
    case False
    then show ?thesis
      using guess_invD(2) [OF g A, of j] live_hits_later [OF i le, of j] k(1) ip
      by (auto simp: live M)
  qed
  with i' log k(2,3) show "auth_inv_in A window limit ?a ?l'
      \<and> hits_in (auth_live ?l' ?a j) + pending cfg j (mset (mt_threads s')) \<le> limit + n
      \<and> auth_logged A (limit + n) t limiter ?a ?l' (guess_log cfg (mset (mt_threads s')))"
    by (simp only: M guess_log_simps if_False simp_thms)
qed

lemma guess_failed:
  assumes g: "guess_inv cfg A window limit n t limiter s" and le: "mt_now s \<le> mt_now s'"
    and "srv_config (mt_server s') = cfg" and o: "is_reorder order"
    and first: "now \<le> mt_now s'"
    and h: "srv_auth_limiter (mt_server s')
      = auth_hit (RecordFailure order now (mt_now s') (thread_ip cfg th)) (srv_auth_limiter (mt_server s))"
    and busy: "busy (mset (mt_threads s')) \<le> n"
    and M: "mset (mt_threads s) = add_mset th M" "mset (mt_threads s') = add_mset th' M"
    and ip: "thread_ip cfg th' = thread_ip cfg th"
    and k: "may_fail th" "\<not> may_fail th'" "\<not> wrong_thread th" "wrong_thread th'" "th_last th' = mt_now s'"
  shows "guess_inv cfg A window limit n t limiter s'"
  using assms(3) busy
proof (rule guess_invI)
  fix j
  let ?l = "srv_auth_limiter (mt_server s)" and ?l' = "srv_auth_limiter (mt_server s')" and ?a = "mt_now s'"
  let ?ip = "thread_ip cfg th"
  let ?e = "RecordFailure order now ?a ?ip"
  assume "\<forall>th \<in># mset (mt_threads s'). thread_ip cfg th \<in> A"
  then have A: "\<forall>th \<in># mset (mt_threads s). thread_ip cfg th \<in> A" and w: "auth_well_in A ?e"
    using M ip o first by simp_all
  note i = guess_invD(1) [OF g A]
  have le': "mt_now s \<le> auth_time ?e" using le by simp
  have i': "auth_inv_in A window limit ?a ?l'"
    using auth_exact.invar_hit [OF i le' w] by (simp only: h auth_time.simps)
  have live: "auth_live ?l' ?a = bump (Some ?ip) ?a (auth_live ?l ?a)"
    using auth_exact.hit_live_eq [OF i le' w] by (simp only: h auth_time.simps auth_key.simps)
  have room: "hits_in (auth_live ?l ?a j) + pending cfg j (add_mset th M) \<le> limit + n" for j
    using guess_invD(2) [OF g A, of j] live_hits_later [OF i le, of j] by (simp only: M)
  have below: "counts_below (limit + n) ?e ?l"
    using room [of ?ip] k(1) by (simp add: counts_below_def)
  have "auth_logged A (limit + n) t limiter ?a ?l' (add_mset (Some ?ip, ?a) (guess_log cfg (add_mset th M)))"
    using logged_hit [OF guess_invD(3) [OF g A] le' w] below
    by (simp only: h M auth_time.simps auth_key.simps if_True)
  then have log: "auth_logged A (limit + n) t limiter ?a ?l' (guess_log cfg (add_mset th' M))"
    using k(3-5) ip by simp
  have "hits_in (auth_live ?l' ?a j) + pending cfg j (add_mset th' M) \<le> limit + n"
    using room [of j] k(1,2) by (auto simp: live bump_def hits_in_def split: option.splits if_splits)
  with i' log show "auth_inv_in A window limit ?a ?l'
      \<and> hits_in (auth_live ?l' ?a j) + pending cfg j (mset (mt_threads s')) \<le> limit + n
      \<and> auth_logged A (limit + n) t limiter ?a ?l' (guess_log cfg (mset (mt_threads s')))"
    by (simp only: M)
qed

lemma moved_kinds:
  "wrong_thread (moved st now r th) \<longleftrightarrow> (if r = None then wrong_thread (th\<lparr>th_stage := st\<rparr>) else wrong_reply r)"
  "may_fail (moved st now r th) \<longleftrightarrow> r = None \<and> (st = Unblocked \<or> st = Counted)"
  "running_part (th_stage (moved st now r th)) \<longleftrightarrow> r = None \<and> running_part st"
  by (auto simp: wrong_thread_def may_fail_def split: option.split)

lemma stage_kinds:
  "running_part (th_stage th) \<Longrightarrow> \<not> wrong_thread th"
  "th_stage th = Asking \<Longrightarrow> \<not> may_fail th"
  "th_stage th = Unblocked \<Longrightarrow> may_fail th"
  "th_stage th = Counted \<Longrightarrow> may_fail th"
  by (auto simp: wrong_thread_def may_fail_def split: mw_stage.splits)

lemma advance_quiet:
  assumes g: "guess_inv cfg A window limit n t limiter s" and st: "running_part (th_stage (mt_threads s ! i))"
    and i: "i < length (mt_threads s)" and le: "mt_now s \<le> now" and cfg: "srv_config srv = cfg"
    and same: "srv_auth_limiter srv = srv_auth_limiter (mt_server s)"
    and r: "\<not> wrong_reply r" "r = None \<Longrightarrow> may_fail (mt_threads s ! i)" "running_part st'"
  shows "guess_inv cfg A window limit n t limiter (advance i st' now (r, m, srv) s)"
proof -
  obtain M where M: "mset (mt_threads s) = add_mset (mt_threads s ! i) M"
    "mset (mt_threads (advance i st' now (r, m, srv) s)) = add_mset (moved st' now r (mt_threads s ! i)) M"
    using advance_threads [OF i] by metis
  have busy: "busy (mset (mt_threads s)) \<le> n" using g by (simp add: guess_inv_def Let_def)
  have ips: "thread_ip cfg ` set_mset (mset (mt_threads s))
      = thread_ip cfg ` set_mset (mset (mt_threads (advance i st' now (r, m, srv) s)))"
    unfolding M by simp
  show ?thesis
  proof (rule guess_quiet [OF g])
    show "busy (mset (mt_threads (advance i st' now (r, m, srv) s))) \<le> n"
      using busy st unfolding M by (auto simp: moved_kinds)
    show "pending cfg ip (mset (mt_threads (advance i st' now (r, m, srv) s)))
        \<le> pending cfg ip (mset (mt_threads s))" for ip
      using r(2) unfolding M by (auto simp: moved_kinds)
    show "guess_log cfg (mset (mt_threads (advance i st' now (r, m, srv) s))) = guess_log cfg (mset (mt_threads s))"
      using r(1,3) stage_kinds(1) [OF st] stage_kinds(1) [of "(mt_threads s ! i)\<lparr>th_stage := st'\<rparr>"]
      unfolding M by (simp add: moved_kinds)
  qed (use le cfg same ips in simp_all)
qed

lemma guess_step:
  "mw_step lib n s s' \<Longrightarrow> require_auth cfg \<Longrightarrow> guess_inv cfg A window limit n t limiter s
     \<Longrightarrow> guess_inv cfg A window limit n t limiter s'"
proof (induction rule: mw_step.induct)
  case (Accept s now req)
  then show ?case
    by (intro guess_quiet [OF Accept(4)])
      (auto simp: in_flight_busy guess_inv_def Let_def new_thread_def may_fail_def wrong_thread_def)
next
  case (Ask i s now)
  let ?th = "mt_threads s ! i"
  obtain r m srv where p: "ask_part lib now (request_of i s) (mt_server s) = (r, m, srv)" by (rule prod_cases3)
  have cfg: "srv_config (mt_server s) = cfg" and busy: "busy (mset (mt_threads s)) \<le> n"
    using Ask.prems by (simp_all add: guess_inv_def Let_def)
  show ?case
  proof (cases "is_internal_endpoint (req_path (request_of i s))")
    case True
    with ask_part_internal [OF p] show ?thesis
      using Ask cfg by (auto simp: p wrong_reply_def intro!: advance_quiet)
  next
    case False
    note lim = ask_part_limiter [OF p _ False, unfolded cfg, OF Ask.prems(1)]
    obtain M where M: "mset (mt_threads s) = add_mset ?th M"
      "mset (mt_threads (advance i Unblocked now (r, m, srv) s)) = add_mset (moved Unblocked now r ?th) M"
      using advance_threads [of i s] Ask.hyps by metis
    have "guess_inv cfg A window limit n t limiter (advance i Unblocked now (r, m, srv) s)"
    proof (rule guess_asked [OF Ask.prems(2) _ _ _ _ M])
      show "srv_auth_limiter (mt_server (advance i Unblocked now (r, m, srv) s))
          = auth_hit (AskBlocked (mt_now (advance i Unblocked now (r, m, srv) s)) (thread_ip cfg ?th))
              (srv_auth_limiter (mt_server s))"
        using lim by (simp add: thread_ip_def)
      show "busy (mset (mt_threads (advance i Unblocked now (r, m, srv) s))) \<le> n"
        using busy Ask.hyps unfolding M by (simp add: moved_kinds split: if_splits)
      show "\<not> wrong_thread (moved Unblocked now r ?th)"
        using early_replies(1) [OF p] by (simp add: moved_kinds stage_kinds)
      show "\<not> fst (is_blocked (mt_now (advance i Unblocked now (r, m, srv) s)) (thread_ip cfg ?th)
          (srv_auth_limiter (mt_server s)))" if "may_fail (moved Unblocked now r ?th)"
        using that lim by (simp add: moved_kinds thread_ip_def)
    qed (use Ask.hyps parts_frame(1) [OF p] cfg in \<open>simp_all add: stage_kinds\<close>)
    then show ?thesis by (simp only: p)
  qed
next
  case (Rate i s now fresh order)
  have le: "mt_now s \<le> rate_time now fresh i s" "now \<le> rate_time now fresh i s"
    using part_times [OF Rate.hyps(2,3)] by blast+
  obtain r m srv where p: "rate_part lib order now fresh (request_of i s) (mt_server s) = (r, m, srv)" by (rule prod_cases3)
  have "srv_config (mt_server s) = cfg" using Rate.prems by (simp add: guess_inv_def Let_def)
  then show ?case
    unfolding p using Rate le parts_frame(2) [OF p] early_replies(2) [OF p]
    by (intro advance_quiet) (simp_all add: stage_kinds)
next
  case (Key i s now fresh order)
  have le: "mt_now s \<le> key_time now fresh i s" "now \<le> key_time now fresh i s"
    using part_times [OF Key.hyps(2,3)] by blast+
  let ?th = "mt_threads s ! i"
  obtain r m srv where p: "key_part lib order now fresh (request_of i s) (mt_server s) = (r, m, srv)" by (rule prod_cases3)
  have cfg: "srv_config (mt_server s) = cfg" and busy: "busy (mset (mt_threads s)) \<le> n"
    using Key.prems by (simp_all add: guess_inv_def Let_def)
  note lim = key_part_limiter [OF p]
  show ?case
  proof (cases "wrong_reply r")
    case False
    with lim show ?thesis
      unfolding p using Key le parts_frame(3) [OF p] cfg
      by (intro advance_quiet) (simp_all add: stage_kinds)
  next
    case True
    let ?t = "key_time now fresh i s"
    let ?s = "advance i Counted ?t (r, m, srv) s"
    obtain M where M: "mset (mt_threads s) = add_mset ?th M"
      "mset (mt_threads ?s) = add_mset (moved Counted ?t r ?th) M"
      using advance_threads [of i s] Key.hyps by metis
    have "guess_inv cfg A window limit n t limiter ?s"
    proof (rule guess_failed [OF Key.prems(2) _ _ Key.hyps(4) _ _ _ M])
      show "srv_auth_limiter (mt_server ?s)
          = auth_hit (RecordFailure order now (mt_now ?s) (thread_ip cfg ?th)) (srv_auth_limiter (mt_server s))"
        using lim True cfg by (simp add: thread_ip_def failure_of_call_def)
      show "busy (mset (mt_threads ?s)) \<le> n"
        using busy Key.hyps unfolding M by (simp add: moved_kinds)
    qed (use Key.hyps le parts_frame(3) [OF p] cfg True lim in \<open>simp_all add: stage_kinds moved_kinds\<close>)
    then show ?thesis by (simp only: p)
  qed
qed

interpretation mw_guesses: step_invariant "mw_step lib n"
    "\<lambda>s. require_auth cfg \<and> guess_inv cfg A window limit n t limiter s"
  for lib n cfg A window limit t limiter
  by unfold_locales (blast intro: guess_step)

lemma guesses_while_racing:
  assumes "(mw_step lib n)\<^sup>*\<^sup>* (mw_start t (new_TtsServer cfg backend catalog started)) s"
    and "require_auth cfg" and "0 \<le> auth_rate_limit_window cfg"
    and "card (thread_ip cfg ` set (mt_threads s)) \<le> 10000"
  shows "length (filter (\<lambda>th. wrong_thread th \<and> thread_ip cfg th = ip \<and> t0 \<le> th_last th
      \<and> th_last th \<le> t0 + auth_rate_limit_window cfg * ns_per_sec) (mt_threads s))
    \<le> 2 * (int_to_size (auth_rate_limit_max cfg) + n)"
proof -
  let ?limit = "int_to_size (auth_rate_limit_max cfg)" and ?window = "auth_rate_limit_window cfg"
  let ?l = "new_auth_limiter ?limit ?window" and ?A = "thread_ip cfg ` set (mt_threads s)"
  have l: "srv_auth_limiter (new_TtsServer cfg backend catalog started) = ?l"
    by (simp add: new_TtsServer_def new_auth_limiter_def Let_def)
  have start: "auth_inv_in ?A ?window ?limit t ?l"
    using assms(3,4) by (simp add: auth_inv_in_def) (simp add: new_auth_limiter_def)
  then have "require_auth cfg \<and> guess_inv cfg ?A ?window ?limit n t ?l (mw_start t (new_TtsServer cfg backend catalog started))"
    using assms(2) by (simp add: guess_inv_def mw_start_def l hits_in_def) (simp add: new_TtsServer_def Let_def)
  from mw_guesses.inv_steps [OF assms(1) this]
  have g: "guess_inv cfg ?A ?window ?limit n t ?l s" by simp
  have "size {#p \<in># guess_log cfg (mset (mt_threads s)). fst p = Some ip \<and> t0 \<le> snd p
      \<and> snd p \<le> t0 + ?window * ns_per_sec#} \<le> 2 * (?limit + n)"
    by (rule auth_exact.logged_at_most_twice [OF start guess_invD(3) [OF g]]) simp
  moreover have "guess_log cfg (mset ts) = mset (map (\<lambda>th. (Some (thread_ip cfg th), th_last th)) (filter wrong_thread ts))"
    for ts by (simp add: guess_log_def)
  ultimately show ?thesis by (simp only: size_filter_mset_map filter_filter fst_conv snd_conv option.inject)
qed

definition let_pass :: "mw_thread \<Rightarrow> bool" where
  "let_pass th \<longleftrightarrow> th_stage th = Ended None \<and> \<not> is_internal_endpoint (req_path (th_request th))"

lemma load_bound:
  assumes g: "load_inv cfg limit t (new_request_limiter limit) s"
  shows "length (filter (\<lambda>th. let_pass th \<and> thread_ip cfg th = ip \<and> t0 \<le> the (th_counted th)
      \<and> the (th_counted th) \<le> t0 + minute_span) (mt_threads s)) \<le> 2 * limit"
proof -
  have ok: "\<forall>th \<in> set (mt_threads s). let_pass th \<longrightarrow> th_counted th \<noteq> None"
    using g by (auto simp: load_inv_def stages_ok_def let_pass_def)
  have "size {#p \<in># pass_log cfg (mset (mt_threads s)). fst p = Some ip \<and> t0 \<le> snd p
      \<and> snd p \<le> t0 + minute_span#} \<le> 2 * limit"
    using g by (intro request_window.logged_at_most_twice [of limit t "new_request_limiter limit"])
      (auto simp: load_inv_def)
  moreover have "pass_log cfg (mset ts) = mset (map (\<lambda>th. (Some (thread_ip cfg th), the (th_counted th)))
      (filter (\<lambda>th. th_counted th \<noteq> None) ts))" for ts
    by (simp add: pass_log_def)
  ultimately have "length (filter (\<lambda>th. th_counted th \<noteq> None \<and> thread_ip cfg th = ip \<and> t0 \<le> the (th_counted th)
      \<and> the (th_counted th) \<le> t0 + minute_span) (mt_threads s)) \<le> 2 * limit"
    by (simp only: size_filter_mset_map filter_filter fst_conv snd_conv option.inject)
  moreover have "length (filter (\<lambda>th. let_pass th \<and> thread_ip cfg th = ip \<and> t0 \<le> the (th_counted th)
      \<and> the (th_counted th) \<le> t0 + minute_span) (mt_threads s))
    \<le> length (filter (\<lambda>th. th_counted th \<noteq> None \<and> thread_ip cfg th = ip \<and> t0 \<le> the (th_counted th)
      \<and> the (th_counted th) \<le> t0 + minute_span) (mt_threads s))"
    using ok by (intro length_filter_mono) auto
  ultimately show ?thesis by (rule order_trans [rotated])
qed

lemma load_start:
  assumes "srv_config srv = cfg" and "srv_request_limiter srv = new_request_limiter limit"
  shows "load_inv cfg limit t (new_request_limiter limit) (mw_start t srv)"
  using assms by (simp add: load_inv_def mw_start_def)

lemma load_while_racing:
  assumes "(mw_step lib n)\<^sup>*\<^sup>* (mw_start t (new_TtsServer cfg backend catalog started)) s"
  shows "length (filter (\<lambda>th. let_pass th \<and> thread_ip cfg th = ip \<and> t0 \<le> the (th_counted th)
      \<and> the (th_counted th) \<le> t0 + minute_span) (mt_threads s))
    \<le> 2 * int_to_size (request_rate_limit_rpm cfg)"
proof (rule load_bound)
  show "load_inv cfg (int_to_size (request_rate_limit_rpm cfg)) t
      (new_request_limiter (int_to_size (request_rate_limit_rpm cfg))) s"
    by (rule mw_load.inv_steps [OF assms], rule load_start)
      (simp_all add: new_TtsServer_def new_request_limiter_def Let_def)
qed

text \<open>With authentication required, whoever leaves the middleware for a protected route had the key.\<close>

definition keyed :: "ServerConfig \<Rightarrow> mw_thread \<Rightarrow> bool" where
  "keyed cfg th \<longleftrightarrow> (let_pass th \<longrightarrow>
     authenticated (check_bearer_auth (header (th_request th) ''authorization'') (api_key cfg)))"

definition key_inv :: "ServerConfig \<Rightarrow> 'b mw_state \<Rightarrow> bool" where
  "key_inv cfg s \<longleftrightarrow> srv_config (mt_server s) = cfg \<and> (\<forall>th \<in># mset (mt_threads s). keyed cfg th)"

lemma advance_keyed:
  assumes "key_inv cfg s" and "i < length (mt_threads s)" and "srv_config srv = cfg" and "running_part st"
    and "r = Some None \<Longrightarrow> is_internal_endpoint (req_path (request_of i s))
      \<or> authenticated (check_bearer_auth (header (request_of i s) ''authorization'') (api_key cfg))"
  shows "key_inv cfg (advance i st now (r, m, srv) s)"
proof -
  obtain M where M: "mset (mt_threads s) = add_mset (mt_threads s ! i) M"
    "mset (mt_threads (advance i st now (r, m, srv) s)) = add_mset (moved st now r (mt_threads s ! i)) M"
    using advance_threads [OF assms(2)] by metis
  have "keyed cfg (moved st now r (mt_threads s ! i))"
    using assms(4,5) by (cases r) (auto simp: keyed_def let_pass_def)
  with assms(1,3) show ?thesis unfolding key_inv_def M by simp
qed

lemma key_step: "mw_step lib n s s' \<Longrightarrow> require_auth cfg \<Longrightarrow> key_inv cfg s \<Longrightarrow> key_inv cfg s'"
proof (induction rule: mw_step.induct)
  case (Accept s now req)
  then show ?case by (auto simp: key_inv_def keyed_def let_pass_def new_thread_def)
next
  case (Ask i s now)
  obtain r m srv where p: "ask_part lib now (request_of i s) (mt_server s) = (r, m, srv)" by (rule prod_cases3)
  have "r = Some None \<Longrightarrow> is_internal_endpoint (req_path (request_of i s))"
    using p by (auto simp: ask_part_def Let_def split: if_splits prod.splits)
  then show ?case unfolding p using Ask parts_frame(1) [OF p]
    by (intro advance_keyed) (auto simp: key_inv_def)
next
  case (Rate i s now fresh order)
  have le: "mt_now s \<le> rate_time now fresh i s" "now \<le> rate_time now fresh i s"
    using part_times [OF Rate.hyps(2,3)] by blast+
  obtain r m srv where p: "rate_part lib order now fresh (request_of i s) (mt_server s) = (r, m, srv)" by (rule prod_cases3)
  have "r \<noteq> Some None" using p by (auto simp: rate_part_def Let_def split: if_splits prod.splits)
  then show ?case unfolding p using Rate parts_frame(2) [OF p]
    by (intro advance_keyed) (auto simp: key_inv_def)
next
  case (Key i s now fresh order)
  have le: "mt_now s \<le> key_time now fresh i s" "now \<le> key_time now fresh i s"
    using part_times [OF Key.hyps(2,3)] by blast+
  obtain r m srv where p: "key_part lib order now fresh (request_of i s) (mt_server s) = (r, m, srv)" by (rule prod_cases3)
  have "authenticated (check_bearer_auth (header (request_of i s) ''authorization'') (api_key cfg))"
    if "r = Some None"
    using p that Key.prems by (auto simp: key_part_def key_inv_def Let_def split: if_splits prod.splits)
  then show ?case unfolding p using Key parts_frame(3) [OF p]
    by (intro advance_keyed) (auto simp: key_inv_def)
qed

interpretation mw_keys: step_invariant "mw_step lib n" "\<lambda>s. require_auth cfg \<and> key_inv cfg s" for lib n cfg
  by unfold_locales (blast intro: key_step)

text \<open>Threads are never taken away, and one that has left the middleware stays as it is.\<close>

lemma mw_step_threads:
  assumes "mw_step lib n s s'"
  shows "length (mt_threads s) \<le> length (mt_threads s')"
    and "i < length (mt_threads s) \<Longrightarrow> th_stage (mt_threads s ! i) = Ended r
      \<Longrightarrow> mt_threads s' ! i = mt_threads s ! i"
  using assms by (cases; force simp: advance_def nth_append nth_list_update split: prod.split)+

subsection \<open>Refusals\<close>

definition refused_thread :: "mw_thread \<Rightarrow> bool" where
  "refused_thread th \<longleftrightarrow> (\<exists>r. th_stage th = Ended (Some r))"

definition rejections :: "metric_call list \<Rightarrow> nat" where
  "rejections cs = count_list cs Requests_Rejected_Auth + count_list cs Requests_Rejected_Rate_Limit"

definition refusal_inv :: "'b mw_state \<Rightarrow> bool" where
  "refusal_inv s \<longleftrightarrow> rejections (mt_metrics s) = size {#th \<in># mset (mt_threads s). refused_thread th#}
     \<and> (\<forall>th \<in># mset (mt_threads s). \<forall>r. th_stage th = Ended (Some r) \<longrightarrow> resp_status r \<in> {401, 429})"

lemma rejections_append [simp]: "rejections (xs @ ys) = rejections xs + rejections ys"
  by (simp add: rejections_def)

definition part_refuses :: "'b part \<Rightarrow> bool" where
  "part_refuses p \<longleftrightarrow> (case p of (r, m, s) \<Rightarrow>
     rejections m = (case r of Some (Some reply) \<Rightarrow> 1 | _ \<Rightarrow> 0)
     \<and> (\<forall>reply. r = Some (Some reply) \<longrightarrow> resp_status reply \<in> {401, 429}))"

lemma parts_refuse:
  "part_refuses (ask_part lib now req s)"
  "part_refuses (rate_part lib rorder now fresh req s)"
  "part_refuses (key_part lib forder now fresh req s)"
  by (auto simp: part_refuses_def rejections_def ask_part_def rate_part_def key_part_def
      auth_limited_response_def rate_limited_response_def reply_simps Let_def split: prod.splits)

lemma advance_refuses:
  assumes "refusal_inv s" and "i < length (mt_threads s)" and "running_part (th_stage (mt_threads s ! i))"
    and "running_part st" and "part_refuses p"
  shows "refusal_inv (advance i st now p s)"
proof -
  obtain r m srv where p: "p = (r, m, srv)" by (rule prod_cases3)
  obtain M where M: "mset (mt_threads s) = add_mset (mt_threads s ! i) M"
    "mset (mt_threads (advance i st now (r, m, srv) s)) = add_mset (moved st now r (mt_threads s ! i)) M"
    using advance_threads [OF assms(2)] by metis
  have "\<not> refused_thread (mt_threads s ! i)" "st \<noteq> Ended x" for x
    using assms(3,4) by (auto simp: refused_thread_def)
  moreover have "refused_thread (moved st now r (mt_threads s ! i)) \<longleftrightarrow> (\<exists>reply. r = Some (Some reply))"
    using assms(4) by (auto simp: refused_thread_def split: option.splits)
  ultimately show ?thesis using assms(1,5) unfolding refusal_inv_def p M
    by (auto simp: part_refuses_def split: option.splits)
qed

lemma refusal_step: "mw_step lib n s s' \<Longrightarrow> refusal_inv s \<Longrightarrow> refusal_inv s'"
proof (induction rule: mw_step.induct)
  case (Accept s now req)
  then show ?case by (auto simp: refusal_inv_def new_thread_def refused_thread_def)
qed (auto intro!: advance_refuses parts_refuse)

interpretation mw_refusals: step_invariant "mw_step lib n" refusal_inv for lib n
  by unfold_locales (rule refusal_step)

text \<open>The middleware counts nothing but rejections.\<close>

lemma part_calls:
  "ask_part lib now req s = (r, m, s') \<Longrightarrow> set m \<subseteq> {Requests_Rejected_Auth, Requests_Rejected_Rate_Limit}"
  "rate_part lib rorder now fresh req s = (r, m, s') \<Longrightarrow> set m \<subseteq> {Requests_Rejected_Auth, Requests_Rejected_Rate_Limit}"
  "key_part lib forder now fresh req s = (r, m, s') \<Longrightarrow> set m \<subseteq> {Requests_Rejected_Auth, Requests_Rejected_Rate_Limit}"
  by (auto simp: ask_part_def rate_part_def key_part_def Let_def split: if_splits prod.splits)

interpretation mw_calls: step_invariant "mw_step lib n"
    "\<lambda>s. set (mt_metrics s) \<subseteq> {Requests_Rejected_Auth, Requests_Rejected_Rate_Limit}" for lib n
proof unfold_locales
  fix s s' :: "'b mw_state"
  assume "mw_step lib n s s'" and "set (mt_metrics s) \<subseteq> {Requests_Rejected_Auth, Requests_Rejected_Rate_Limit}"
  then show "set (mt_metrics s') \<subseteq> {Requests_Rejected_Auth, Requests_Rejected_Rate_Limit}"
    by (cases; auto simp: advance_def dest!: part_calls split: prod.splits)
qed

subsection \<open>Playing a schedule\<close>

text \<open>An executable schedule of threads, all at one moment of the clock.\<close>

datatype mw_move = Move_Accept HttpRequest | Move_Ask nat | Move_Rate nat | Move_Key nat

fun mw_exec :: "'j json_library \<Rightarrow> nat \<Rightarrow> mw_move \<Rightarrow> 'b mw_state \<Rightarrow> 'b mw_state option" where
  "mw_exec lib n (Move_Accept req) s = (if in_flight (mt_threads s) < n
     then Some (s\<lparr>mt_now := mt_now s, mt_threads := mt_threads s @ [new_thread req (mt_now s)]\<rparr>) else None)"
| "mw_exec lib n (Move_Ask i) s = (if thread_at i Asking s
     then Some (advance i Unblocked (mt_now s) (ask_part lib (mt_now s) (request_of i s) (mt_server s)) s) else None)"
| "mw_exec lib n (Move_Rate i) s = (if thread_at i Unblocked s
     then Some (advance i Counted (mt_now s)
       (rate_part lib (\<lambda>m. m) (mt_now s) (mt_now s) (request_of i s) (mt_server s)) s) else None)"
| "mw_exec lib n (Move_Key i) s = (if thread_at i Counted s
     then Some (advance i Counted (mt_now s)
       (key_part lib (\<lambda>m. m) (mt_now s) (mt_now s) (request_of i s) (mt_server s)) s) else None)"

fun mw_play :: "'j json_library \<Rightarrow> nat \<Rightarrow> mw_move list \<Rightarrow> 'b mw_state \<Rightarrow> 'b mw_state option" where
  "mw_play lib n [] s = Some s"
| "mw_play lib n (m # ms) s = (case mw_exec lib n m s of None \<Rightarrow> None | Some s' \<Rightarrow> mw_play lib n ms s')"

lemma mw_exec_step: "mw_exec lib n m s = Some s' \<Longrightarrow> mw_step lib n s s'"
proof (cases m)
  case (Move_Accept req)
  then show "mw_exec lib n m s = Some s' \<Longrightarrow> ?thesis"
    using mw_step.Accept [of s n "mt_now s" lib req] by (simp split: if_splits)
next
  case (Move_Rate i)
  then show "mw_exec lib n m s = Some s' \<Longrightarrow> ?thesis"
    using mw_step.Rate [where now = "mt_now s" and fresh = "mt_now s" and s = s and i = i and order = "\<lambda>m. m" and lib = lib and n = n]
    by (simp split: if_splits)
next
  case (Move_Key i)
  then show "mw_exec lib n m s = Some s' \<Longrightarrow> ?thesis"
    using mw_step.Key [where now = "mt_now s" and fresh = "mt_now s" and s = s and i = i and order = "\<lambda>m. m" and lib = lib and n = n]
    by (simp split: if_splits)
qed (auto split: if_splits intro!: mw_step.intros)

lemma mw_play_steps: "mw_play lib n ms s = Some s' \<Longrightarrow> (mw_step lib n)\<^sup>*\<^sup>* s s'"
  by (induction ms arbitrary: s)
    (auto split: option.splits intro: converse_rtranclp_into_rtranclp dest!: mw_exec_step)

text \<open>A race: one wrong key, then two threads that both ask before either has recorded its failure;
  with a limit of one, three wrong keys have been looked at.\<close>

definition race_config :: ServerConfig where
  "race_config = default_config\<lparr>require_auth := True, api_key := ''k'', auth_rate_limit_max := 1\<rparr>"

definition race_server :: "MockBackend TtsServer" where
  "race_server = new_TtsServer race_config (Some new_MockBackend) None 0"

definition race_moves :: "mw_move list" where
  "race_moves = [Move_Accept example_guess, Move_Ask 0, Move_Rate 0, Move_Key 0,
     Move_Accept example_guess, Move_Accept example_guess, Move_Ask 1, Move_Ask 2,
     Move_Rate 1, Move_Rate 2, Move_Key 1, Move_Key 2]"

text \<open>The server of the race after \<open>a\<close> failures and \<open>r\<close> requests of its one client.\<close>

definition race_state :: "nat \<Rightarrow> nat \<Rightarrow> MockBackend TtsServer" where
  "race_state a r = race_server
     \<lparr>srv_auth_limiter := (srv_auth_limiter race_server)\<lparr>auth_ip_states :=
        (if a = 0 then [] else [(''1.2.3.4'', \<lparr>failures = a, failure_window_start = 1\<rparr>)])\<rparr>,
      srv_request_limiter := (srv_request_limiter race_server)\<lparr>request_ip_states :=
        (if r = 0 then [] else [(''1.2.3.4'', \<lparr>requests = r, request_window_start = 1\<rparr>)])\<rparr>\<rparr>"

definition wrong_key_refusal :: HttpResponse where
  "wrong_key_refusal = (let a = check_bearer_auth (header example_guess ''authorization'') ''k'' in
     make_error_response (example_library None) 401 ''authentication_error''
       (auth_error_code a) (auth_error_message a) [])"

lemma race_state_start: "race_server = race_state 0 0"
  by (simp add: race_state_def race_server_def new_TtsServer_def Let_def)

lemma race_frame:
  "srv_config (race_state a r) = race_config" "require_auth race_config" "api_key race_config = ''k''"
  "\<not> is_internal_endpoint (req_path example_guess)"
  "client_address race_config example_guess = ''1.2.3.4''"
  by (simp_all add: race_state_def race_server_def race_config_def new_TtsServer_def client_address_def
      extract_client_ip_def default_config_def example_guess_def example_get_def is_internal_endpoint_def Let_def)

lemma race_limiters:
  "auth_ip_states (srv_auth_limiter (race_state a r))
     = (if a = 0 then [] else [(''1.2.3.4'', \<lparr>failures = a, failure_window_start = 1\<rparr>)])"
  "max_failures (srv_auth_limiter (race_state a r)) = 1"
  "window_secs (srv_auth_limiter (race_state a r)) = 60"
  "auth_max_tracked_ips (srv_auth_limiter (race_state a r)) = 10000"
  "request_ip_states (srv_request_limiter (race_state a r))
     = (if r = 0 then [] else [(''1.2.3.4'', \<lparr>requests = r, request_window_start = 1\<rparr>)])"
  "max_rpm (srv_request_limiter (race_state a r)) = 10"
  by (simp_all add: race_state_def race_server_def race_config_def new_TtsServer_def default_config_def
      int_to_size_def Let_def)

lemma race_ask:
  "a \<le> 1 \<Longrightarrow> ask_part (example_library None) 1 example_guess (race_state a r) = (None, [], race_state a r)"
  by (simp add: ask_part_def race_frame race_limiters is_blocked_def auth_expired_def ns_per_sec_def Let_def)

lemma race_rate:
  "r < 10 \<Longrightarrow> rate_part (example_library None) (\<lambda>m. m) 1 1 example_guess (race_state a r)
     = (None, [], race_state a (Suc r))"
  by (simp add: rate_part_def race_frame race_limiters check_request_def subscript_def
      elapsed_seconds_def to_seconds_nonneg Let_def) (simp add: race_state_def)

lemma race_wrong: "\<not> authenticated (check_bearer_auth (header example_guess ''authorization'') ''k'')"
  unfolding check_bearer_auth_accepts
  by (simp add: example_guess_def example_get_def header_def bearer_prefix_def constant_time_equals_iff)

lemma race_key:
  "key_part (example_library None) (\<lambda>m. m) 1 1 example_guess (race_state a r)
     = (Some (Some wrong_key_refusal), [Requests_Rejected_Auth], race_state (Suc a) r)"
  by (simp add: key_part_def race_frame race_wrong race_limiters check_and_record_failure_def subscript_def
      auth_expired_def ns_per_sec_def wrong_key_refusal_def Let_def) (simp add: race_state_def)

definition race_thread :: mw_thread where
  "race_thread = \<lparr>th_request = example_guess, th_stage = Ended (Some wrong_key_refusal),
     th_counted = Some 1, th_last = 1\<rparr>"

lemma race_outcome:
  "mw_play (example_library None) 2 race_moves (mw_start 1 race_server)
   = Some \<lparr>mt_server = race_state 3 3, mt_now = 1, mt_threads = [race_thread, race_thread, race_thread],
       mt_metrics = [Requests_Rejected_Auth, Requests_Rejected_Auth, Requests_Rejected_Auth]\<rparr>"
  by (simp add: race_moves_def mw_start_def race_state_start in_flight_def new_thread_def advance_def
      moved_def race_ask race_rate race_key race_thread_def numeral_eq_Suc)

subsection \<open>Properties\<close>

text \<open>C16. Guessing the key from many threads: whatever the interleaving of the parts of the middleware
  in at most \<open>n\<close> threads, no stretch of one window holds more than \<open>2 (auth_rate_limit_max + n)\<close>
  wrong keys of one client address that the middleware looks at and refuses with 401, as long as at
  most 10000 addresses appear. The block test and the record of the failure lock the table one
  after the other, so each thread in flight can add one wrong key to what the limiter allows.\<close>

theorem racing_wrong_keys_per_address:
  assumes "(mw_step lib n)\<^sup>*\<^sup>* (mw_start t (new_TtsServer cfg backend catalog started)) s"
    and "require_auth cfg" and "0 \<le> auth_rate_limit_window cfg"
    and "card (thread_ip cfg ` set (mt_threads s)) \<le> 10000"
  shows "length (filter (\<lambda>th. wrong_thread th \<and> thread_ip cfg th = ip \<and> t0 \<le> th_last th
      \<and> th_last th \<le> t0 + auth_rate_limit_window cfg * ns_per_sec) (mt_threads s))
    \<le> 2 * (int_to_size (auth_rate_limit_max cfg) + n)"
  using assms by (rule guesses_while_racing)

text \<open>In the race three threads look at a wrong key at one moment, with a limit of one failure.\<close>

theorem racing_wrong_keys_per_address_witness:
  "length (filter (\<lambda>th. wrong_thread th \<and> thread_ip race_config th = ''1.2.3.4'' \<and> 1 \<le> th_last th
      \<and> th_last th \<le> 1 + auth_rate_limit_window race_config * ns_per_sec) [race_thread, race_thread, race_thread])
    \<le> 2 * (int_to_size (auth_rate_limit_max race_config) + 2)
   \<and> wrong_thread race_thread \<and> auth_rate_limit_max race_config = 1"
proof -
  note run = mw_play_steps [OF race_outcome, unfolded race_server_def]
  have "0 \<le> auth_rate_limit_window race_config" by (simp add: race_config_def default_config_def)
  from racing_wrong_keys_per_address [OF run race_frame(2) this, of "''1.2.3.4''" 1] show ?thesis
    by (simp add: race_thread_def wrong_thread_def wrong_reply_def wrong_key_refusal_def race_config_def
        make_error_response_def reply_simps Let_def)
qed

text \<open>C17. The load on the handlers from many threads: whatever the interleaving, the requests of one
  client address that the middleware lets through to the protected routes passed the request limiter
  at most twice \<open>request_rate_limit_rpm\<close> times in any minute, however many addresses appear.\<close>

theorem racing_load_per_address:
  assumes "(mw_step lib n)\<^sup>*\<^sup>* (mw_start t (new_TtsServer cfg backend catalog started)) s"
  shows "length (filter (\<lambda>th. let_pass th \<and> thread_ip cfg th = ip \<and> t0 \<le> the (th_counted th)
      \<and> the (th_counted th) \<le> t0 + minute_span) (mt_threads s))
    \<le> 2 * int_to_size (request_rate_limit_rpm cfg)"
  using assms by (rule load_while_racing)

theorem racing_load_per_address_witness:
  "length (filter (\<lambda>th. let_pass th \<and> thread_ip race_config th = ''1.2.3.4'' \<and> 1 \<le> the (th_counted th)
      \<and> the (th_counted th) \<le> 1 + minute_span) [race_thread, race_thread, race_thread])
    \<le> 2 * int_to_size (request_rate_limit_rpm race_config)"
  using racing_load_per_address [OF mw_play_steps [OF race_outcome, unfolded race_server_def],
      of "''1.2.3.4''" 1] by (simp add: race_config_def)

text \<open>C29. Refusals are counted once: in every interleaving the two rejection counters together hold
  exactly the requests the middleware has refused, and each of them was refused with 401 or 429.\<close>

theorem racing_refusals_counted:
  assumes "(mw_step lib n)\<^sup>*\<^sup>* (mw_start t server) s"
  shows "count_list (mt_metrics s) Requests_Rejected_Auth + count_list (mt_metrics s) Requests_Rejected_Rate_Limit
      = length (filter (\<lambda>th. \<exists>r. th_stage th = Ended (Some r)) (mt_threads s))
    \<and> (\<forall>th r. th \<in> set (mt_threads s) \<longrightarrow> th_stage th = Ended (Some r) \<longrightarrow> resp_status r \<in> {401, 429})"
proof -
  have "refusal_inv (mw_start t server)" by (simp add: refusal_inv_def mw_start_def rejections_def)
  from mw_refusals.inv_steps [OF assms this] have inv: "refusal_inv s" .
  have eq: "refused_thread = (\<lambda>th. \<exists>r. th_stage th = Ended (Some r))"
    by (rule ext) (rule refused_thread_def)
  have n: "size (filter_mset refused_thread (mset (mt_threads s)))
      = length (filter (\<lambda>th. \<exists>r. th_stage th = Ended (Some r)) (mt_threads s))"
    unfolding eq by (simp only: size_mset flip: mset_filter)
  show ?thesis
  proof (intro conjI allI impI)
    show "count_list (mt_metrics s) Requests_Rejected_Auth + count_list (mt_metrics s) Requests_Rejected_Rate_Limit
        = length (filter (\<lambda>th. \<exists>r. th_stage th = Ended (Some r)) (mt_threads s))"
      using conjunct1 [OF inv [unfolded refusal_inv_def rejections_def]] n by (rule trans)
  next
    fix th r
    assume th: "th \<in> set (mt_threads s)" "th_stage th = Ended (Some r)"
    have "\<forall>r. th_stage th = Ended (Some r) \<longrightarrow> resp_status r \<in> {401, 429}"
      using conjunct2 [OF inv [unfolded refusal_inv_def set_mset_mset]] th(1) by (rule bspec)
    with th(2) show "resp_status r \<in> {401, 429}" by (elim allE impE)
  qed
qed

theorem racing_refusals_counted_witness:
  "count_list [Requests_Rejected_Auth, Requests_Rejected_Auth, Requests_Rejected_Auth] Requests_Rejected_Auth
      + count_list [Requests_Rejected_Auth, Requests_Rejected_Auth, Requests_Rejected_Auth] Requests_Rejected_Rate_Limit
    = length (filter (\<lambda>th. \<exists>r. th_stage th = Ended (Some r)) [race_thread, race_thread, race_thread])"
  using conjunct1 [OF racing_refusals_counted [OF mw_play_steps [OF race_outcome]]]
  by (simp only: mw_state.simps)

end
