(* ===== verification/ServerRun.thy ===== *)
theory ServerRun
  imports Dispatch BruteForce
begin

text \<open>
  Runs of whole requests through the adapter, one after the other, and what they keep of the
  server's state: the limiters stay well formed, and of the rest only the contents of the pool change,
  which \<open>Pool\<close> and \<open>Service\<close> are about.
\<close>

text \<open>The limiters are those of the configuration, no window of theirs starts in the future, keys are
  distinct and the table of failures is within its cap.\<close>

definition limiters_wf :: "time_point \<Rightarrow> 'b TtsServer \<Rightarrow> bool" where
  "limiters_wf t s \<longleftrightarrow>
     auth_inv (auth_rate_limit_window (srv_config s)) (int_to_size (auth_rate_limit_max (srv_config s))) t
       (srv_auth_limiter s)
     \<and> auth_max_tracked_ips (srv_auth_limiter s) = 10000 \<and> auth_limiter_size (srv_auth_limiter s) \<le> 10000
     \<and> request_inv (int_to_size (request_rate_limit_rpm (srv_config s))) t (srv_request_limiter s)"

lemma new_limiters_wf: "limiters_wf t (new_TtsServer cfg backend catalog now)"
  by (simp add: limiters_wf_def new_TtsServer_def auth_inv_def request_inv_def auth_limiter_size_def Let_def)

lemma middleware_wf:
  assumes "limiters_wf t s" and "env_ok t env"
  shows "limiters_wf (mw_failure_fresh env) (snd (snd (run_middleware lib env req s)))"
proof -
  let ?s = "snd (snd (run_middleware lib env req s))" and ?u = "mw_failure_fresh env"
  let ?es = "mw_auth_events lib env req s" and ?ip = "client_address (srv_config s) req"
  let ?limit = "int_to_size (request_rate_limit_rpm (srv_config s))"
  note a = run_middleware_auth_limiter [of lib env req s] and ok = mw_auth_events_ok(1,3) [OF assms(2), of lib req s]
    and tu = mw_auth_events_ok(2) [OF assms(2)]
  have inv: "auth_inv (auth_rate_limit_window (srv_config s)) (int_to_size (auth_rate_limit_max (srv_config s)))
      t (srv_auth_limiter s)" using assms(1) by (simp add: limiters_wf_def)
  have well: "\<forall>x \<in> set ?es. auth_well x" using ok(2) by blast
  from auth_run_size [OF inv ok(1) this] assms(1)
  have size: "auth_limiter_size (srv_auth_limiter ?s) \<le> 10000" unfolding a by (simp add: limiters_wf_def)
  have cap: "auth_max_tracked_ips (srv_auth_limiter ?s) = 10000"
  proof -
    have "auth_max_tracked_ips (auth_hit x l) = auth_max_tracked_ips l"
      if "auth_well x" "distinct_keys (auth_ip_states l)" for x l
      using that auth_failure_lookup(3) is_blocked_frame(3) by (cases x) auto
    moreover have "distinct_keys (auth_ip_states (auth_hit x l))"
      if "auth_well x" "distinct_keys (auth_ip_states l)" for x l
      using that auth_failure_lookup(4) is_blocked_frame(4) by (cases x) auto
    ultimately have "auth_max_tracked_ips (fold auth_hit xs l) = auth_max_tracked_ips l"
      if "\<forall>x \<in> set xs. auth_well x" "distinct_keys (auth_ip_states l)" for xs l
      using that by (induction xs arbitrary: l) auto
    with well assms(1) show ?thesis
      unfolding a by (simp add: limiters_wf_def auth_inv_def)
  qed
  let ?e = "request_of_call (mw_request_order env) (mw_request_at env) (mw_request_fresh env) ?ip (srv_request_limiter s)"
  have le: "mw_request_at env \<le> mw_request_fresh env" using assms(2) by (simp add: env_ok_def)
  note seen = seen_at_range [OF this, of "request_ip_states (srv_request_limiter s)" ?ip]
  have e: "request_well ?e" "t \<le> req_time ?e" "req_time ?e \<le> ?u"
    using seen assms(2) by (simp_all add: env_ok_def)
  have req: "request_inv ?limit t (srv_request_limiter s)"
    using assms(1) by (simp add: limiters_wf_def)
  have "request_inv ?limit ?u (request_hit ?e (srv_request_limiter s))"
    using request_window.invar_later [OF request_window.invar_hit [OF req e(2,1)] e(3)] .
  then have "request_inv ?limit ?u (srv_request_limiter ?s)"
    using request_window.invar_later [OF req tu]
    by (simp add: run_middleware_request_limiter check_request_call request_hit_def)
  moreover have "auth_inv (auth_rate_limit_window (srv_config s)) (int_to_size (auth_rate_limit_max (srv_config s)))
      ?u (srv_auth_limiter ?s)"
    unfolding a by (rule auth_window.invar_fold [OF inv ok tu])
  ultimately show ?thesis using size cap by (simp add: limiters_wf_def run_middleware_frame)
qed

lemma limiters_wf_later: "limiters_wf t s \<Longrightarrow> t \<le> u \<Longrightarrow> limiters_wf u s"
  unfolding limiters_wf_def by (blast intro: auth_window.invar_later request_window.invar_later)

text \<open>Only the limiters and the contents of the pool differ.\<close>

definition same_but_traffic :: "'b TtsServer \<Rightarrow> 'b TtsServer \<Rightarrow> bool" where
  "same_but_traffic s s' \<longleftrightarrow> s' = s\<lparr>srv_auth_limiter := srv_auth_limiter s',
       srv_request_limiter := srv_request_limiter s', srv_pool := srv_pool s'\<rparr>
     \<and> (srv_pool s' = None \<longleftrightarrow> srv_pool s = None)"

lemma same_refl [simp]: "same_but_traffic s s"
  by (simp add: same_but_traffic_def)

lemma same_trans: "same_but_traffic s t \<Longrightarrow> same_but_traffic t u \<Longrightarrow> same_but_traffic s u"
  by (cases s; cases t; cases u) (simp add: same_but_traffic_def)

lemma same_pool: "(p = None \<longleftrightarrow> srv_pool s = None) \<Longrightarrow> same_but_traffic s (s\<lparr>srv_pool := p\<rparr>)"
  by (simp add: same_but_traffic_def)

lemma middleware_same: "same_but_traffic s (snd (snd (run_middleware lib env req s)))"
  by (auto simp: same_but_traffic_def run_middleware_def Let_def split: prod.splits)

lemma limiters_wf_pool [simp]: "limiters_wf t (s\<lparr>srv_pool := p\<rparr>) = limiters_wf t s"
  by (simp add: limiters_wf_def)

text \<open>A served request leaves the server as it was or as the middleware left it, with the pool as the
  speech handler leaves it.\<close>

lemma serve_server:
  assumes "serve lib match env ready req s = Some (r, s')"
  obtains (untouched) "s' = s"
  | (served) p where "s' = (snd (snd (run_middleware lib (se_middleware env) (adapt_request req) s)))\<lparr>srv_pool := p\<rparr>"
      "p = None \<longleftrightarrow> srv_pool s = None"
proof -
  let ?t = "snd (snd (run_middleware lib (se_middleware env) (adapt_request req) s))"
  have "s' = s \<or> (\<exists>p. s' = ?t\<lparr>srv_pool := p\<rparr> \<and> (p = None \<longleftrightarrow> srv_pool s = None))"
  proof (cases "match registered_routes (lib_method req) (lib_path req)")
    case None
    with assms show ?thesis by (simp add: serve_def Let_def)
  next
    case (Some rt)
    have pool: "srv_pool ?t = srv_pool s" by (rule run_middleware_frame)
    obtain e m t where mw: "run_middleware lib (se_middleware env) (adapt_request req) s = (e, m, t)"
      using prod_cases3 by blast
    have t: "srv_pool t = srv_pool s" using pool mw by simp
    show ?thesis
    proof (cases "rt = Speech_Route \<and> e = None")
      case True
      obtain out m2 left where h: "handle_speech lib (se_speech env t) (adapt_request req) (make_deps ready t) = (out, m2, left)"
        using prod_cases3 by blast
      then have "left = None \<longleftrightarrow> srv_pool s = None" using handle_speech_pool [OF h] t by (simp add: make_deps_def)
      moreover have "s' = t\<lparr>srv_pool := left\<rparr>"
        using assms Some True mw h by (cases out) (auto simp: serve_def route_speech_def Let_def)
      ultimately show ?thesis using mw by auto
    next
      case False
      then have "s' = s \<or> s' = t"
        using assms Some mw
        by (cases rt; cases e) (auto simp: serve_def Let_def route_voices_def route_speech_def)
      then consider "s' = s" | "s' = ?t\<lparr>srv_pool := srv_pool t\<rparr>" using mw by auto
      then show ?thesis
      proof cases
        case 2
        with t show ?thesis by (intro disjI2 exI [of _ "srv_pool t"] conjI) simp_all
      qed simp
    qed
  qed
  then show thesis
  proof (elim disjE exE conjE)
    fix p assume "s' = ?t\<lparr>srv_pool := p\<rparr>" "p = None \<longleftrightarrow> srv_pool s = None"
    then show thesis by (rule served)
  qed (rule untouched)
qed

fun serve_all :: "'j json_library \<Rightarrow> matcher \<Rightarrow> ('b \<Rightarrow> bool) \<Rightarrow> ('b serve_env \<times> lib_request) list
    \<Rightarrow> 'b TtsServer \<Rightarrow> 'b TtsServer option" where
  "serve_all lib match ready [] s = Some s"
| "serve_all lib match ready (e # es) s =
     (case serve lib match (fst e) ready (snd e) s of
        None \<Rightarrow> None
      | Some (r, s') \<Rightarrow> serve_all lib match ready es s')"

fun envs_ok :: "time_point \<Rightarrow> ('b serve_env \<times> lib_request) list \<Rightarrow> time_point \<Rightarrow> bool" where
  "envs_ok t [] u = (t \<le> u)"
| "envs_ok t (e # es) u \<longleftrightarrow>
     env_ok t (se_middleware (fst e)) \<and> envs_ok (mw_failure_fresh (se_middleware (fst e))) es u"

lemma serve_all_wf:
  "\<lbrakk>serve_all lib match ready es s = Some s'; envs_ok t es u; limiters_wf t s\<rbrakk>
     \<Longrightarrow> limiters_wf u s' \<and> same_but_traffic s s'"
proof (induction es arbitrary: s t)
  case Nil
  then show ?case using limiters_wf_later by auto
next
  case (Cons e es)
  let ?u = "mw_failure_fresh (se_middleware (fst e))"
  obtain r s1 where s1: "serve lib match (fst e) ready (snd e) s = Some (r, s1)"
    and rest: "serve_all lib match ready es s1 = Some s'"
    using Cons.prems(1) by (auto split: option.splits)
  have ok: "env_ok t (se_middleware (fst e))" "envs_ok ?u es u" using Cons.prems(2) by simp_all
  then have tu: "t \<le> ?u" by (simp add: env_ok_def)
  have "limiters_wf ?u s1 \<and> same_but_traffic s s1"
  proof (cases rule: serve_server [OF s1])
    case 1
    with limiters_wf_later [OF Cons.prems(3) tu] show ?thesis by simp
  next
    case (2 p)
    let ?t = "snd (snd (run_middleware lib (se_middleware (fst e)) (adapt_request (snd e)) s))"
    have "same_but_traffic ?t s1" using 2 by (simp add: same_pool run_middleware_frame)
    then have "same_but_traffic s s1" by (rule same_trans [OF middleware_same])
    moreover have "limiters_wf ?u s1" using 2(1) middleware_wf [OF Cons.prems(3) ok(1)] by simp
    ultimately show ?thesis by simp
  qed
  with Cons.IH [OF rest ok(2)] same_trans show ?case by blast
qed

subsection \<open>Properties\<close>

text \<open>C30. Well-formedness of the server: whatever requests it serves, over whatever routes, both
  limiters keep the limits of the configuration, distinct addresses and no window that starts in
  the future; the table of authentication failures never exceeds 10000 addresses (that of the request
  limiter has no such cap); and no other field of the server changes but the contents of the pool.\<close>

theorem serving_keeps_server_well_formed:
  assumes "serve_all lib match ready es s = Some s'" and "envs_ok t es u" and "limiters_wf t s"
  shows "limiters_wf u s' \<and> same_but_traffic s s'"
  using assms by (rule serve_all_wf)

theorem serving_keeps_server_well_formed_witness:
  "\<exists>s'. serve_all (example_library None) exact_match mock_is_ready
       (replicate 2 (example_serve_env, example_lib_request)) example_server = Some s'
     \<and> limiters_wf 1 s' \<and> srv_config s' = srv_config example_server"
proof -
  let ?es = "replicate 2 (example_serve_env, example_lib_request)"
  have voices: "serve (example_library None) exact_match example_serve_env mock_is_ready example_lib_request s
      = Some (route_voices (example_library None) example_mw ''id'' mock_is_ready example_lib_request s)" for s
    by (simp add: serve_def exact_match_def registered_routes_def example_lib_request_def example_serve_env_def)
  have "\<exists>s'. serve_all (example_library None) exact_match mock_is_ready
      (replicate n (example_serve_env, example_lib_request)) s = Some s'" for n s
  proof (induction n arbitrary: s)
    case (Suc n)
    obtain r t where "route_voices (example_library None) example_mw ''id'' mock_is_ready example_lib_request s = (r, t)"
      by fastforce
    with Suc [of t] show ?case by (simp add: voices)
  qed simp
  then obtain s' where s': "serve_all (example_library None) exact_match mock_is_ready ?es example_server = Some s'"
    by blast
  have "envs_ok 0 ?es 1"
    by (simp add: numeral_eq_Suc example_serve_env_def env_ok_def example_mw_def is_reorder_def)
  moreover have "limiters_wf 0 example_server" unfolding example_server_def by (rule new_limiters_wf)
  ultimately have w: "limiters_wf 1 s' \<and> same_but_traffic example_server s'"
    using serving_keeps_server_well_formed [OF s'] by blast
  then have "srv_config s' = srv_config example_server"
    unfolding same_but_traffic_def by (metis TtsServer.select_convs(1) TtsServer.surjective TtsServer.update_convs(4,5,6))
  with s' w show ?thesis by blast
qed

end
