(* ===== verification/Registry.thy ===== *)
theory Registry
  imports Service
begin

text \<open>
  The metrics registry: the families \<^verbatim>\<open>metrics.cpp\<close> registers, each with its time series, and what the
  calls of the server make of them, up to the text served on \<^verbatim>\<open>/metrics\<close>. The counters, gauges,
  histograms and the text format belong to the Prometheus library and are a record of functions; the
  registry itself, which series exist and which calls they have had, is the server's.
\<close>

subsection \<open>The registry\<close>

record 'v metrics_library =
  ml_new :: "metric_kind \<Rightarrow> 'v"
  ml_increment :: "rat \<Rightarrow> 'v \<Rightarrow> 'v"
  ml_decrement :: "'v \<Rightarrow> 'v"
  ml_set :: "rat \<Rightarrow> 'v \<Rightarrow> 'v"
  ml_observe :: "rat \<Rightarrow> 'v \<Rightarrow> 'v"
  ml_text :: "(family \<times> ((string \<times> string) list \<times> 'v) list) list \<Rightarrow> string"

type_synonym 'v registry = "(family \<times> ((string \<times> string) list \<times> 'v) list) list"

text \<open>The two families whose series are added at the first use of a label; the others have one series
  without labels from the start.\<close>

definition labelled :: "family \<Rightarrow> bool" where
  "labelled f \<longleftrightarrow> family_name f \<in> {''opentts_requests_total'', ''opentts_voice_requests_total''}"

definition new_Metrics :: "'v metrics_library \<Rightarrow> 'v registry" where
  "new_Metrics lib = map (\<lambda>f. (f, if labelled f then [] else [([], ml_new lib (family_kind f))])) metric_families"

text \<open>\<^verbatim>\<open>Family::Add\<close> and the methods of a series are the Prometheus library's, which is not part of the
  repository; of the former the library documents that it returns the series with these labels, a new one
  when there is none. The server's own share is which family and labels a call names (\<open>call_series\<close>).\<close>

definition add_series :: "'v metrics_library \<Rightarrow> metric_kind \<Rightarrow> (string \<times> string) list
    \<Rightarrow> ((string \<times> string) list \<times> 'v) list \<Rightarrow> ((string \<times> string) list \<times> 'v) list" where
  "add_series lib kind labels ss = (case map_of ss labels of
     None \<Rightarrow> ss @ [(labels, ml_new lib kind)] | Some v \<Rightarrow> ss)"

text \<open>What the server does to the series it has got hold of.\<close>

fun call_update :: "'v metrics_library \<Rightarrow> metric_call \<Rightarrow> 'v \<Rightarrow> 'v" where
  "call_update lib (Requests_Total status) = ml_increment lib 1"
| "call_update lib (Voice_Requests_Total voice) = ml_increment lib 1"
| "call_update lib Requests_Rejected_Auth = ml_increment lib 1"
| "call_update lib Requests_Rejected_Rate_Limit = ml_increment lib 1"
| "call_update lib (Input_Characters_Total n) = ml_increment lib (of_nat n)"
| "call_update lib (Audio_Bytes_Generated_Total n) = ml_increment lib (of_nat n)"
| "call_update lib Errors_Total = ml_increment lib 1"
| "call_update lib Active_Jobs_Increment = ml_increment lib 1"
| "call_update lib Active_Jobs_Decrement = ml_decrement lib"
| "call_update lib (Queue_Depth_Set d) = ml_set lib (of_int d)"
| "call_update lib (Synthesis_Duration x) = ml_observe lib x"
| "call_update lib (Inference_Duration x) = ml_observe lib x"
| "call_update lib (Audio_Duration x) = ml_observe lib x"
| "call_update lib (Input_Characters n) = ml_observe lib (of_nat n)"

definition metrics_call :: "'v metrics_library \<Rightarrow> metric_call \<Rightarrow> 'v registry \<Rightarrow> 'v registry" where
  "metrics_call lib c reg = map (\<lambda>(f, ss).
     if family_name f = fst (call_series c)
     then (f, map (\<lambda>(l, v). (l, if l = snd (call_series c) then call_update lib c v else v))
                (add_series lib (family_kind f) (snd (call_series c)) ss))
     else (f, ss)) reg"

definition metrics_serialize :: "'v metrics_library \<Rightarrow> 'v registry \<Rightarrow> string" where
  "metrics_serialize lib reg = ml_text lib reg"

subsection \<open>The calls fit the families\<close>

text \<open>Counters are only incremented, by amounts that are not negative; gauges are set, raised and
  lowered; histograms observe.\<close>

fun call_fits :: "metric_call \<Rightarrow> metric_kind \<Rightarrow> bool" where
  "call_fits Active_Jobs_Increment k = (k = Gauge)"
| "call_fits Active_Jobs_Decrement k = (k = Gauge)"
| "call_fits (Queue_Depth_Set d) k = (k = Gauge)"
| "call_fits (Synthesis_Duration x) k = (\<exists>bs. k = Histogram bs)"
| "call_fits (Inference_Duration x) k = (\<exists>bs. k = Histogram bs)"
| "call_fits (Audio_Duration x) k = (\<exists>bs. k = Histogram bs)"
| "call_fits (Input_Characters n) k = (\<exists>bs. k = Histogram bs)"
| "call_fits _ k = (k = Counter)"

definition family_of :: "metric_call \<Rightarrow> family option" where
  "family_of c = find (\<lambda>f. family_name f = fst (call_series c)) metric_families"

lemma family_names_distinct: "distinct (map family_name metric_families)"
  by (simp add: metric_families_def mk_family_def)

lemma family_of_call:
  "\<exists>f. family_of c = Some f \<and> f \<in> set metric_families \<and> family_name f = fst (call_series c)
     \<and> call_fits c (family_kind f) \<and> (labelled f \<longleftrightarrow> snd (call_series c) \<noteq> [])"
  by (cases c) (simp_all add: family_of_def metric_families_def mk_family_def labelled_def)

subsection \<open>What a series has had\<close>

text \<open>The series a run of calls touches: all calls of one series, in order.\<close>

definition calls_of :: "series \<Rightarrow> metric_call list \<Rightarrow> metric_call list" where
  "calls_of sr cs = filter (\<lambda>c. call_series c = sr) cs"

definition expected_series :: "'v metrics_library \<Rightarrow> family \<Rightarrow> metric_call list
    \<Rightarrow> (string \<times> string) list \<Rightarrow> 'v option" where
  "expected_series lib f cs l =
     (if l = [] \<and> \<not> labelled f \<or> calls_of (family_name f, l) cs \<noteq> []
      then Some (fold (call_update lib) (calls_of (family_name f, l) cs) (ml_new lib (family_kind f)))
      else None)"

definition run_calls :: "'v metrics_library \<Rightarrow> metric_call list \<Rightarrow> 'v registry" where
  "run_calls lib cs = fold (metrics_call lib) cs (new_Metrics lib)"

lemma run_calls_snoc: "run_calls lib (cs @ [c]) = metrics_call lib c (run_calls lib cs)"
  by (simp add: run_calls_def)

lemma metrics_call_families: "map fst (metrics_call lib c reg) = map fst reg"
  by (auto simp: metrics_call_def)

lemma run_calls_families: "map fst (run_calls lib cs) = metric_families"
  by (induction cs rule: rev_induct)
    (simp_all add: run_calls_snoc metrics_call_families run_calls_def new_Metrics_def o_def)

lemma map_of_update:
  "map_of (map (\<lambda>(l, v). (l, if l = k then g v else v)) ss) l
     = (if l = k then map_option g (map_of ss k) else map_of ss l)"
  by (induction ss) auto

lemma add_series_lookup:
  "map_of (add_series lib kind k ss) l
     = (if l = k \<and> map_of ss k = None then Some (ml_new lib kind) else map_of ss l)"
  by (auto simp: add_series_def map_add_def split: option.split)

lemma add_series_distinct: "distinct (map fst ss) \<Longrightarrow> distinct (map fst (add_series lib kind k ss))"
  by (auto simp: add_series_def map_of_eq_None_iff split: option.split)

lemma expected_snoc:
  "expected_series lib f (cs @ [c]) l =
     (if call_series c = (family_name f, l)
      then Some (call_update lib c (case expected_series lib f cs l of None \<Rightarrow> ml_new lib (family_kind f) | Some v \<Rightarrow> v))
      else expected_series lib f cs l)"
  by (simp add: expected_series_def calls_of_def)

lemma run_calls_series:
  "(f, ss) \<in> set (run_calls lib cs) \<Longrightarrow> distinct (map fst ss) \<and> map_of ss = expected_series lib f cs"
proof (induction cs arbitrary: f ss rule: rev_induct)
  case Nil
  then show ?case
    by (auto simp: run_calls_def new_Metrics_def expected_series_def calls_of_def fun_eq_iff)
next
  case (snoc c cs)
  from snoc.prems obtain ss0 where s0: "(f, ss0) \<in> set (run_calls lib cs)"
    and ss: "ss = (if family_name f = fst (call_series c)
      then map (\<lambda>(l, v). (l, if l = snd (call_series c) then call_update lib c v else v))
             (add_series lib (family_kind f) (snd (call_series c)) ss0) else ss0)"
    by (auto simp: run_calls_snoc metrics_call_def split: if_splits)
  note IH = snoc.IH [OF s0]
  show ?case
  proof (cases "family_name f = fst (call_series c)")
    case False
    then have "expected_series lib f (cs @ [c]) = expected_series lib f cs"
      by (auto simp: expected_snoc fun_eq_iff)
    with False IH ss show ?thesis by simp
  next
    case True
    let ?k = "snd (call_series c)"
    have "map_of ss l = expected_series lib f (cs @ [c]) l" for l
      using IH True
      by (auto simp: ss map_of_update add_series_lookup expected_snoc prod_eq_iff split: option.split)
    moreover have "map fst ss = map fst (add_series lib (family_kind f) ?k ss0)"
      by (simp add: ss True o_def case_prod_unfold)
    ultimately show ?thesis using IH add_series_distinct [of ss0] by (auto simp: fun_eq_iff)
  qed
qed

subsection \<open>How many series there are\<close>

definition series_count :: "'v registry \<Rightarrow> nat" where
  "series_count reg = sum_list (map (\<lambda>(f, ss). length ss) reg)"

text \<open>The labels a run of calls has used in a family.\<close>

definition used_labels :: "string \<Rightarrow> metric_call list \<Rightarrow> (string \<times> string) list set" where
  "used_labels name cs = {l. \<exists>c \<in> set cs. call_series c = (name, l)}"

lemma series_of_family:
  assumes "(f, ss) \<in> set (run_calls lib cs)" and "used_labels (family_name f) cs \<subseteq> L" and "finite L"
    and "f \<in> set metric_families"
  shows "length ss \<le> (if labelled f then card L else 1)"
proof -
  note s = run_calls_series [OF assms(1)]
  have "length ss = card (set (map fst ss))" using s distinct_card [of "map fst ss"] by simp
  also have "set (map fst ss) = dom (map_of ss)" by (simp add: dom_map_of_conv_image_fst)
  also have "dom (map_of ss) = {l. expected_series lib f cs l \<noteq> None}" using s by (auto simp: dom_def)
  finally have n: "length ss = card {l. expected_series lib f cs l \<noteq> None}" .
  show ?thesis
  proof (cases "labelled f")
    case True
    then have "{l. expected_series lib f cs l \<noteq> None} \<subseteq> L"
      using assms(2) by (auto simp: expected_series_def used_labels_def calls_of_def filter_empty_conv split: if_splits)
    from card_mono [OF assms(3) this] True n show ?thesis by simp
  next
    case False
    have "l = []" if "expected_series lib f cs l \<noteq> None" for l
    proof (rule ccontr)
      assume l: "l \<noteq> []"
      with that obtain c where c: "call_series c = (family_name f, l)"
        by (auto simp: expected_series_def calls_of_def filter_empty_conv split: if_splits)
      obtain g where g: "g \<in> set metric_families" "family_name g = fst (call_series c)"
        "labelled g \<longleftrightarrow> snd (call_series c) \<noteq> []"
        using family_of_call [of c] by blast
      have "g = f" using g(1,2) assms(4) c family_names_distinct by (auto simp: distinct_map dest: inj_onD)
      with g(3) c l False show False by simp
    qed
    then have "{l. expected_series lib f cs l \<noteq> None} \<subseteq> {[]}" by blast
    from card_mono [OF _ this] False n show ?thesis by simp
  qed
qed

lemma used_labels_finite [simp]: "finite (used_labels name cs)"
proof -
  have "used_labels name cs \<subseteq> snd ` call_series ` set cs" by (force simp: used_labels_def)
  then show ?thesis by (rule finite_subset) simp
qed

lemma series_count_bound:
  assumes "used_labels ''opentts_requests_total'' cs \<subseteq> R" and "finite R"
    and "used_labels ''opentts_voice_requests_total'' cs \<subseteq> V" and "finite V"
  shows "series_count (run_calls lib cs) \<le> 11 + card R + card V"
proof -
  let ?b = "\<lambda>f. if family_name f = ''opentts_requests_total'' then card R
      else if family_name f = ''opentts_voice_requests_total'' then card V else 1"
  have n: "length ss \<le> ?b f" if fs: "(f, ss) \<in> set (run_calls lib cs)" for f ss
  proof -
    have f: "f \<in> set metric_families"
      using fs run_calls_families [of lib cs] by (metis fst_conv image_eqI set_map)
    show ?thesis
      using series_of_family [OF fs, of R] series_of_family [OF fs, of V]
        series_of_family [OF fs, of "used_labels (family_name f) cs"] assms f
      by (cases "labelled f") (auto simp: labelled_def finite_subset)
  qed
  have "series_count (run_calls lib cs) \<le> sum_list (map ?b (map fst (run_calls lib cs)))"
    unfolding series_count_def map_map
  proof (rule sum_list_mono)
    fix x assume x: "x \<in> set (run_calls lib cs)"
    show "(case x of (f, ss) \<Rightarrow> length ss) \<le> (?b \<circ> fst) x"
      using n [of "fst x" "snd x"] x by (simp add: case_prod_unfold)
  qed
  also have "\<dots> = 11 + card R + card V"
    unfolding run_calls_families by (simp add: metric_families_def mk_family_def)
  finally show ?thesis .
qed

subsection \<open>The labels the service uses\<close>

text \<open>The statuses are those a speech request is answered with, the voices those of the catalog.\<close>

fun label_ok :: "'b HandlerDeps \<Rightarrow> metric_call \<Rightarrow> bool" where
  "label_ok deps (Requests_Total status) \<longleftrightarrow> status \<in> {200, 400, 413, 500, 503}"
| "label_ok deps (Voice_Requests_Total voice) \<longleftrightarrow> known_voice deps voice"
| "label_ok deps c \<longleftrightarrow> True"

lemma counted_labels:
  "(\<forall>c \<in> set cs. label_ok deps c) \<longleftrightarrow>
     set (counted_statuses cs) \<subseteq> {200, 400, 413, 500, 503} \<and> (\<forall>v. Voice_Requests_Total v \<in> set cs \<longrightarrow> known_voice deps v)"
proof (induction cs)
  case (Cons c cs)
  then show ?case by (cases c) auto
qed simp

lemma checks_labels: "speech_checks lib req deps = (c, m) \<Longrightarrow> \<forall>x \<in> set m. label_ok deps x"
  using content_type.refusal(1) body_size.refusal(1) model.refusal(1) input.refusal(1) voice.refusal(1)
    response_format.refusal(1) speed.refusal(1)
  unfolding speech_checks_def Let_def
  by (auto simp: refuse_def split: if_splits parsed.splits option.splits)

lemma finish_labels: "speech_finish lib t0 t1 q a = (r, m) \<Longrightarrow> \<forall>x \<in> set m. label_ok deps x"
  by (auto simp: speech_finish_def Let_def split: if_splits)

definition todo_ok :: "'b HandlerDeps \<Rightarrow> 'c flight \<Rightarrow> bool" where
  "todo_ok deps f \<longleftrightarrow> (\<forall>c \<in> set (calls (fl_todo f)). label_ok deps c)"

definition labels_inv :: "'j json_library \<Rightarrow> 'b HandlerDeps
    \<Rightarrow> (SynthesisRequest \<Rightarrow> 'b \<Rightarrow> SynthesisResult outcome \<times> 'b) \<Rightarrow> 'b service \<Rightarrow> bool" where
  "labels_inv lib deps synth s \<longleftrightarrow> content_inv lib deps synth s \<and> (\<forall>c \<in> set (sv_metrics s). label_ok deps c)
     \<and> list_all (todo_ok deps) (sv_flights s)"

lemma calls_posts_set: "set (calls (posts m)) \<subseteq> set m"
  unfolding posts_def by (induction m) (auto split: metric_call.splits)

lemma todo_update:
  assumes "list_all (todo_ok deps) fs" and "\<forall>c \<in> set (calls td). label_ok deps c"
  shows "list_all (todo_ok deps) (set_todo i td fs)"
    and "list_all (todo_ok deps) (set_todo i td (set_stage i st fs))"
  using assms by (auto simp: list_all_length set_todo_nth set_stage_nth todo_ok_def)

lemma todo_deliver: "list_all (todo_ok deps) fs \<Longrightarrow> list_all (todo_ok deps) (deliver act fs)"
  by (auto simp: deliver_def list_all_length set_stage_nth todo_ok_def split: action.split)

interpretation service_labels: step_invariant "service_step lib deps synth" "labels_inv lib deps synth"
  for lib deps synth
proof unfold_locales
  fix s s' :: "'b service"
  assume st: "service_step lib deps synth s s'" and inv: "labels_inv lib deps synth s"
  then have content: "content_inv lib deps synth s'" using service_content.inv_step by (auto simp: labels_inv_def)
  have posted: "\<forall>c \<in> set (sv_metrics s). label_ok deps c"
    and todo: "list_all (todo_ok deps) (sv_flights s)"
    using inv by (simp_all add: labels_inv_def)
  have here: "\<forall>c \<in> set (calls (fl_todo (sv_flights s ! i))). label_ok deps c" if "i < length (sv_flights s)" for i
    using todo that by (simp add: list_all_length todo_ok_def)
  have voice: "known_voice deps (sr_voice request)"
    if "i < length (sv_flights s)" "fl_request (sv_flights s ! i) = Some request" for i request
  proof -
    have "flight_ok lib deps synth (sv_flights s ! i)"
      using inv that(1) by (auto simp: labels_inv_def content_inv_def list_all_length)
    with that(2) show ?thesis by (simp add: flight_ok_def acceptable_def fields_ok_def)
  qed
  have fine: "\<forall>c \<in> set (calls (posts m)). label_ok deps c" if "\<forall>c \<in> set m. label_ok deps c" for m
    using that calls_posts_set [of m] by blast
  from st show "labels_inv lib deps synth s'"
  proof cases
    case (Arrive req c m)
    with Arrive content posted todo fine [OF checks_labels [OF Arrive(2)]] show ?thesis
      by (simp add: labels_inv_def todo_ok_def)
  next
    case (Post i c td)
    then have "label_ok deps c" "\<forall>c \<in> set (calls td). label_ok deps c" using here [of i] by simp_all
    with Post content posted todo_update(1) [OF todo] show ?thesis by (simp add: labels_inv_def)
  next
    case (Read i td)
    then have "\<forall>c \<in> set (calls (Call (Queue_Depth_Set (queue_depth (sv_pool s))) # td)). label_ok deps c"
      using here [of i] by simp
    with Read content posted todo_update(1) [OF todo] show ?thesis by (simp add: labels_inv_def)
  next
    case (Look i request)
    have "\<forall>c \<in> set (calls (if is_accepting (sv_pool s) then posts (counted_before request 0) else [])). label_ok deps c"
      using fine [of "counted_before request 0"] voice [OF Look(2,4)] by simp
    with Look content posted todo_update(2) [OF todo] show ?thesis by (simp add: labels_inv_def)
  next
    case (Refused i seen request now r m)
    have "\<forall>c \<in> set (calls (posts (if is_accepting seen then counted_refused else [Requests_Total 503]))). label_ok deps c"
      by (rule fine) simp
    with Refused content posted todo_update(2) [OF todo] show ?thesis by (simp add: labels_inv_def)
  next
    case (Submitted i seen request now p' m)
    with content posted todo_update(2) [OF todo, of "[Read_Depth]"] show ?thesis by (simp add: labels_inv_def)
  next
    case (Worker now act p')
    with content posted todo_deliver [OF todo] show ?thesis by (simp add: labels_inv_def)
  next
    case (Finish i a started ended q r m)
    with content posted todo_update(2) [OF todo fine [OF finish_labels [OF Finish(5)]]] show ?thesis
      by (simp add: labels_inv_def)
  next
    case Stop
    with content posted todo show ?thesis by (simp add: labels_inv_def)
  qed
qed

lemma label_sets:
  assumes "\<forall>c \<in> set cs. label_ok deps c" and "deps_voice_catalog deps = Some catalog"
  shows "used_labels ''opentts_requests_total'' cs
      \<subseteq> (\<lambda>status. [(''status'', int_to_string status)]) ` {200, 400, 413, 500, 503}"
    and "used_labels ''opentts_voice_requests_total'' cs \<subseteq> (\<lambda>v. [(''voice'', voice_id v)]) ` set catalog"
proof -
  have "call_series c = (''opentts_requests_total'', l) \<Longrightarrow> \<exists>st. c = Requests_Total st \<and> l = [(''status'', int_to_string st)]"
    "call_series c = (''opentts_voice_requests_total'', l) \<Longrightarrow> \<exists>v. c = Voice_Requests_Total v \<and> l = [(''voice'', v)]"
    for c l by (cases c; simp)+
  then show "used_labels ''opentts_requests_total'' cs
      \<subseteq> (\<lambda>status. [(''status'', int_to_string status)]) ` {200, 400, 413, 500, 503}"
    and "used_labels ''opentts_voice_requests_total'' cs \<subseteq> (\<lambda>v. [(''voice'', voice_id v)]) ` set catalog"
    using assms by (fastforce simp: used_labels_def known_voice_def is_valid_iff all_voices_def)+
qed

lemma series_bounded:
  assumes "\<forall>c \<in> set cs. label_ok deps c" and "deps_voice_catalog deps = Some catalog"
  shows "series_count (run_calls mlib cs) \<le> 16 + length catalog"
proof -
  note l = label_sets [OF assms]
  have "series_count (run_calls mlib cs)
      \<le> 11 + card ((\<lambda>status. [(''status'', int_to_string status)]) ` {200, 400, 413, 500, 503})
        + card ((\<lambda>v. [(''voice'', voice_id v)]) ` set catalog)"
    by (rule series_count_bound [OF l(1) _ l(2)]) simp_all
  also have "card ((\<lambda>status. [(''status'', int_to_string status)]) ` {200, 400, 413, 500, 503 :: int})
      \<le> card {200, 400, 413, 500, 503 :: int}" by (rule card_image_le) simp
  also have "card {200, 400, 413, 500, 503 :: int} = 5" by simp
  also have "card ((\<lambda>v. [(''voice'', voice_id v)]) ` set catalog) \<le> card (set catalog)"
    by (rule card_image_le) simp
  also have "card (set catalog) \<le> length catalog" by (rule card_length)
  finally show ?thesis by simp
qed

subsection \<open>Values as numbers\<close>

text \<open>The library seen through the numbers it reports, as in \<open>Metrics\<close>: the value of a series after a run
  of calls is that of \<open>record_metric\<close>.\<close>

definition plain_library :: "rat metrics_library" where
  "plain_library = \<lparr>ml_new = (\<lambda>k. 0), ml_increment = (\<lambda>x v. v + x), ml_decrement = (\<lambda>v. v - 1),
     ml_set = (\<lambda>x v. x), ml_observe = (\<lambda>x v. v + 1), ml_text = (\<lambda>reg. [])\<rparr>"

lemma plain_update: "call_update plain_library c v = call_effect c v"
  by (cases c) (simp_all add: plain_library_def)

lemma plain_values:
  "fold record_metric cs m sr = fold (call_update plain_library) (calls_of sr cs) (m sr)"
  by (induction cs arbitrary: m) (simp_all add: calls_of_def record_metric_def plain_update)

end
