(* ===== verification/System.thy ===== *)
theory System
  imports Threads Registry Dispatch MainProgram
begin

text \<open>
  The whole program at once: the phases of \<^verbatim>\<open>main\<close> with its signals, the middleware in the threads
  of the HTTP library, the speech handlers, and the pool with its worker, in every interleaving the
  code allows. A request is accepted only while the listener runs; a thread that the middleware lets
  through to the speech route becomes a request of the service; the pool is shut down after the
  listener has returned and the adapter is withdrawn. Each component is a simulation of its own
  steps, so what its theory shows holds in the whole.
\<close>

subsection \<open>The system\<close>

text \<open>\<open>sy_threads_of\<close> is the thread that runs each request of the service.\<close>

record 'b system =
  sy_process :: process
  sy_mw :: "'b mw_state"
  sy_service :: "'b service"
  sy_threads_of :: "nat list"

definition system_start :: "time_point \<Rightarrow> 'b TtsServer \<Rightarrow> 'b InferencePool \<Rightarrow> 'b system" where
  "system_start now srv p = \<lparr>sy_process = new_process, sy_mw = mw_start now srv,
     sy_service = new_service p, sy_threads_of = []\<rparr>"

definition speech_route :: "matcher \<Rightarrow> HttpRequest \<Rightarrow> bool" where
  "speech_route match req \<longleftrightarrow> match registered_routes (req_method req) (req_path req) = Some Speech_Route"

inductive system_step ::
  "'j json_library \<Rightarrow> matcher \<Rightarrow> nat \<Rightarrow> 'b HandlerDeps
     \<Rightarrow> (SynthesisRequest \<Rightarrow> 'b \<Rightarrow> SynthesisResult outcome \<times> 'b) \<Rightarrow> 'b system \<Rightarrow> 'b system \<Rightarrow> bool"
  for lib match n deps synth where
  Program: "main_step (sy_process s) p \<Longrightarrow> system_step lib match n deps synth s (s\<lparr>sy_process := p\<rparr>)"
| Middleware: "mw_step lib n (sy_mw s) m \<Longrightarrow>
     length (mt_threads m) = length (mt_threads (sy_mw s)) \<or> running (proc_listener (sy_process s)) \<Longrightarrow>
     system_step lib match n deps synth s (s\<lparr>sy_mw := m\<rparr>)"
| Handle: "i < length (mt_threads (sy_mw s)) \<Longrightarrow> mt_threads (sy_mw s) ! i = th \<Longrightarrow>
     th_stage th = Ended None \<Longrightarrow> speech_route match (th_request th) \<Longrightarrow> i \<notin> set (sy_threads_of s) \<Longrightarrow>
     speech_checks lib (th_request th) deps = (c, m) \<Longrightarrow> sy_service s = v \<Longrightarrow>
     system_step lib match n deps synth s (s\<lparr>sy_threads_of := sy_threads_of s @ [i],
       sy_service := v\<lparr>sv_flights := sv_flights v @ [checked_flight (th_request th) (c, m)]\<rparr>\<rparr>)"
| Serve: "service_step lib deps synth (sy_service s) v \<Longrightarrow>
     length (sv_flights v) = length (sv_flights (sy_service s)) \<Longrightarrow>
     is_accepting (sv_pool v) = is_accepting (sv_pool (sy_service s)) \<Longrightarrow>
     system_step lib match n deps synth s (s\<lparr>sy_service := v\<rparr>)"
| Shut_Down: "proc_phase (sy_process s) = Withdrawn \<Longrightarrow> sy_service s = v \<Longrightarrow>
     system_step lib match n deps synth s (s\<lparr>sy_service := v\<lparr>sv_pool := stop_accepting (sv_pool v)\<rparr>\<rparr>)"

inductive_cases system_stepE: "system_step lib match n deps synth s s'"

subsection \<open>Each component keeps to its own steps\<close>

interpretation system_process: simulation "system_step lib match n deps synth" "\<lambda>s. True" main_step sy_process
  for lib match n deps synth
  by unfold_locales (auto elim!: system_step.cases)

interpretation system_mw: simulation "system_step lib match n deps synth" "\<lambda>s. True" "mw_step lib n" sy_mw
  for lib match n deps synth
  by unfold_locales (auto elim!: system_step.cases)

interpretation system_service: simulation "system_step lib match n deps synth" "\<lambda>s. True"
    "service_step lib deps synth" sy_service
  for lib match n deps synth
proof unfold_locales
  fix s s' :: "'b system"
  assume "system_step lib match n deps synth s s'"
  then show "(service_step lib deps synth)\<^sup>=\<^sup>= (sy_service s) (sy_service s')"
    by cases (auto intro: service_step.Arrive service_step.Stop)
qed

subsection \<open>Who handles what\<close>

text \<open>Each request of the service is run by a thread of its own, which the middleware let through.\<close>

definition routed_inv :: "matcher \<Rightarrow> 'b system \<Rightarrow> bool" where
  "routed_inv match s \<longleftrightarrow> length (sy_threads_of s) = length (sv_flights (sy_service s)) \<and> distinct (sy_threads_of s)
     \<and> (\<forall>k < length (sy_threads_of s).
          let i = sy_threads_of s ! k; th = mt_threads (sy_mw s) ! i
          in i < length (mt_threads (sy_mw s)) \<and> th_stage th = Ended None \<and> speech_route match (th_request th)
             \<and> fl_http (sv_flights (sy_service s) ! k) = th_request th)"

lemma checked_flight_http [simp]: "fl_http (checked_flight req (c, m)) = req"
  by (cases c) simp_all

lemma service_step_http:
  "service_step lib deps synth v v' \<Longrightarrow> k < length (sv_flights v)
     \<Longrightarrow> fl_http (sv_flights v' ! k) = fl_http (sv_flights v ! k)"
  by (cases rule: service_step.cases) (auto simp: nth_append set_stage_nth deliver_def split: action.split)

interpretation system_routing: step_invariant "system_step lib match n deps synth" "routed_inv match"
  for lib match n deps synth
proof unfold_locales
  fix s s' :: "'b system"
  assume "system_step lib match n deps synth s s'" and inv: "routed_inv match s"
  then show "routed_inv match s'"
  proof cases
    case (Middleware m)
    have "i < length (mt_threads m) \<and> mt_threads m ! i = mt_threads (sy_mw s) ! i"
      if "i < length (mt_threads (sy_mw s))" "th_stage (mt_threads (sy_mw s) ! i) = Ended None" for i
      using mw_step_threads [OF Middleware(2)] that by auto
    with inv Middleware(1) show ?thesis by (simp add: routed_inv_def Let_def)
  next
    case (Handle i th c m v)
    with inv show ?thesis by (auto simp: routed_inv_def Let_def nth_append less_Suc_eq)
  next
    case (Serve v)
    with inv service_step_http [OF Serve(2)] show ?thesis by (simp add: routed_inv_def Let_def)
  qed (use inv in \<open>simp_all add: routed_inv_def Let_def\<close>)
qed

subsection \<open>What is submitted\<close>

text \<open>Each accepted job belongs to a request of its own, which has passed the checks with the job's
  fields, and is submitted once.\<close>

fun unsubmitted :: "'b stage \<Rightarrow> bool" where
  "unsubmitted Checked = True"
| "unsubmitted (Looked p) = True"
| "unsubmitted _ = False"

definition submitted_ok :: "'b flight list \<Rightarrow> InferenceJob \<Rightarrow> bool" where
  "submitted_ok fs job \<longleftrightarrow> job_owner job < length fs
     \<and> fl_request (fs ! job_owner job) = Some (job_request job) \<and> \<not> unsubmitted (fl_stage (fs ! job_owner job))"

definition jobs_inv :: "'b service \<Rightarrow> bool" where
  "jobs_inv s \<longleftrightarrow> distinct (map job_owner (accepted_jobs (sv_history s)))
     \<and> (\<forall>job \<in> set (accepted_jobs (sv_history s)). submitted_ok (sv_flights s) job)"

lemma submitted_move:
  "submitted_ok fs job \<Longrightarrow> \<not> unsubmitted st \<Longrightarrow> submitted_ok (set_stage i st fs) job"
  "submitted_ok fs job \<Longrightarrow> unsubmitted (fl_stage (fs ! i)) \<Longrightarrow> submitted_ok (set_stage i st fs) job"
  by (auto simp: submitted_ok_def set_stage_nth)

lemma submitted_todo [simp]: "submitted_ok (set_todo i td fs) job = submitted_ok fs job"
  by (auto simp: submitted_ok_def)

lemma submitted_append: "submitted_ok fs job \<Longrightarrow> submitted_ok (fs @ [fl]) job"
  by (simp add: submitted_ok_def nth_append)

lemma submitted_deliver: "submitted_ok fs job \<Longrightarrow> submitted_ok (deliver act fs) job"
  by (auto simp: deliver_def submitted_move split: action.split)

interpretation service_jobs: step_invariant "service_step lib deps synth" jobs_inv for lib deps synth
proof unfold_locales
  fix s s' :: "'b service"
  assume "service_step lib deps synth s s'" and inv: "jobs_inv s"
  then show "jobs_inv s'"
  proof cases
    case (Arrive req c m)
    with inv show ?thesis by (simp add: jobs_inv_def submitted_append)
  next
    case (Post i c td)
    with inv show ?thesis by (simp add: jobs_inv_def)
  next
    case (Read i td)
    with inv show ?thesis by (simp add: jobs_inv_def)
  next
    case (Look i request)
    with inv submitted_move(2) [of "sv_flights s" _ i] show ?thesis by (simp add: jobs_inv_def)
  next
    case (Refused i seen request now r m)
    with inv submitted_move(1) [of "sv_flights s" _ "Replied r" i] show ?thesis by (simp add: jobs_inv_def)
  next
    case (Submitted i seen request now p' m)
    have "i \<notin> job_owner ` set (accepted_jobs (sv_history s))"
      using inv Submitted(3) by (auto simp: jobs_inv_def submitted_ok_def)
    moreover have "submitted_ok (set_stage i Waits (sv_flights s))
        (stamp (timeout_seconds (sv_pool s)) now (speech_job i request))"
      using Submitted(2,4) by (simp add: submitted_ok_def set_stage_nth)
    ultimately show ?thesis
      using inv Submitted(1) submitted_move(1) [of "sv_flights s" _ Waits i]
      by (auto simp: jobs_inv_def log_submit_def)
  next
    case (Worker now act p')
    with inv show ?thesis by (auto simp: jobs_inv_def intro: submitted_deliver)
  next
    case (Finish i a started ended q r m)
    with inv submitted_move(1) [of "sv_flights s" _ "Replied r" i] show ?thesis by (simp add: jobs_inv_def)
  next
    case Stop
    with inv show ?thesis by (simp add: jobs_inv_def)
  qed
qed

subsection \<open>Serving and shutting down\<close>

text \<open>Until the adapter is withdrawn the pool takes jobs, and no handler has seen it closed.\<close>

definition open_inv :: "'b system \<Rightarrow> bool" where
  "open_inv s \<longleftrightarrow> proc_phase (sy_process s) = Withdrawn \<or> is_accepting (sv_pool (sy_service s))
     \<and> (\<forall>fl \<in> set (sv_flights (sy_service s)). \<forall>p. fl_stage fl = Looked p \<longrightarrow> is_accepting p)"

lemma main_step_withdrawn: "main_step p p' \<Longrightarrow> proc_phase p = Withdrawn \<Longrightarrow> proc_phase p' = Withdrawn"
  using main_step_phase [of p p'] by (simp add: antisym)

lemma looked_set_stage:
  assumes "fl \<in> set (set_stage i st fs)" and "fl_stage fl = Looked p"
  shows "st = Looked p \<or> (\<exists>fl \<in> set fs. fl_stage fl = Looked p)"
proof -
  from assms(1) consider "fl = (fs ! i)\<lparr>fl_stage := st\<rparr>" | "fl \<in> set fs"
    unfolding set_stage_def using set_update_subset_insert by fastforce
  then show ?thesis using assms(2) by cases auto
qed

lemma looked_set_todo:
  assumes "fl \<in> set (set_todo i td fs)" and "fl_stage fl = Looked p"
  shows "\<exists>fl \<in> set fs. fl_stage fl = Looked p"
  using assms by (auto simp: in_set_conv_nth [of fl] set_todo_nth intro!: bexI [OF _ nth_mem] split: if_splits)

lemma looked_deliver:
  assumes "fl \<in> set (deliver act fs)" and "fl_stage fl = Looked p"
  shows "\<exists>fl \<in> set fs. fl_stage fl = Looked p"
proof (cases act)
  case (Answered job a)
  show ?thesis
  proof (cases "calls_back job a")
    case True
    with Answered assms looked_set_stage [of fl "job_owner job" "Woken a" fs p] show ?thesis
      by (simp add: deliver_def)
  next
    case False
    with Answered assms show ?thesis by (auto simp: deliver_def)
  qed
qed (use assms in \<open>auto simp: deliver_def\<close>)

lemma service_step_looked:
  assumes "service_step lib deps synth v v'" and "fl \<in> set (sv_flights v')" and "fl_stage fl = Looked p"
  shows "p = sv_pool v \<or> (\<exists>fl \<in> set (sv_flights v). fl_stage fl = Looked p)"
  using assms(1)
proof cases
  case (Arrive req c m)
  with assms(2,3) show ?thesis by (cases c) auto
next
  case (Worker now act p')
  with assms(2,3) looked_deliver show ?thesis by fastforce
qed (use assms(2,3) in \<open>auto dest: looked_set_stage looked_set_todo\<close>)

lemma checked_flight_looked [simp]: "fl_stage (checked_flight req (c, m)) \<noteq> Looked p"
  by (cases c) simp_all

interpretation system_open: step_invariant "system_step lib match n deps synth" open_inv for lib match n deps synth
proof unfold_locales
  fix s s' :: "'b system"
  assume "system_step lib match n deps synth s s'" and inv: "open_inv s"
  then show "open_inv s'"
  proof cases
    case (Program p)
    with inv main_step_withdrawn show ?thesis by (auto simp: open_inv_def)
  next
    case (Handle i th c m v)
    with inv show ?thesis by (auto simp: open_inv_def)
  next
    case (Serve v)
    with inv service_step_looked [OF Serve(2)] show ?thesis unfolding open_inv_def by fastforce
  qed (use inv in \<open>simp_all add: open_inv_def\<close>)
qed

subsection \<open>The reachable systems\<close>

text \<open>The program has initialized a server for a configuration and serves with its pool.\<close>

definition system_from ::
  "'j json_library \<Rightarrow> matcher \<Rightarrow> nat \<Rightarrow> ('b \<Rightarrow> bool) \<Rightarrow> (SynthesisRequest \<Rightarrow> 'b \<Rightarrow> SynthesisResult outcome \<times> 'b)
     \<Rightarrow> ServerConfig \<Rightarrow> 'b \<Rightarrow> VoiceCatalog option \<Rightarrow> time_point \<Rightarrow> 'b TtsServer \<Rightarrow> 'b system \<Rightarrow> bool" where
  "system_from lib match n ready synth cfg b catalog t srv s \<longleftrightarrow>
     server_initialize ready (new_TtsServer cfg (Some b) catalog t) = (True, srv)
     \<and> (\<exists>p. srv_pool srv = Some p
         \<and> (system_step lib match n (make_deps ready srv) synth)\<^sup>*\<^sup>* (system_start t srv p) s)"

lemma initialized_server:
  assumes "server_initialize ready (new_TtsServer cfg (Some b) catalog t) = (True, srv)"
    and "srv_pool srv = Some p"
  shows "srv_config srv = cfg" and "srv_request_limiter srv = new_request_limiter (int_to_size (request_rate_limit_rpm cfg))"
    and "new_InferencePool (Some b) (max_queue_depth cfg) (request_timeout_seconds cfg) = Inr p"
  using assms
  by (auto simp: server_initialize_def new_TtsServer_def server_backend_def new_request_limiter_def Let_def
      split: if_splits sum.splits)

lemma system_reachable:
  assumes "system_from lib match n ready synth cfg b catalog t srv s"
  obtains p where
    "(service_step lib (make_deps ready srv) synth)\<^sup>*\<^sup>* (new_service p) (sy_service s)"
    "new_InferencePool (Some b) (max_queue_depth cfg) (request_timeout_seconds cfg) = Inr p"
    "(mw_step lib n)\<^sup>*\<^sup>* (mw_start t srv) (sy_mw s)"
    "main_step\<^sup>*\<^sup>* new_process (sy_process s)"
    "routed_inv match s" "open_inv s"
    "load_inv cfg (int_to_size (request_rate_limit_rpm cfg)) t
       (new_request_limiter (int_to_size (request_rate_limit_rpm cfg))) (sy_mw s)"
    "jobs_inv (sy_service s)"
proof -
  obtain p where i: "server_initialize ready (new_TtsServer cfg (Some b) catalog t) = (True, srv)" "srv_pool srv = Some p"
    and st: "(system_step lib match n (make_deps ready srv) synth)\<^sup>*\<^sup>* (system_start t srv p) s"
    using assms by (auto simp: system_from_def)
  note init = initialized_server [OF i]
  have mw: "(mw_step lib n)\<^sup>*\<^sup>* (mw_start t srv) (sy_mw s)"
    using system_mw.sim_steps [OF st] by (simp add: system_start_def)
  have sv: "(service_step lib (make_deps ready srv) synth)\<^sup>*\<^sup>* (new_service p) (sy_service s)"
    using system_service.sim_steps [OF st] by (simp add: system_start_def)
  have "jobs_inv (new_service p)" by (simp add: jobs_inv_def new_service_def no_history_def)
  moreover have "routed_inv match (system_start t srv p)"
    by (simp add: routed_inv_def system_start_def new_service_def)
  moreover have "open_inv (system_start t srv p)"
    using init(3) by (auto simp: open_inv_def system_start_def new_service_def new_InferencePool_def
        is_accepting_def split: if_splits)
  moreover have "main_step\<^sup>*\<^sup>* new_process (sy_process s)"
    using system_process.sim_steps [OF st] by (simp add: system_start_def)
  ultimately show ?thesis
    using that [OF sv init(3) mw] service_jobs.inv_steps [OF sv] system_routing.inv_steps [OF st]
      system_open.inv_steps [OF st] mw_load.inv_steps [OF mw load_start [OF init(1,2)]] by blast
qed

text \<open>The thread of a request of the service.\<close>

definition thread_of :: "'b system \<Rightarrow> nat \<Rightarrow> mw_thread" where
  "thread_of s k = mt_threads (sy_mw s) ! (sy_threads_of s ! k)"

text \<open>The request passes the server's own check of the key, whose exact acceptance is in \<open>Auth\<close>.\<close>

definition passes_key_check :: "ServerConfig \<Rightarrow> HttpRequest \<Rightarrow> bool" where
  "passes_key_check cfg req \<longleftrightarrow> authenticated (check_bearer_auth (header req ''authorization'') (api_key cfg))"

lemma speech_route_protected:
  "matches_paths match \<Longrightarrow> speech_route match req \<Longrightarrow> \<not> is_internal_endpoint (req_path req)"
  unfolding speech_route_def matches_paths_def
  by (fastforce simp: registered_routes_def is_internal_endpoint_def)

lemma routed_thread:
  assumes "routed_inv match s" and "matches_paths match" and "k < length (sv_flights (sy_service s))"
  shows "sy_threads_of s ! k < length (mt_threads (sy_mw s))" and "let_pass (thread_of s k)"
    and "th_request (thread_of s k) = fl_http (sv_flights (sy_service s) ! k)"
  using assms speech_route_protected [OF assms(2)]
  by (auto simp: routed_inv_def thread_of_def let_pass_def Let_def)

lemma system_keyed:
  assumes "system_from lib match n ready synth cfg b catalog t srv s" and "matches_paths match"
    and "require_auth cfg" and "k < length (sv_flights (sy_service s))"
  shows "passes_key_check cfg (fl_http (sv_flights (sy_service s) ! k))"
proof -
  obtain p where mw: "(mw_step lib n)\<^sup>*\<^sup>* (mw_start t srv) (sy_mw s)" and r: "routed_inv match s"
    using system_reachable [OF assms(1)] by metis
  have "srv_config srv = cfg" using assms(1) initialized_server(1) by (auto simp: system_from_def)
  then have "require_auth cfg \<and> key_inv cfg (mw_start t srv)"
    using assms(3) by (simp add: key_inv_def mw_start_def)
  from mw_keys.inv_steps [OF mw this] have "\<forall>th \<in> set (mt_threads (sy_mw s)). keyed cfg th"
    by (simp add: key_inv_def)
  with routed_thread [OF r assms(2,4)] show ?thesis
    by (fastforce simp: keyed_def passes_key_check_def thread_of_def)
qed

lemma service_accepts_checked:
  assumes "content_inv lib deps synth v" and "submitted_ok (sv_flights v) job"
  shows "acceptable lib (fl_http (sv_flights v ! job_owner job)) deps (job_request job)"
proof -
  have "flight_ok lib deps synth (sv_flights v ! job_owner job)"
    using assms by (auto simp: content_inv_def submitted_ok_def list_all_length)
  then show ?thesis using assms(2) by (simp add: flight_ok_def submitted_ok_def)
qed

lemma jobs_of_address:
  assumes "routed_inv match s" and "matches_paths match" and "jobs_inv (sy_service s)"
  shows "length (filter (\<lambda>job. Q (thread_of s (job_owner job))) (accepted_jobs (sv_history (sy_service s))))
    \<le> length (filter (\<lambda>th. let_pass th \<and> Q th) (mt_threads (sy_mw s)))"
proof -
  let ?js = "filter (\<lambda>job. Q (thread_of s (job_owner job))) (accepted_jobs (sv_history (sy_service s)))"
  let ?ts = "mt_threads (sy_mw s)" and ?f = "\<lambda>job. sy_threads_of s ! job_owner job"
  have own: "job_owner job < length (sv_flights (sy_service s))" if "job \<in> set ?js" for job
    using that assms(3) by (auto simp: jobs_inv_def submitted_ok_def)
  have d: "distinct (map job_owner ?js)" using assms(3) by (simp add: jobs_inv_def distinct_map_filter)
  have len: "length (sy_threads_of s) = length (sv_flights (sy_service s))" "distinct (sy_threads_of s)"
    using assms(1) by (simp_all add: routed_inv_def)
  have "distinct ?js" using d by (simp add: distinct_map)
  then have "length ?js = card (set ?js)" by (rule distinct_card [symmetric])
  also have "\<dots> = card (?f ` set ?js)"
  proof (rule card_image [symmetric], rule inj_onI)
    fix x y assume xy: "x \<in> set ?js" "y \<in> set ?js" "?f x = ?f y"
    then have "job_owner x = job_owner y" using own len by (simp add: nth_eq_iff_index_eq)
    with xy d show "x = y" unfolding distinct_map by (meson inj_onD)
  qed
  also have "\<dots> \<le> card {i. i < length ?ts \<and> (let_pass (?ts ! i) \<and> Q (?ts ! i))}"
    using routed_thread [OF assms(1,2) own] by (intro card_mono) (auto simp: thread_of_def)
  also have "\<dots> = length (filter (\<lambda>th. let_pass th \<and> Q th) ?ts)"
    by (simp add: length_filter_conv_card)
  finally show ?thesis .
qed

subsection \<open>An example run\<close>

lemma service_step_monotone:
  assumes "service_step lib deps synth v v'"
  shows "length (sv_flights v) \<le> length (sv_flights v')"
    and "is_accepting (sv_pool v') \<Longrightarrow> is_accepting (sv_pool v)"
  using assms
  by (cases; force simp: deliver_def is_accepting_def worker_step_def stop_accepting_def submit_def Let_def
      dest!: speech_submit_accepted split: action.splits worker.splits if_splits list.splits prod.splits outcome.splits)+

lemma service_steps_monotone:
  assumes "(service_step lib deps synth)\<^sup>*\<^sup>* v v'"
  shows "length (sv_flights v) \<le> length (sv_flights v')"
    and "is_accepting (sv_pool v') \<Longrightarrow> is_accepting (sv_pool v)"
  using assms by (induction rule: rtranclp_induct) (auto dest: service_step_monotone)

lemma serve_steps:
  assumes "(service_step lib deps synth)\<^sup>*\<^sup>* v v'" and "length (sv_flights v') = length (sv_flights v)"
    and "is_accepting (sv_pool v')"
  shows "(system_step lib match n deps synth)\<^sup>*\<^sup>* (s\<lparr>sy_service := v\<rparr>) (s\<lparr>sy_service := v'\<rparr>)"
  using assms
proof (induction rule: converse_rtranclp_induct)
  case (step v w)
  note mono = service_step_monotone [OF step.hyps(1)] service_steps_monotone [OF step.hyps(2)]
  have l: "length (sv_flights w) = length (sv_flights v)" using mono(1,3) step.prems(1) by simp
  have a: "is_accepting (sv_pool w)" "is_accepting (sv_pool v)" using mono(2,4) step.prems(2) by auto
  have "system_step lib match n deps synth (s\<lparr>sy_service := v\<rparr>) (s\<lparr>sy_service := v\<rparr>\<lparr>sy_service := w\<rparr>)"
    by (rule system_step.Serve) (use step.hyps(1) l a in simp_all)
  with step.IH step.prems l show ?case by (auto intro: converse_rtranclp_into_rtranclp)
qed simp

lemma middleware_steps:
  assumes "(mw_step lib n)\<^sup>*\<^sup>* m m'" and "running (proc_listener (sy_process s))"
  shows "(system_step lib match n deps synth)\<^sup>*\<^sup>* (s\<lparr>sy_mw := m\<rparr>) (s\<lparr>sy_mw := m'\<rparr>)"
  using assms(1)
proof (induction rule: converse_rtranclp_induct)
  case (step m w)
  have "system_step lib match n deps synth (s\<lparr>sy_mw := m\<rparr>) (s\<lparr>sy_mw := m\<rparr>\<lparr>sy_mw := w\<rparr>)"
    by (rule system_step.Middleware) (use step.hyps(1) assms(2) in simp_all)
  with step.IH show ?case by (auto intro: converse_rtranclp_into_rtranclp)
qed simp

text \<open>The program has started its listener.\<close>

definition listening :: process where
  "listening = \<lparr>proc_phase = Listening, shutdown_requested = False, adapter_set = True,
     proc_listener = \<lparr>running = True, stop_requested = False\<rparr>\<rparr>"

lemma listening_reached: "main_step\<^sup>*\<^sup>* new_process listening"
proof -
  let ?p1 = "new_process\<lparr>proc_phase := Handlers_Installed\<rparr>"
  let ?p2 = "?p1\<lparr>proc_phase := Adapter_Published, adapter_set := True\<rparr>"
  have "main_step new_process ?p1" by (rule main_step.Install) (simp add: new_process_def)
  moreover have "main_step ?p1 ?p2" by (rule main_step.Publish) simp
  moreover have "main_step ?p2 (?p2\<lparr>proc_phase := Listening, proc_listener := listener_begin (proc_listener ?p2)\<rparr>)"
    by (rule main_step.Listen) simp
  moreover have "?p2\<lparr>proc_phase := Listening, proc_listener := listener_begin (proc_listener ?p2)\<rparr> = listening"
    by (simp add: new_process_def listening_def listener_begin_def)
  ultimately show ?thesis by (metis converse_rtranclp_into_rtranclp rtranclp.rtrancl_refl)
qed

lemma process_steps:
  "main_step\<^sup>*\<^sup>* p p' \<Longrightarrow> (system_step lib match n deps synth)\<^sup>*\<^sup>* (s\<lparr>sy_process := p\<rparr>) (s\<lparr>sy_process := p'\<rparr>)"
proof (induction rule: rtranclp_induct)
  case (step y z)
  have "system_step lib match n deps synth (s\<lparr>sy_process := y\<rparr>) (s\<lparr>sy_process := y\<rparr>\<lparr>sy_process := z\<rparr>)"
    by (rule system_step.Program) (use step.hyps(2) in simp)
  with step.IH show ?case by (auto intro: rtranclp.rtrancl_into_rtrancl)
qed simp

definition demo_config :: ServerConfig where
  "demo_config = default_config\<lparr>require_auth := True, api_key := ''k'', max_queue_depth := 2,
     request_timeout_seconds := 30\<rparr>"

definition demo_catalog :: VoiceCatalog where
  "demo_catalog = [mk_voice ''v'' ''V'' ''en'']"

definition demo_server :: "'b \<Rightarrow> 'b TtsServer" where
  "demo_server b = snd (server_initialize (\<lambda>b. True) (new_TtsServer demo_config (Some b) (Some demo_catalog) 0))"

definition demo_keyed_request :: HttpRequest where
  "demo_keyed_request = example_http_request\<lparr>req_headers :=
     [(''content-type'', ''application/json''), (''authorization'', ''Bearer k'')]\<rparr>"

definition demo_thread :: mw_thread where
  "demo_thread = \<lparr>th_request = demo_keyed_request, th_stage = Ended None, th_counted = Some 0, th_last = 0\<rparr>"

lemma demo_server_initialized:
  "server_initialize (\<lambda>b. True) (new_TtsServer demo_config (Some b) (Some demo_catalog) 0) = (True, demo_server b)"
  "srv_pool (demo_server b) = Some (demo_pool b)"
  by (simp_all add: demo_server_def server_initialize_def new_TtsServer_def server_backend_def demo_config_def
      new_InferencePool_def demo_pool_def Let_def)

lemma demo_keyed_checks:
  "speech_checks demo_lib demo_keyed_request (make_deps (\<lambda>b. True) (demo_server b)) = (Continues example_request, [])"
  using example_acceptable
  by (simp add: speech_checks_passes acceptable_def fields_ok_def known_voice_def input_limit_def make_deps_def
      demo_server_def server_initialize_def new_TtsServer_def server_backend_def demo_config_def
      new_InferencePool_def example_deps_def demo_catalog_def is_valid_def find_voice_def mk_voice_def
      example_request_def demo_keyed_request_def example_http_request_def header_def
      default_config_def Let_def)

lemma demo_keyed_frame:
  "srv_config (demo_server b) = demo_config" "require_auth demo_config" "api_key demo_config = ''k''"
  "\<not> is_internal_endpoint (req_path demo_keyed_request)"
  "client_address demo_config demo_keyed_request = ''1.2.3.4''"
  "auth_ip_states (srv_auth_limiter (demo_server b)) = []"
  "srv_request_limiter (demo_server b) = new_request_limiter 10"
  "authenticated (check_bearer_auth (header demo_keyed_request ''authorization'') ''k'')"
  unfolding check_bearer_auth_accepts
  by (simp_all add: demo_server_def server_initialize_def new_TtsServer_def server_backend_def demo_config_def
      new_InferencePool_def demo_keyed_request_def example_http_request_def client_address_def
      extract_client_ip_def default_config_def is_internal_endpoint_def int_to_size_def header_def
      new_request_limiter_def bearer_prefix_def constant_time_equals_iff Let_def)

lemma demo_admitted:
  "\<exists>srv. mw_play demo_lib 1 [Move_Accept demo_keyed_request, Move_Ask 0, Move_Rate 0, Move_Key 0]
      (mw_start 0 (demo_server b))
    = Some \<lparr>mt_server = srv, mt_now = 0, mt_threads = [demo_thread], mt_metrics = []\<rparr>"
proof -
  let ?srv = "(demo_server b)\<lparr>srv_request_limiter := (new_request_limiter 10)\<lparr>request_ip_states :=
      [(''1.2.3.4'', \<lparr>requests = Suc 0, request_window_start = 0\<rparr>)]\<rparr>\<rparr>"
  have a: "ask_part demo_lib 0 demo_keyed_request (demo_server b) = (None, [], (demo_server b))"
    by (simp add: ask_part_def demo_keyed_frame is_blocked_def Let_def)
  have r: "rate_part demo_lib (\<lambda>m. m) 0 0 demo_keyed_request (demo_server b) = (None, [], ?srv)"
    by (simp add: rate_part_def demo_keyed_frame check_request_def subscript_def new_request_limiter_def
        elapsed_seconds_def to_seconds_nonneg Let_def)
  have k: "key_part demo_lib (\<lambda>m. m) 0 0 demo_keyed_request ?srv = (Some None, [], ?srv)"
    by (simp add: key_part_def demo_keyed_frame Let_def)
  show ?thesis
    by (rule exI [of _ ?srv])
      (simp add: mw_start_def in_flight_def new_thread_def advance_def moved_def a r k demo_thread_def)
qed

lemma demo_system:
  assumes "(service_step demo_lib (make_deps (\<lambda>b. True) (demo_server b)) synth)\<^sup>*\<^sup>* (demo_arrived demo_keyed_request b) v"
    and "length (sv_flights v) = 1" and "is_accepting (sv_pool v)"
  shows "\<exists>s. system_from demo_lib exact_match 1 (\<lambda>b. True) synth demo_config b (Some demo_catalog) 0 (demo_server b) s
    \<and> sy_process s = listening \<and> mt_threads (sy_mw s) = [demo_thread] \<and> sy_service s = v \<and> sy_threads_of s = [0]"
proof -
  let ?R = "system_step demo_lib exact_match 1 (make_deps (\<lambda>b. True) (demo_server b)) synth"
  let ?s0 = "system_start 0 (demo_server b) (demo_pool b)"
  let ?s1 = "?s0\<lparr>sy_process := listening\<rparr>"
  obtain m where play: "mw_play demo_lib 1 [Move_Accept demo_keyed_request, Move_Ask 0, Move_Rate 0, Move_Key 0]
      (mw_start 0 (demo_server b)) = Some m" and m: "mt_threads m = [demo_thread]"
    using demo_admitted by (metis mw_state.select_convs(3))
  let ?s2 = "?s1\<lparr>sy_mw := m\<rparr>"
  let ?s3 = "?s2\<lparr>sy_threads_of := [0], sy_service := demo_arrived demo_keyed_request b\<rparr>"
  have r1: "?R\<^sup>*\<^sup>* ?s0 ?s1"
    using process_steps [OF listening_reached, of demo_lib exact_match 1 _ synth ?s0]
    by (simp add: system_start_def)
  have r2: "?R\<^sup>*\<^sup>* ?s1 ?s2"
    using middleware_steps [OF mw_play_steps [OF play], of ?s1 exact_match _ synth]
    by (simp add: system_start_def listening_def)
  have r3: "?R ?s2 ?s3"
  proof -
    have st: "speech_route exact_match demo_keyed_request"
      by (simp add: speech_route_def exact_match_def registered_routes_def demo_keyed_request_def
          example_http_request_def)
    from system_step.Handle [of 0 ?s2 demo_thread exact_match demo_lib "make_deps (\<lambda>b. True) (demo_server b)" "Continues example_request" "[]"
        "new_service (demo_pool b)" 1 synth]
    show ?thesis using demo_keyed_checks [of b] st m
      by (simp add: demo_thread_def system_start_def new_service_def demo_arrived_def demo_flight_of_def posts_def)
  qed
  have r4: "?R\<^sup>*\<^sup>* ?s3 (?s3\<lparr>sy_service := v\<rparr>)"
    using serve_steps [OF assms(1) _ assms(3), of exact_match 1 ?s3] assms(2)
    by (simp add: demo_arrived_def)
  have "?R\<^sup>*\<^sup>* ?s0 (?s3\<lparr>sy_service := v\<rparr>)"
    by (rule rtranclp_trans [OF r1 rtranclp_trans [OF r2 converse_rtranclp_into_rtranclp [OF r3 r4]]])
  with demo_server_initialized [of b] m show ?thesis
    by (intro exI [of _ "?s3\<lparr>sy_service := v\<rparr>"]) (simp add: system_from_def)
qed

subsection \<open>Properties\<close>

text \<open>C2. Only checked and authorized work, in the whole program: whatever the interleaving of signals,
  handler threads, the worker and the shutdown, every job the pool has accepted belongs to a request
  that passed the checks with the job's fields, no request has two jobs, and every speech reply with
  status 200 carries audio the backend returned for that request's own fields; when authentication is
  required, each of these requests passed the check of the key.\<close>

theorem system_work_is_authorized:
  assumes "system_from lib match n ready synth cfg b catalog t srv s"
    and "matches_paths match" and "max_queue_depth cfg \<le> INT_MAX"
  shows "(let fs = sv_flights (sy_service s); jobs = accepted_jobs (sv_history (sy_service s)) in
      distinct (map job_owner jobs)
      \<and> (\<forall>job \<in> set jobs. job_owner job < length fs \<and> (require_auth cfg \<longrightarrow> passes_key_check cfg (fl_http (fs ! job_owner job)))
           \<and> acceptable lib (fl_http (fs ! job_owner job)) (make_deps ready srv) (job_request job))
      \<and> (\<forall>fl \<in> set fs. \<forall>r. fl_stage fl = Replied r \<and> resp_status r = 200 \<longrightarrow> (require_auth cfg \<longrightarrow> passes_key_check cfg (fl_http fl))
           \<and> (\<exists>request b' res. acceptable lib (fl_http fl) (make_deps ready srv) request
                \<and> fst (synth request b') = Returns res \<and> binary_body r = audio_data res)))"
proof -
  obtain p where sv: "(service_step lib (make_deps ready srv) synth)\<^sup>*\<^sup>* (new_service p) (sy_service s)"
    and new: "new_InferencePool (Some b) (max_queue_depth cfg) (request_timeout_seconds cfg) = Inr p"
    and jobs: "jobs_inv (sy_service s)"
    using system_reachable [OF assms(1)] by metis
  note content = service_reachable(2) [OF sv new assms(3)]
  note key = system_keyed [OF assms(1,2)]
  have "\<forall>job \<in> set (accepted_jobs (sv_history (sy_service s))). submitted_ok (sv_flights (sy_service s)) job"
    using jobs by (simp add: jobs_inv_def)
  moreover have "passes_key_check cfg (fl_http fl)" if "require_auth cfg" "fl \<in> set (sv_flights (sy_service s))" for fl
    using that key by (metis in_set_conv_nth)
  ultimately show ?thesis
    using jobs key service_accepts_checked [OF content] replied_inv [OF content]
    unfolding Let_def by (auto simp: jobs_inv_def submitted_ok_def)
qed

theorem system_work_is_authorized_witness:
  "\<exists>s :: nat system. sy_threads_of s = [0] \<and> accepted_jobs (sv_history (sy_service s)) = [demo_speech_job]
     \<and> (\<exists>r. fl_stage (sv_flights (sy_service s) ! 0) = Replied r \<and> binary_body r = [7])
     \<and> passes_key_check demo_config demo_keyed_request"
proof -
  obtain v r where v: "(service_step demo_lib (make_deps (\<lambda>b. True) (demo_server (0 :: nat))) demo_synth)\<^sup>*\<^sup>* (demo_arrived demo_keyed_request 0) v"
    "sv_flights v = [demo_flight_of demo_keyed_request (Replied r)]" "resp_status r = 200" "sv_pool v = demo_pool 0"
    "accepted_jobs (sv_history v) = [demo_speech_job]"
    using demo_replied_from by (metis (no_types))
  obtain s where s: "system_from demo_lib exact_match 1 (\<lambda>b. True) demo_synth demo_config 0 (Some demo_catalog) 0 (demo_server (0 :: nat)) s"
    "sy_service s = v" "sy_threads_of s = [0]"
    using demo_system [OF v(1)] v(2,4) by (auto simp: is_accepting_def demo_pool_def)
  have "binary_body r = [7] \<and> passes_key_check demo_config demo_keyed_request"
    using system_work_is_authorized [OF s(1) exact_match_paths] demo_keyed_frame(2)
    by (auto simp: s(2) v(2,3) demo_flight_of_def demo_config_def INT_MAX_def demo_synth_def demo_audio_def Let_def)
  with s v show ?thesis by (intro exI [of _ s]) (simp add: demo_flight_of_def)
qed

text \<open>C3. The load on the engine, in the whole program: in any minute no more than twice
  \<^verbatim>\<open>request_rate_limit_rpm\<close> accepted jobs come from requests of one client address that passed the
  request limiter in that minute.\<close>

theorem system_jobs_per_address:
  assumes "system_from lib match n ready synth cfg b catalog t srv s" and "matches_paths match"
  shows "length (filter (\<lambda>job. let th = thread_of s (job_owner job) in
        thread_ip cfg th = ip \<and> t0 \<le> the (th_counted th) \<and> the (th_counted th) \<le> t0 + minute_span)
      (accepted_jobs (sv_history (sy_service s))))
    \<le> 2 * int_to_size (request_rate_limit_rpm cfg)"
proof -
  obtain p where r: "routed_inv match s" "jobs_inv (sy_service s)"
    and load: "load_inv cfg (int_to_size (request_rate_limit_rpm cfg)) t
       (new_request_limiter (int_to_size (request_rate_limit_rpm cfg))) (sy_mw s)"
    using system_reachable [OF assms(1)] by metis
  from jobs_of_address [OF r(1) assms(2) r(2)] load_bound [OF load] show ?thesis
    unfolding Let_def by (rule order_trans)
qed

theorem system_jobs_per_address_witness:
  "\<exists>s :: nat system. accepted_jobs (sv_history (sy_service s)) = [demo_speech_job]
     \<and> thread_of s (job_owner demo_speech_job) = demo_thread
     \<and> length (filter (\<lambda>job. let th = thread_of s (job_owner job) in
          thread_ip demo_config th = ''1.2.3.4'' \<and> 0 \<le> the (th_counted th) \<and> the (th_counted th) \<le> 0 + minute_span)
        (accepted_jobs (sv_history (sy_service s)))) \<le> 2 * int_to_size (request_rate_limit_rpm demo_config)"
proof -
  obtain v r where v: "(service_step demo_lib (make_deps (\<lambda>b. True) (demo_server (0 :: nat))) demo_synth)\<^sup>*\<^sup>* (demo_arrived demo_keyed_request 0) v"
    "sv_flights v = [demo_flight_of demo_keyed_request (Replied r)]" "sv_pool v = demo_pool 0"
    "accepted_jobs (sv_history v) = [demo_speech_job]"
    using demo_replied_from by (metis (no_types))
  obtain s where s: "system_from demo_lib exact_match 1 (\<lambda>b. True) demo_synth demo_config 0 (Some demo_catalog) 0 (demo_server (0 :: nat)) s"
    "sy_service s = v" "sy_threads_of s = [0]" "mt_threads (sy_mw s) = [demo_thread]"
    using demo_system [OF v(1)] v(2,3) by (auto simp: is_accepting_def demo_pool_def)
  from system_jobs_per_address [OF s(1) exact_match_paths, of "''1.2.3.4''" 0] s v(4) show ?thesis
    by (intro exI [of _ s]) (simp add: thread_of_def demo_speech_job_def speech_job_def)
qed

text \<open>C4. While the program serves, only a full queue is answered with 503: until the adapter is
  withdrawn after the listener has returned, the pool takes jobs, and what a speech handler gets at
  the submission depends on nothing but the room in the queue: with room it goes on with its job
  queued, otherwise it answers that the queue is full.\<close>

theorem system_refuses_only_when_full:
  assumes "system_from lib match n ready synth cfg b catalog t srv s" and "max_queue_depth cfg \<le> INT_MAX"
    and "proc_phase (sy_process s) \<noteq> Withdrawn"
    and "fl \<in> set (sv_flights (sy_service s))" and "fl_stage fl = Looked seen"
  shows "(let p = sv_pool (sy_service s) in is_accepting p
    \<and> fst (speech_submit lib now k (Some seen) p request) =
        (if queue_depth p < max_queue_depth cfg
         then Continues (p\<lparr>queue := queue p @ [stamp (timeout_seconds p) now (speech_job k request)]\<rparr>)
         else Responds (queue_full_response lib)))"
proof -
  obtain p where sv: "(service_step lib (make_deps ready srv) synth)\<^sup>*\<^sup>* (new_service p) (sy_service s)"
    and new: "new_InferencePool (Some b) (max_queue_depth cfg) (request_timeout_seconds cfg) = Inr p"
    and o: "open_inv s"
    using system_reachable [OF assms(1)] by metis
  let ?p = "sv_pool (sy_service s)"
  have "deep_inv (max_queue_depth cfg) (pool_of (sy_service s))" by (rule service_reachable(5) [OF sv new assms(2)])
  then have d: "max_depth ?p = max_queue_depth cfg" by (auto simp: deep_inv_def pool_of_def pool_inv_defs)
  have a: "is_accepting ?p" "is_accepting seen" using o assms(3-5) by (auto simp: open_inv_def)
  then show ?thesis
    by (simp add: speech_submit_def submit_def stamp_def speech_job_def is_accepting_def queue_depth_def d Let_def)
qed

theorem system_refuses_only_when_full_witness:
  "\<exists>s :: nat system. sy_process s = listening \<and> is_accepting (sv_pool (sy_service s))
     \<and> (\<exists>p. fst (speech_submit demo_lib 5 0 (Some (demo_pool 0)) (sv_pool (sy_service s)) example_request) = Continues p)"
proof -
  let ?td = "posts (counted_before example_request 0)"
  let ?fl = "(demo_flight_of demo_keyed_request (Looked (demo_pool 0)))\<lparr>fl_todo := ?td\<rparr>"
  let ?v = "(demo_arrived demo_keyed_request 0)\<lparr>sv_flights := [?fl]\<rparr>"
  have acc: "is_accepting (demo_pool (0 :: nat))" by (simp add: is_accepting_def demo_pool_def)
  have "service_step demo_lib (make_deps (\<lambda>b. True) (demo_server (0 :: nat))) demo_synth (demo_arrived demo_keyed_request 0) ?v"
    using service_step.Look [of 0 "demo_arrived demo_keyed_request 0" example_request demo_lib
        "make_deps (\<lambda>b. True) (demo_server (0 :: nat))" demo_synth] acc
    by (simp add: new_service_def demo_arrived_def demo_flight_of_def set_stage_def set_todo_def)
  then obtain s where s: "system_from demo_lib exact_match 1 (\<lambda>b. True) demo_synth demo_config 0 (Some demo_catalog) 0 (demo_server (0 :: nat)) s"
    "sy_process s = listening" "sy_service s = ?v"
    using demo_system [of 0 demo_synth ?v] by (auto simp: is_accepting_def demo_arrived_def new_service_def demo_pool_def)
  have "?fl \<in> set (sv_flights (sy_service s))" by (simp add: s(3))
  from system_refuses_only_when_full [OF s(1) _ _ this, of "demo_pool 0" 5 0 example_request] s(2,3)
  show ?thesis
    by (intro exI [of _ s]) (simp add: demo_config_def INT_MAX_def listening_def demo_flight_of_def demo_arrived_def
        new_service_def demo_pool_def queue_depth_def size_to_int_def Let_def)
qed

text \<open>C26. What clients send cannot make the metrics grow: whatever the interleaving in the whole
  program, and in whatever order the calls on the metrics took effect, \<^verbatim>\<open>/metrics\<close> never has more than
  sixteen time series and one for each voice of the catalog.\<close>

theorem system_metrics_bounded:
  assumes "system_from lib match n ready synth cfg b (Some catalog) t srv s" and "max_queue_depth cfg \<le> INT_MAX"
    and "mset cs = mset (mt_metrics (sy_mw s)) + mset (sv_metrics (sy_service s))"
  shows "series_count (run_calls mlib cs) \<le> 16 + length catalog"
proof (rule series_bounded)
  obtain p where sv: "(service_step lib (make_deps ready srv) synth)\<^sup>*\<^sup>* (new_service p) (sy_service s)"
    and new: "new_InferencePool (Some b) (max_queue_depth cfg) (request_timeout_seconds cfg) = Inr p"
    and mw: "(mw_step lib n)\<^sup>*\<^sup>* (mw_start t srv) (sy_mw s)"
    using system_reachable [OF assms(1)] by metis
  have "labels_inv lib (make_deps ready srv) synth (new_service p)"
    using new_service_inv(2) [OF new] by (simp add: labels_inv_def new_service_def)
  from service_labels.inv_steps [OF sv this]
  have "\<forall>c \<in> set (sv_metrics (sy_service s)). label_ok (make_deps ready srv) c" by (simp add: labels_inv_def)
  moreover have "set (mt_metrics (sy_mw s)) \<subseteq> {Requests_Rejected_Auth, Requests_Rejected_Rate_Limit}"
    by (rule mw_calls.inv_steps [OF mw]) (simp add: mw_start_def)
  moreover have "set cs = set (mt_metrics (sy_mw s)) \<union> set (sv_metrics (sy_service s))"
    using arg_cong [OF assms(3), of set_mset] by simp
  ultimately show "\<forall>c \<in> set cs. label_ok (make_deps ready srv) c" by auto
  show "deps_voice_catalog (make_deps ready srv) = Some catalog"
    using assms(1) by (auto simp: system_from_def make_deps_def server_initialize_def new_TtsServer_def Let_def
        split: if_splits option.splits sum.splits)
qed

theorem system_metrics_bounded_witness:
  "\<exists>s :: nat system. accepted_jobs (sv_history (sy_service s)) = [demo_speech_job]
     \<and> series_count (run_calls plain_library (mt_metrics (sy_mw s) @ sv_metrics (sy_service s))) \<le> 17"
proof -
  obtain v r where v: "(service_step demo_lib (make_deps (\<lambda>b. True) (demo_server (0 :: nat))) demo_synth)\<^sup>*\<^sup>* (demo_arrived demo_keyed_request 0) v"
    "sv_flights v = [demo_flight_of demo_keyed_request (Replied r)]" "sv_pool v = demo_pool 0"
    "accepted_jobs (sv_history v) = [demo_speech_job]"
    using demo_replied_from by (metis (no_types))
  obtain s where s: "system_from demo_lib exact_match 1 (\<lambda>b. True) demo_synth demo_config 0 (Some demo_catalog) 0 (demo_server (0 :: nat)) s"
    "sy_service s = v"
    using demo_system [OF v(1)] v(2,3) by (auto simp: is_accepting_def demo_pool_def)
  from system_metrics_bounded [OF s(1), of "mt_metrics (sy_mw s) @ sv_metrics (sy_service s)" plain_library] s(2) v(4)
  show ?thesis by (intro exI [of _ s]) (simp add: demo_config_def INT_MAX_def demo_catalog_def)
qed

end
