(* ===== verification/Shutdown.thy ===== *)
theory Shutdown
  imports System
begin

text \<open>
  The end of the program. Once \<^verbatim>\<open>main\<close> has told the pool to stop, the worker drains it, whatever the
  handlers that are still there do in between: \<^verbatim>\<open>shutdown\<close> returns in every schedule that is fair to the
  worker's thread, and then nobody waits.
\<close>

subsection \<open>Closing\<close>

text \<open>A system that is reached over the engine adapter, after the shutdown of the pool has begun, whose
  open jobs the engine answers within its buffers.\<close>

definition closing ::
  "'j json_library \<Rightarrow> matcher \<Rightarrow> nat \<Rightarrow> ('ctx VoxtralBackend \<Rightarrow> bool) \<Rightarrow> 'ctx engine option \<Rightarrow> (rat \<Rightarrow> rat)
     \<Rightarrow> time_point \<Rightarrow> time_point \<Rightarrow> ServerConfig \<Rightarrow> 'ctx VoxtralBackend \<Rightarrow> VoiceCatalog option \<Rightarrow> time_point
     \<Rightarrow> 'ctx VoxtralBackend TtsServer \<Rightarrow> 'ctx VoxtralBackend system \<Rightarrow> bool" where
  "closing lib match n ready eng fl t0 t1 cfg b catalog t srv s \<longleftrightarrow>
     system_from lib match n ready (\<lambda>req. voxtral_synth_call eng (fl, t0, t1, req)) cfg b catalog t srv s
     \<and> \<not> is_accepting (sv_pool (sy_service s)) \<and> max_queue_depth cfg \<le> INT_MAX \<and> voxtral_inv b
     \<and> (\<forall>job \<in> set (open_jobs (sv_pool (sy_service s))). \<not> overruns eng b (job_request job))"

abbreviation the_pool :: "'b system \<Rightarrow> 'b InferencePool" where
  "the_pool s \<equiv> sv_pool (sy_service s)"

text \<open>The worker's thread takes a step, and a schedule that lets it whenever it always can.\<close>

definition worker_acts :: "(SynthesisRequest \<Rightarrow> 'b \<Rightarrow> SynthesisResult outcome \<times> 'b)
    \<Rightarrow> 'b system \<Rightarrow> 'b system \<Rightarrow> bool" where
  "worker_acts synth s s' \<longleftrightarrow> works synth (the_pool s) (the_pool s')"

definition fair_to_worker :: "(SynthesisRequest \<Rightarrow> 'b \<Rightarrow> SynthesisResult outcome \<times> 'b)
    \<Rightarrow> (nat \<Rightarrow> 'b system) \<Rightarrow> bool" where
  "fair_to_worker synth f \<longleftrightarrow>
     (\<forall>i. (\<forall>j \<ge> i. \<exists>s'. worker_acts synth (f j) s') \<longrightarrow> (\<exists>j \<ge> i. worker_acts synth (f j) (f (Suc j))))"

lemma service_closed:
  assumes "service_step lib deps synth v v'" and "\<not> is_accepting (sv_pool v)"
  shows "\<not> is_accepting (sv_pool v')" and "accepted_jobs (sv_history v') = accepted_jobs (sv_history v)"
    and "sv_pool v' = sv_pool v \<or> works synth (sv_pool v) (sv_pool v')"
proof -
  show "\<not> is_accepting (sv_pool v')" using service_step_monotone(2) [OF assms(1)] assms(2) by blast
  have "accepted_jobs (sv_history v') = accepted_jobs (sv_history v)
    \<and> (sv_pool v' = sv_pool v \<or> works synth (sv_pool v) (sv_pool v'))"
    using assms(1)
  proof cases
    case (Submitted i seen request now p' m)
    from speech_submit_accepted [OF Submitted(6)] assms(2) show ?thesis
      by (simp add: submit_def is_accepting_def)
  next
    case (Worker now act p')
    then have "works synth (sv_pool v) p'" by (auto simp: works_def)
    with Worker(1) show ?thesis by simp
  next
    case Stop
    with assms(2) show ?thesis by (simp add: stop_accepting_def is_accepting_def)
  qed simp_all
  then show "accepted_jobs (sv_history v') = accepted_jobs (sv_history v)"
    and "sv_pool v' = sv_pool v \<or> works synth (sv_pool v) (sv_pool v')"
    by blast+
qed

lemma system_closed:
  assumes "system_step lib match n deps synth s s'" and "\<not> is_accepting (the_pool s)"
  shows "\<not> is_accepting (the_pool s')"
    and "accepted_jobs (sv_history (sy_service s')) = accepted_jobs (sv_history (sy_service s))"
    and "the_pool s' = the_pool s \<or> works synth (the_pool s) (the_pool s')"
proof -
  consider "sy_service s' = sy_service s" | "service_step lib deps synth (sy_service s) (sy_service s')"
    using system_service.sim_step [OF assms(1) TrueI] by auto
  then show "\<not> is_accepting (the_pool s')"
    and "accepted_jobs (sv_history (sy_service s')) = accepted_jobs (sv_history (sy_service s))"
    and "the_pool s' = the_pool s \<or> works synth (the_pool s) (the_pool s')"
    using service_closed [OF _ assms(2), of lib deps synth] assms(2) by (cases; simp)+
qed

lemma works_rank: "works synth p p' \<Longrightarrow> worker_rank p' < worker_rank p"
  by (rule worker_ranked.rank_step)

lemma system_from_step:
  "system_from lib match n ready synth cfg b catalog t srv s \<Longrightarrow> system_step lib match n (make_deps ready srv) synth s s'
     \<Longrightarrow> system_from lib match n ready synth cfg b catalog t srv s'"
  unfolding system_from_def by (blast intro: rtranclp.rtrancl_into_rtrancl)

lemma closing_facts:
  assumes "closing lib match n ready eng fl t0 t1 cfg b catalog t srv s"
  shows "deep_inv (max_queue_depth cfg) (pool_of (sy_service s))" and "tickets_inv (sy_service s)"
    and "voxtral_is b (pool_backend (the_pool s))" and "proc_phase (sy_process s) = Withdrawn"
proof -
  obtain p0 where sv: "(service_step lib (make_deps ready srv) (\<lambda>req. voxtral_synth_call eng (fl, t0, t1, req)))\<^sup>*\<^sup>*
      (new_service p0) (sy_service s)"
    and new: "new_InferencePool (Some b) (max_queue_depth cfg) (request_timeout_seconds cfg) = Inr p0"
    and o: "open_inv s"
    using assms system_reachable unfolding closing_def by metis
  have d: "max_queue_depth cfg \<le> INT_MAX" and ok: "voxtral_inv b" using assms by (simp_all add: closing_def)
  note r = service_reachable [OF sv new d]
  show "proc_phase (sy_process s) = Withdrawn" using o assms by (simp add: open_inv_def closing_def)
  show "deep_inv (max_queue_depth cfg) (pool_of (sy_service s))" "tickets_inv (sy_service s)" using r(5,1) .
  have "voxtral_is b (pool_backend p0)"
    using new ok by (auto simp: voxtral_is_def new_InferencePool_def split: if_splits)
  from voxtral_pool.reachable_ok [OF r(4) this] show "voxtral_is b (pool_backend (the_pool s))"
    by (simp add: pool_of_def)
qed

interpretation draining: fair_progress
    "system_step lib match n (make_deps ready srv) (\<lambda>req. voxtral_synth_call eng (fl, t0, t1, req))"
    "closing lib match n ready eng fl t0 t1 cfg b catalog t srv"
    "worker_acts (\<lambda>req. voxtral_synth_call eng (fl, t0, t1, req))"
    "\<lambda>s. worker_rank (the_pool s)" "\<lambda>s. shutdown_returns (the_pool s)"
  for lib match n ready srv eng fl t0 t1 cfg b catalog t
proof unfold_locales
  fix s s' :: "'b VoxtralBackend system"
  let ?synth = "\<lambda>req. voxtral_synth_call eng (fl, t0, t1, req)"
  show "worker_rank (the_pool s') < worker_rank (the_pool s)" if "worker_acts ?synth s s'"
    using that works_rank by (simp add: worker_acts_def)
  assume inv: "closing lib match n ready eng fl t0 t1 cfg b catalog t srv s"
  then have no: "\<not> is_accepting (the_pool s)" by (simp add: closing_def)
  show "closing lib match n ready eng fl t0 t1 cfg b catalog t srv s'"
    and "worker_rank (the_pool s') \<le> worker_rank (the_pool s)"
    if st: "system_step lib match n (make_deps ready srv) ?synth s s'"
  proof -
    note c = system_closed [OF st no]
    show "closing lib match n ready eng fl t0 t1 cfg b catalog t srv s'"
    proof -
      have "set (open_jobs (the_pool s')) \<subseteq> set (open_jobs (the_pool s))"
        using c(3) by (auto simp: works_def dest: subsetD [OF worker_open_jobs])
      then show ?thesis using inv system_from_step [OF _ st] c(1) by (auto simp: closing_def)
    qed
    show "worker_rank (the_pool s') \<le> worker_rank (the_pool s)"
      using c(3) works_rank by (metis less_imp_le order_refl)
  qed
  show "\<exists>s'. worker_acts ?synth s s'" if go: "\<not> shutdown_returns (the_pool s)"
  proof -
    note f = closing_facts [OF inv]
    have ex: "worker (the_pool s) = Exited \<longrightarrow> queue (the_pool s) = []"
      using f(1) by (simp add: deep_inv_def pool_of_def pool_inv_defs)
    have "\<not> quiet (the_pool s)"
      using go no by (auto simp: quiet_def shutdown_returns_def is_accepting_def)
    moreover have "\<not> overruns eng b (job_request job)" if "worker (the_pool s) = Running job" for job
      using inv that by (simp add: closing_def open_jobs_def)
    ultimately obtain p' where "works ?synth (the_pool s) p'"
      using voxtral_pool.worker_progress [OF f(3) ex] unfolding works_def by metis
    then show ?thesis
      by (intro exI [of _ "s\<lparr>sy_service := (sy_service s)\<lparr>sv_pool := p'\<rparr>\<rparr>"]) (simp add: worker_acts_def)
  qed
qed

text \<open>When \<^verbatim>\<open>shutdown\<close> can return, nothing is left to do, and it stays so.\<close>

lemma returned_stays:
  assumes "system_step lib match n deps synth s s'" and "shutdown_returns (the_pool s)"
  shows "shutdown_returns (the_pool s')"
proof -
  have no: "\<not> is_accepting (the_pool s)" and gone: "worker (the_pool s) = Exited"
    using assms(2) by (simp_all add: shutdown_returns_def is_accepting_def)
  have "\<not> works synth (the_pool s) p" for p using gone by (simp add: works_def worker_step_def)
  with system_closed(3) [OF assms(1) no] assms(2) show ?thesis by auto
qed

lemma returned_settled:
  assumes "closing lib match n ready eng fl t0 t1 cfg b catalog t srv s" and "shutdown_returns (the_pool s)"
  shows "map fst (answers (sv_history (sy_service s))) = accepted_jobs (sv_history (sy_service s))"
    and "flight \<in> set (sv_flights (sy_service s)) \<Longrightarrow> fl_stage flight \<noteq> Waits"
proof -
  note f = closing_facts [OF assms(1)]
  have e: "open_jobs (the_pool s) = []"
    using f(1) assms(2) by (simp add: open_jobs_def shutdown_returns_def deep_inv_def pool_of_def pool_inv_defs)
  with f(1) show "map fst (answers (sv_history (sy_service s))) = accepted_jobs (sv_history (sy_service s))"
    by (simp add: open_jobs_def deep_inv_def pool_of_def pool_inv_defs answered_def)
  show "fl_stage flight \<noteq> Waits" if "flight \<in> set (sv_flights (sy_service s))"
    using f(2) e that by (auto simp: tickets_inv_def tickets_def in_set_conv_nth)
qed

lemma run_shuts_down:
  assumes run: "\<forall>i. system_step lib match n (make_deps ready srv) (\<lambda>req. voxtral_synth_call eng (fl, t0, t1, req)) (f i) (f (Suc i))"
    and start: "closing lib match n ready eng fl t0 t1 cfg b catalog t srv (f 0)"
    and fair: "fair_to_worker (\<lambda>req. voxtral_synth_call eng (fl, t0, t1, req)) f"
  obtains k where "\<And>j. k \<le> j \<Longrightarrow> shutdown_returns (the_pool (f j))"
    and "\<And>j. closing lib match n ready eng fl t0 t1 cfg b catalog t srv (f j)"
    and "\<And>j. accepted_jobs (sv_history (sy_service (f j))) = accepted_jobs (sv_history (sy_service (f 0)))"
proof -
  have c: "closing lib match n ready eng fl t0 t1 cfg b catalog t srv (f j)" for j
    by (rule draining.run_inv [OF run start])
  obtain k where k: "shutdown_returns (the_pool (f k))"
    using draining.goal_reached [OF run start fair [unfolded fair_to_worker_def]] by blast
  have "shutdown_returns (the_pool (f j))" if "k \<le> j" for j
    using that
  proof (induction j rule: dec_induct)
    case (step j)
    then show ?case using returned_stays [OF spec [OF run]] by blast
  qed (rule k)
  moreover have "accepted_jobs (sv_history (sy_service (f j))) = accepted_jobs (sv_history (sy_service (f 0)))" for j
  proof (induction j)
    case (Suc j)
    have "\<not> is_accepting (the_pool (f j))" using c [of j] by (simp add: closing_def)
    from system_closed(2) [OF spec [OF run] this] Suc show ?case by simp
  qed simp
  ultimately show ?thesis using that c by blast
qed

text \<open>Fair schedules exist from every closing system.\<close>

lemma fair_schedule:
  assumes "closing lib match n ready eng fl t0 t1 cfg b catalog t srv s"
  shows "\<exists>f. f 0 = s
    \<and> (\<forall>i. system_step lib match n (make_deps ready srv) (\<lambda>req. voxtral_synth_call eng (fl, t0, t1, req)) (f i) (f (Suc i)))
    \<and> fair_to_worker (\<lambda>req. voxtral_synth_call eng (fl, t0, t1, req)) f"
  unfolding fair_to_worker_def
proof (rule draining.fair_run_exists [OF assms(1)])
  let ?synth = "\<lambda>req. voxtral_synth_call eng (fl, t0, t1, req)"
  fix u u' :: "'b VoxtralBackend system"
  show "\<not> worker_acts ?synth u u'" if "shutdown_returns (the_pool u)"
    using that by (simp add: worker_acts_def works_def worker_step_def shutdown_returns_def)
  assume c: "closing lib match n ready eng fl t0 t1 cfg b catalog t srv u"
  show "\<exists>u'. system_step lib match n (make_deps ready srv) ?synth u u'"
    using system_step.Shut_Down [OF closing_facts(4) [OF c] refl, of lib match n "make_deps ready srv" ?synth] by blast
  show "\<exists>u'. system_step lib match n (make_deps ready srv) ?synth u u' \<and> worker_acts ?synth u u'"
    if go: "\<not> shutdown_returns (the_pool u)"
  proof -
    obtain w where "worker_acts ?synth u w" using draining.progress [OF c go] by blast
    then obtain now act p' where st: "worker_step ?synth now (the_pool u) = Some (act, p')"
      by (auto simp: worker_acts_def works_def)
    let ?v = "(sy_service u)\<lparr>sv_pool := p', sv_history := log_action now act (sv_history (sy_service u)),
        sv_flights := deliver act (sv_flights (sy_service u))\<rparr>"
    have "is_accepting p' = is_accepting (the_pool u)"
      using service_closed(1) [OF service_step.Worker [OF st, of lib "make_deps ready srv"]] c
      by (simp add: closing_def)
    moreover have "length (deliver act (sv_flights (sy_service u))) = length (sv_flights (sy_service u))"
      by (simp add: deliver_def split: action.split)
    ultimately have "system_step lib match n (make_deps ready srv) ?synth u (u\<lparr>sy_service := ?v\<rparr>)"
      using service_step.Worker [OF st, of lib "make_deps ready srv"] by (intro system_step.Serve) simp_all
    moreover have "worker_acts ?synth u (u\<lparr>sy_service := ?v\<rparr>)"
      using st by (auto simp: worker_acts_def works_def)
    ultimately show ?thesis by blast
  qed
qed

subsection \<open>An example\<close>

text \<open>A request waits for its audio when a signal has ended the listener and the pool is told to stop.\<close>

lemma demo_closing:
  "\<exists>s. system_from demo_lib exact_match 1 (\<lambda>b. True) example_synth demo_config example_backend (Some demo_catalog) 0
        (demo_server example_backend) s
     \<and> \<not> is_accepting (sv_pool (sy_service s)) \<and> accepted_jobs (sv_history (sy_service s)) = [demo_speech_job]
     \<and> (\<exists>flight \<in> set (sv_flights (sy_service s)). fl_stage flight = Waits)
     \<and> pool_backend (sv_pool (sy_service s)) = example_backend"
proof -
  let ?b = "example_backend" and ?deps = "make_deps (\<lambda>b. True) (demo_server example_backend)"
  let ?from = "system_from demo_lib exact_match 1 (\<lambda>b. True) example_synth demo_config ?b (Some demo_catalog) 0 (demo_server ?b)"
  obtain v where v: "(service_step demo_lib ?deps example_synth)\<^sup>*\<^sup>* (demo_arrived demo_keyed_request ?b) v"
    "sv_flights v = [demo_flight_of demo_keyed_request Waits]" "sv_pool v = (demo_pool ?b)\<lparr>queue := [demo_speech_job]\<rparr>"
    "accepted_jobs (sv_history v) = [demo_speech_job]"
    using demo_waits_from [of ?deps example_synth demo_keyed_request ?b] by (elim exE conjE)
  obtain s where s: "?from s" "sy_process s = listening" "sy_service s = v"
    using demo_system [OF v(1)] v(2,3) by (auto simp: is_accepting_def demo_pool_def)
  let ?s1 = "s\<lparr>sy_process := listening\<lparr>proc_phase := Returned, proc_listener := listener_end (proc_listener listening)\<rparr>\<rparr>"
  let ?s2 = "s\<lparr>sy_process := (sy_process ?s1)\<lparr>proc_phase := Withdrawn, adapter_set := False\<rparr>\<rparr>"
  let ?s3 = "?s2\<lparr>sy_service := v\<lparr>sv_pool := stop_accepting (sv_pool v)\<rparr>\<rparr>"
  have "main_step (sy_process s) (sy_process ?s1)"
    using main_step.Listen_Ends [of listening] s(2) by (simp add: listening_def)
  from system_from_step [OF s(1) system_step.Program [OF this]] have s1: "?from ?s1" by simp
  have "main_step (sy_process ?s1) (sy_process ?s2)"
    using main_step.Withdraw [of "sy_process ?s1"] by simp
  from system_from_step [OF s1 system_step.Program [OF this]] have s2: "?from ?s2" by simp
  have "proc_phase (sy_process ?s2) = Withdrawn" "sy_service ?s2 = v" using s(3) by simp_all
  from system_from_step [OF s2 system_step.Shut_Down [OF this]] have "?from ?s3" .
  with v show ?thesis
    by (intro exI [of _ ?s3]) (simp add: is_accepting_def stop_accepting_def demo_flight_of_def demo_pool_def)
qed

subsection \<open>Properties\<close>

text \<open>C5. The program ends: whatever the whole program has reached over the engine adapter, once \<^verbatim>\<open>main\<close> has
  begun to shut the pool down, every schedule of handlers, signals and the worker that is fair to the
  worker's thread comes to a point after which \<^verbatim>\<open>shutdown\<close> can return, every job the pool had ever accepted
  has been answered, in the order of acceptance, no further job is accepted and no handler waits for its
  audio; unless for one of the jobs still open the engine reports more samples than its buffer has or than
  \<open>max_wav_samples\<close>, where the call of the backend has no defined outcome.\<close>

theorem system_shuts_down:
  fixes eng :: "'ctx engine option" and fl :: "rat \<Rightarrow> rat" and t0 t1 :: time_point
  defines "synth \<equiv> (\<lambda>req. voxtral_synth_call eng (fl, t0, t1, req))"
  assumes "system_from lib match n ready synth cfg b catalog t srv (f 0)"
    and "\<not> is_accepting (sv_pool (sy_service (f 0)))"
    and "\<forall>i. system_step lib match n (make_deps ready srv) synth (f i) (f (Suc i))"
    and "fair_to_worker synth f"
    and "max_queue_depth cfg \<le> INT_MAX" and "voxtral_inv b"
  shows "(\<exists>job \<in> set (open_jobs (sv_pool (sy_service (f 0)))). overruns eng b (job_request job))
    \<or> (\<exists>k. \<forall>j \<ge> k. let v = sy_service (f j) in
        shutdown_returns (sv_pool v)
        \<and> accepted_jobs (sv_history v) = accepted_jobs (sv_history (sy_service (f 0)))
        \<and> map fst (answers (sv_history v)) = accepted_jobs (sv_history v)
        \<and> (\<forall>flight \<in> set (sv_flights v). fl_stage flight \<noteq> Waits))"
proof (cases "\<exists>job \<in> set (open_jobs (sv_pool (sy_service (f 0)))). overruns eng b (job_request job)")
  case False
  then have "closing lib match n ready eng fl t0 t1 cfg b catalog t srv (f 0)"
    using assms(2,3,6,7) unfolding synth_def closing_def by simp
  from run_shuts_down [OF assms(4) [unfolded synth_def] this assms(5) [unfolded synth_def]]
  obtain k where k: "\<And>j. k \<le> j \<Longrightarrow> shutdown_returns (the_pool (f j))"
    and c: "\<And>j. closing lib match n ready eng fl t0 t1 cfg b catalog t srv (f j)"
    and h: "\<And>j. accepted_jobs (sv_history (sy_service (f j))) = accepted_jobs (sv_history (sy_service (f 0)))" by metis
  show ?thesis
    unfolding Let_def using k h returned_settled [OF c k] by (intro disjI2 exI [of _ k] allI impI conjI ballI)
qed (rule disjI1)

theorem system_shuts_down_witness:
  "\<exists>(s :: nat VoxtralBackend system) (s' :: nat VoxtralBackend system). accepted_jobs (sv_history (sy_service s)) = [demo_speech_job]
     \<and> (\<exists>flight \<in> set (sv_flights (sy_service s)). fl_stage flight = Waits)
     \<and> pool_backend (sv_pool (sy_service s)) = example_backend
     \<and> shutdown_returns (sv_pool (sy_service s')) \<and> map fst (answers (sv_history (sy_service s'))) = [demo_speech_job]"
proof -
  obtain s where s: "system_from demo_lib exact_match 1 (\<lambda>b. True) example_synth demo_config example_backend
      (Some demo_catalog) 0 (demo_server example_backend) s"
    "\<not> is_accepting (sv_pool (sy_service s))" "accepted_jobs (sv_history (sy_service s)) = [demo_speech_job]"
    "\<exists>flight \<in> set (sv_flights (sy_service s)). fl_stage flight = Waits"
    "pool_backend (sv_pool (sy_service s)) = example_backend"
    using demo_closing by (elim exE conjE)
  have d: "max_queue_depth demo_config \<le> INT_MAX" by (simp add: demo_config_def INT_MAX_def)
  have "closing demo_lib exact_match 1 (\<lambda>b. True) (Some example_engine) (\<lambda>x. x) 0 1 demo_config example_backend
      (Some demo_catalog) 0 (demo_server example_backend) s"
    using s(1,2) d example_backend_ok by (simp add: closing_def)
  from fair_schedule [OF this] obtain f where f: "f 0 = s"
    "\<forall>i. system_step demo_lib exact_match 1 (make_deps (\<lambda>b. True) (demo_server example_backend)) example_synth (f i) (f (Suc i))"
    "fair_to_worker example_synth f" by blast
  from system_shuts_down [OF _ _ f(2,3) d example_backend_ok(1), unfolded f(1), OF s(1,2)]
  obtain k where "shutdown_returns (sv_pool (sy_service (f k)))"
    "map fst (answers (sv_history (sy_service (f k)))) = [demo_speech_job]"
    using s(3) example_backend_ok(2) by (auto simp: Let_def)
  with s(3-5) show ?thesis by - (rule exI [of _ s], rule exI [of _ "f k"], simp)
qed

end
