(* ===== verification/Spec2Isabelle.thy ===== *)
theory Spec2Isabelle
  imports Auth RateLimit Config Voices Validation Metrics Wav Backend Pool RequestId Handlers
    Server HttpAdapter Logger MainProgram Independence PoolSpec Service Dispatch BruteForce Threads
    ServerRun Registry System Shutdown
begin

text \<open>
  A model of the voxtral text-to-speech server: an HTTP service that checks speech requests, queues
  them for one inference worker over a speech engine, and returns WAV audio. File names are under
  \<^verbatim>\<open>src/\<close> (implementation) and \<^verbatim>\<open>include/tts/\<close> (headers).

  \<^bold>\<open>The parts and how they meet.\<close> \<^verbatim>\<open>main.cpp\<close> loads a configuration, initializes the engine adapter, builds
  the server facade and blocks in the HTTP adapter until a signal stops it. A request enters through
  a route of the adapter. For the API routes the middleware takes the client address, asks the
  authentication limiter, counts the request in the request limiter and checks the bearer key; then
  the route handler runs. The speech handler checks the request, submits a job to the inference pool
  and waits for one of the job's callbacks. The pool's worker thread takes jobs in order, drops those
  past their deadline, calls the backend and calls back. All of them count in the metrics singleton.
  An exception that leaves a route handler is answered by the HTTP library.

  \<^bold>\<open>Theories and code.\<close>
  \<^item> \<open>Prelude\<close>: bytes, C integer conversions, clock values, decimal output, C++ maps as association lists.
  \<^item> \<open>Transition\<close>: the contracts of step relations: an invariant kept by every step, a simulation, a rank
    that every step lowers, progress under a fair schedule. Interpreted by the pool, the worker, the
    server, the process, the service and the system.
  \<^item> \<open>Auth\<close>: \<^verbatim>\<open>auth.hpp\<close>, \<^verbatim>\<open>server/auth.cpp\<close>: bearer check, constant-time comparison, client address.
  \<^item> \<open>WindowCounter\<close>, \<open>RateLimit\<close>, \<open>Independence\<close>: the two limiters of \<^verbatim>\<open>auth.hpp\<close> with the contract they
    share, and the request limiter against one counter per client.
  \<^item> \<open>Config\<close>: \<^verbatim>\<open>config/config.cpp\<close>, \<^verbatim>\<open>config.hpp\<close>: integer and boolean parsing, file, environment,
    validation. \<open>Voices\<close>: \<^verbatim>\<open>tts/voices.cpp\<close>. \<open>Validation\<close>: \<^verbatim>\<open>server/validation.cpp\<close>. \<open>Metrics\<close>:
    \<^verbatim>\<open>server/metrics.cpp\<close>, as the table of families and the effect of each call; \<open>Registry\<close>: the families of
    the constructor with the series the calls name, where adding a series to a family is the metrics
    library's documented behaviour and not code of the repository.
  \<^item> \<open>Wav\<close>, \<open>Backend\<close>: \<^verbatim>\<open>tts/voxtral_backend.cpp\<close>, \<^verbatim>\<open>tts/mock_backend.hpp\<close>, \<^verbatim>\<open>backend.hpp\<close>: the WAV writer with
    a strict reader it is checked against, and the backend port as a locale with both implementations.
  \<^item> \<open>Pool\<close>, \<open>PoolSpec\<close>: \<^verbatim>\<open>tts/inference_pool.cpp\<close>. \<open>worker_step\<close> is \<^verbatim>\<open>worker_loop\<close> cut at its atomic
    sections, \<open>pool_step\<close> the interleaving of \<^verbatim>\<open>submit\<close>, \<^verbatim>\<open>shutdown\<close> and the worker; \<open>PoolSpec\<close> has the
    abstract service it implements.
  \<^item> \<open>RequestId\<close>, \<open>Handlers\<close>: \<^verbatim>\<open>server/request_handler.cpp\<close>; \<open>handle_speech\<close> is cut where the handler
    meets the pool. \<open>Service\<close>: many handlers of that kind at once, each call on the metrics and on the pool a
    step of its own (\<open>service_step\<close>, with \<open>fl_todo\<close> the calls a handler has still to make), interleaved with
    one another and with the worker.
  \<^item> \<open>Server\<close>: \<^verbatim>\<open>server/server.cpp\<close>. \<open>HttpAdapter\<close>, \<open>Dispatch\<close>: \<^verbatim>\<open>server/http_adapter.cpp\<close>: adaptation, the
    middleware and the routes, then registration, the answer to any request (\<open>serve\<close>, with \<open>caught\<close> for what the
    library sends after an exception), and the listener.
    \<open>BruteForce\<close>: what the middleware asks and tells the authentication limiter; \<open>ServerRun\<close>: runs of
    requests through the routes, one after the other; \<open>Threads\<close>: the parts of the middleware interleaved by many threads.
  \<^item> \<open>Calendar\<close>, \<open>Logger\<close>: \<^verbatim>\<open>logging/logger.cpp\<close>. \<open>MainProgram\<close>: \<^verbatim>\<open>main.cpp\<close>.
  \<^item> \<open>System\<close>: all of it at once. \<open>system_step\<close> interleaves the phases of \<^verbatim>\<open>main\<close> and its signals, the
    threads of the middleware, the speech handlers, the worker and the shutdown; each component is a
    simulation of its own step relation. \<open>Shutdown\<close>: the end of it, under schedules that are fair to the
    worker's thread.

  \<^bold>\<open>What the lemmas show.\<close> For the pool: no accepted job is lost, doubled or overtaken, deadlines are
  respected, bounds hold in every interleaving, the worker terminates, and it refines a first-in
  first-out service. For the service: replies carry the request's own audio, a waiting handler is
  woken after a bounded number of worker steps, the gauge and the counters are off by no more than the
  handlers that are about to count. For the limiters: refinement of fixed windows, bounds on what one
  address gets, also from many threads at once, independence of clients, the range and the honesty of the
  waiting time, what evictions keep. For the adapter: nothing but the probes answers without the key, the
  form of every refusal and the security headers, both with the one exception the code has, the bare 500
  after an exception. For the backend: what a synthesis comes to, with the case in which the adapter leaves
  its buffers. For the data: round trips of the WAV writer, exact parsing and precedence of the
  configuration, exact time stamps, the shape of request ids. Across components: the two properties
  of this theory, the program's start in \<open>MainProgram\<close>, and in \<open>System\<close>, for every interleaving of the
  whole program: only requests that pass the check of the key get work done, what one address can make the engine do,
  when a request is refused for lack of room, how far the metrics can grow, and, in \<open>Shutdown\<close>, that the
  program ends with every accepted job answered.

  \<^bold>\<open>Bounds and fuel.\<close> \<open>worker_run\<close> takes a number of steps; \<open>worker_rank\<close>, at most four for each queued job
  and four more, is enough because every worker step lowers it. \<open>evict_oldest\<close> and \<open>civil_year\<close> carry
  termination proofs. The WAV round trip holds up to \<open>max_wav_samples\<close> = 2147483625 samples, beyond
  which the 32-bit size wraps (\<open>wav_size_wraps\<close>). \<open>minute_span\<close> is the last nanosecond of a window whose age
  in whole seconds is below 60. A limiter call that makes a new entry reads the clock twice; \<open>seen_at\<close> is
  the reading at which its window opens, and the statements hold for any two readings in order. Queue
  lengths are converted to \<^verbatim>\<open>int\<close>; the statements ask for a configured depth that is an \<^verbatim>\<open>int\<close>, which
  loading guarantees. Key comparison truncates the difference of lengths to a byte, hence the case of texts
  of 256 bytes and more in the statements about the key; \<open>passes_key_check\<close> is the check as the code makes it.

  \<^bold>\<open>Parameters.\<close> The JSON and TOML parsers, the matching of routes and the sockets of the HTTP library,
  the values and text format of the metrics library, the sinks of the logging library, the C engine
  (a submodule), the file system, the environment, random bits, clock readings and the iteration order of
  hash maps. Where a statement needs something of them it is a named hypothesis. Nothing is asked of the
  engine: \<open>overruns\<close> says for which of its answers \<^verbatim>\<open>voxtral_backend.cpp\<close> reads or writes past a buffer (more
  samples reported than returned, or more than \<open>max_wav_samples\<close>), a call that does has the outcome
  \<open>Undefined\<close>, and the statements name that case in their conclusion.

  \<^bold>\<open>Not modelled.\<close> Log lines, which no other part reads. Rounding of doubles and
  floats: they are rationals, with the engine's rounding as a function. Copying and moving of
  objects, memory and exceptions of allocation. The exception of \<^verbatim>\<open>std::filesystem::exists\<close> at
  \<^verbatim>\<open>config.cpp:95\<close>, which nothing catches. The moment in \<^verbatim>\<open>start\<close> between \<^verbatim>\<open>running_ = true\<close> and the library's
  \<^verbatim>\<open>listen\<close> accepting connections, in which the library's \<^verbatim>\<open>stop\<close> has no effect: it is the library's own.
  The version header is a template filled by the build, and its value an argument; tests, benchmarks,
  build and deployment files hold no logic of the server.
\<close>

section \<open>A speech request through the whole server\<close>

text \<open>The environment of a speech request whose answer the pool's own worker gives: the pool is as it
  is in a reachable state with its history, and after the submission the worker takes its steps
  under some clock until it has nothing left to do.\<close>

definition worker_env ::
  "(SynthesisRequest \<Rightarrow> 'b \<Rightarrow> SynthesisResult outcome \<times> 'b) \<Rightarrow> (nat \<Rightarrow> time_point)
     \<Rightarrow> 'b InferencePool \<Rightarrow> history \<Rightarrow> time_point \<Rightarrow> time_point \<Rightarrow> nat \<Rightarrow> time_point \<Rightarrow> 'b speech_env" where
  "worker_env synth clock p h t_start t_submit owner t_end =
     \<lparr>env_start = t_start, env_submit = t_submit, env_owner = owner, env_end = t_end, env_pool = p,
      env_wait = (\<lambda>p' job.
        let (p'', h'') = worker_run synth clock (worker_rank p') (p', log_submit True job h) in
        if answers h'' = [] then None
        else Some (fst (snd (last (answers h''))), p''))\<rparr>"

text \<open>Every answer the worker may store, for a job it was given, when no open job makes the engine leave
  its buffers.\<close>

lemma submitted_answer:
  fixes eng :: "'ctx engine option" and fl :: "rat \<Rightarrow> rat" and t0 t1 :: time_point
  defines "synth \<equiv> (\<lambda>req. voxtral_synth_call eng (fl, t0, t1, req))"
  assumes r: "reachable synth p0 (p, h)" and new: "new_InferencePool (Some b) depth timeout = Inr p0"
    and ok: "voxtral_inv b" and depth: "depth \<le> INT_MAX"
    and sub: "submit now job p = (True, p')"
    and fine: "\<forall>j \<in> set (open_jobs p). \<not> overruns eng b (job_request j)" "\<not> overruns eng b (job_request job)"
  shows "\<exists>a q. env_wait (worker_env synth clock p h ts now owner te) p' (stamp (timeout_seconds p) now job) = Some (a, q)
     \<and> (case a of Succeeded res \<Rightarrow> well_formed_result res | Failed m \<Rightarrow> m \<noteq> [])"
proof -
  let ?job = "stamp (timeout_seconds p) now job" and ?h = "log_submit True (stamp (timeout_seconds p) now job) h"
  have step: "reachable synth p0 (p', ?h)"
    using reachable.Step [OF r pool_step.Submit [OF sub]] by simp
  have ok0: "voxtral_is b (pool_backend p0)" and ob: "voxtral_is b b" and w0: "worker p0 = Waiting"
    using new ok by (auto simp: voxtral_is_def new_InferencePool_def split: if_splits)
  have open_fine: "\<forall>j \<in> set (open_jobs p'). \<not> overruns eng b (job_request j)"
    using submit_open [OF sub] fine by simp
  obtain p'' h'' where run: "worker_run synth clock (worker_rank p') (p', ?h) = (p'', h'')"
    and all: "answered h'' = accepted_jobs ?h"
    using voxtral_pool.all_answered [OF step [unfolded synth_def] new ob depth open_fine, of clock]
    unfolding synth_def by blast
  have ne: "answers h'' \<noteq> []" using all by (auto simp: answered_def log_submit_def)
  have "voxtral_quality.results_good (p', ?h)"
    using voxtral_quality.reachable_good [OF step [unfolded synth_def] ok0 w0] .
  moreover have "voxtral_is b (pool_backend p')"
    using voxtral_pool.reachable_ok [OF step [unfolded synth_def] ok0] by simp
  ultimately have good: "voxtral_quality.results_good (p'', h'')"
    using voxtral_quality.run_good [of b "(p', ?h)" eng fl t0 t1 clock "worker_rank p'"] run
    unfolding synth_def by simp
  have "pool_inv depth (p', ?h)" by (rule reachable_inv [OF step new depth])
  moreover have "voxtral_is b (pool_backend p')" by fact
  ultimately have "pool_inv depth (p'', h'')"
    using voxtral_pool.run_quiet [of depth p' ?h b "worker_rank p'" eng fl t0 t1 clock] run open_fine
    unfolding synth_def by auto
  then have "list_all answer_ok (answers h'')" by (simp add: pool_inv_def)
  then have "answer_ok (last (answers h''))" using ne by (simp add: list_all_iff)
  moreover have "case fst (snd (last (answers h''))) of Succeeded r \<Rightarrow> well_formed_result r | Failed _ \<Rightarrow> True"
    using good ne by (auto simp: voxtral_quality.results_good_def list_all_iff)
  ultimately show ?thesis
    using run ne by (cases "last (answers h'')")
      (auto simp: worker_env_def answer_ok_def Let_def split: answer.splits)
qed

lemma submit_room: "fst (submit now job p) \<longleftrightarrow> is_accepting p \<and> queue_depth p < max_depth p"
  by (simp add: submit_def is_accepting_def queue_depth_def Let_def)

subsection \<open>Properties\<close>

text \<open>C1. From the HTTP request to the audio: take any state the pool can reach over the engine
  adapter and a speech request that passes the checks. If the pool is accepting and has room, the
  handler always returns, either with status 200 and a body that a strict WAV reader accepts, at
  24000 Hz with at least one sample, or with status 500, unless for this request or one still open the
  engine reports more samples than its buffer has or than \<open>max_wav_samples\<close>, where the call of the backend
  has no defined outcome; without room or intake the handler answers 503. Every reply is counted once
  under its status.\<close>

theorem speech_end_to_end:
  fixes eng :: "'ctx engine option" and fl :: "rat \<Rightarrow> rat" and t0 t1 :: time_point
  defines "synth \<equiv> (\<lambda>req. voxtral_synth_call eng (fl, t0, t1, req))"
  assumes "reachable synth p0 (p, h)" and "new_InferencePool (Some b) depth timeout = Inr p0"
    and "voxtral_inv b" and "depth \<le> INT_MAX"
    and "deps_pool deps = Some p" and "acceptable lib req deps request"
  shows "if is_accepting p \<and> queue_depth p < depth
    then overruns eng b request \<or> (\<exists>job \<in> set (open_jobs p). overruns eng b (job_request job))
      \<or> (\<exists>r m left. handle_speech lib (worker_env synth clock p h ts now owner te) req deps = (Reply r, m, left)
          \<and> counted_statuses m = [resp_status r]
          \<and> (resp_status r = 500
             \<or> resp_status r = 200 \<and> (\<exists>pcm. parse_wav (binary_body r) = Some (24000, pcm) \<and> pcm \<noteq> [])))
    else (\<exists>r m left. handle_speech lib (worker_env synth clock p h ts now owner te) req deps = (Reply r, m, left)
          \<and> counted_statuses m = [resp_status r] \<and> resp_status r = 503)"
proof -
  let ?env = "worker_env synth clock p h ts now owner te" and ?job = "speech_job owner request"
  have inv: "pool_inv depth (p, h)" by (rule reachable_inv [OF assms(2,3,5)])
  then have md: "max_depth p = depth" by (simp add: pool_inv_defs)
  have c: "speech_checks lib req deps = (Continues request, [])"
    using assms(7) by (simp add: speech_checks_passes)
  have env: "env_pool ?env = p" "env_submit ?env = now" "env_owner ?env = owner" by (simp_all add: worker_env_def)
  obtain s m2 where s: "speech_submit lib now owner (deps_pool deps) p request = (s, m2)"
    by (cases "speech_submit lib now owner (deps_pool deps) p request")
  obtain good p' where sub: "submit now ?job p = (good, p')" by (cases "submit now ?job p")
  have good: "good \<longleftrightarrow> is_accepting p \<and> queue_depth p < depth"
    using submit_room [of now ?job p] sub md by simp
  show ?thesis
  proof (cases good)
    case False
    then obtain r where sr: "s = Responds r"
      using s sub assms(6) by (auto simp: speech_submit_def Let_def split: if_splits)
    have h: "handle_speech lib ?env req deps = (Reply r, m2, Some p)"
      using c s sr env assms(6) by (simp add: handle_speech_def)
    from handle_speech_metrics [OF h] speech_submit_status [of lib now owner "deps_pool deps" p request r m2] s sr
      False good h show ?thesis by auto
  next
    case True
    then have sc: "s = Continues p'"
      using s sub assms(6) good by (auto simp: speech_submit_def Let_def)
    have sub': "submit now ?job p = (True, p')" using sub True by simp
    show ?thesis
    proof (cases "overruns eng b request \<or> (\<exists>job \<in> set (open_jobs p). overruns eng b (job_request job))")
      case False
      then have fine: "\<forall>j \<in> set (open_jobs p). \<not> overruns eng b (job_request j)"
        "\<not> overruns eng b (job_request ?job)" by simp_all
      obtain a q where w: "env_wait ?env p' (submitted_job ?env request) = Some (a, q)"
        and a: "case a of Succeeded res \<Rightarrow> well_formed_result res | Failed m \<Rightarrow> m \<noteq> []"
        using submitted_answer [OF assms(2) [unfolded synth_def] assms(3,4,5) sub' fine,
            of clock ts owner te]
        unfolding submitted_job_def env unfolding synth_def by blast
      obtain r m3 where f: "speech_finish lib (env_start ?env) (env_end ?env) (queue_depth q) a = (r, m3)"
        by (cases "speech_finish lib (env_start ?env) (env_end ?env) (queue_depth q) a")
      have h: "handle_speech lib ?env req deps = (Reply r, m2 @ m3, Some q)"
        using c s sc env w f by (simp add: handle_speech_def)
      have "resp_status r = 500
          \<or> resp_status r = 200 \<and> (\<exists>pcm. parse_wav (binary_body r) = Some (24000, pcm) \<and> pcm \<noteq> [])"
      proof (cases a)
        case (Succeeded res)
        with a have "\<exists>pcm. parse_wav (audio_data res) = Some (24000, pcm) \<and> pcm \<noteq> []"
          by (auto simp: well_formed_result_def split: option.splits)
        with speech_finish_success [OF f [unfolded Succeeded]] show ?thesis by auto
      next
        case (Failed e)
        with a speech_finish_failure [OF f [unfolded Failed]] show ?thesis by simp
      qed
      with handle_speech_metrics [OF h] h True good show ?thesis by auto
    qed (use True good in auto)
  qed
qed

definition example_engine_deps :: "nat VoxtralBackend HandlerDeps" where
  "example_engine_deps = \<lparr>deps_backend_ready = Some True, deps_voice_catalog = None,
     deps_pool = Some (demo_pool example_backend), deps_config = None, deps_start_time = 0\<rparr>"

theorem speech_end_to_end_witness:
  "\<exists>r m left. handle_speech (example_library (Some ''voxtral-4b''))
      (worker_env example_synth (\<lambda>_. 7) (demo_pool example_backend) no_history 0 1 0 9)
      example_http_request example_engine_deps = (Reply r, m, left)
    \<and> counted_statuses m = [resp_status r] \<and> resp_status r \<in> {200, 500}"
proof -
  have acc: "acceptable (example_library (Some ''voxtral-4b'')) example_http_request example_engine_deps
      example_request"
    using example_acceptable
    by (simp add: acceptable_def fields_ok_def example_engine_deps_def example_deps_def known_voice_def
        input_limit_def)
  have "is_accepting (demo_pool example_backend)" "queue_depth (demo_pool example_backend) < 2"
    "open_jobs (demo_pool example_backend) = []"
    by (simp_all add: demo_pool_def is_accepting_def queue_depth_def size_to_int_def open_jobs_def)
  with speech_end_to_end [OF reachable.Start demo_new example_backend_ok(1) _ _ acc,
      of "Some example_engine" "\<lambda>x. x" 0 1 "\<lambda>_. 7" 0 1 0 9] example_backend_ok(2)
  show ?thesis by (auto simp: INT_MAX_def example_engine_deps_def)
qed

section \<open>Shutting down\<close>

text \<open>The join of the worker: it runs until it has nothing left to do.\<close>

definition joined_worker ::
  "(SynthesisRequest \<Rightarrow> 'b \<Rightarrow> SynthesisResult outcome \<times> 'b) \<Rightarrow> (nat \<Rightarrow> time_point) \<Rightarrow> history
     \<Rightarrow> 'b InferencePool \<Rightarrow> 'b InferencePool" where
  "joined_worker synth clock h p = fst (worker_run synth clock (worker_rank p) (p, h))"

text \<open>C9. A graceful stop: on an initialized server over the engine adapter, in whatever state its pool
  has reached, \<^verbatim>\<open>shutdown\<close> returns; then every job the pool had accepted has been answered, in
  order, the worker has exited, the readiness probe reports 503 and shutting down or destroying the
  server again changes nothing; unless for one of the jobs still open the engine reports more samples
  than its buffer has or than \<open>max_wav_samples\<close>, where the call of the backend has no defined outcome.\<close>

theorem graceful_shutdown:
  fixes eng :: "'ctx engine option" and fl :: "rat \<Rightarrow> rat" and t0 t1 :: time_point
  defines "synth \<equiv> (\<lambda>req. voxtral_synth_call eng (fl, t0, t1, req))"
  assumes "srv_initialized s" and "srv_pool s = Some p" and "reachable synth p0 (p, h)"
    and "new_InferencePool (Some b) depth timeout = Inr p0" and "depth \<le> INT_MAX"
    and "voxtral_inv b"
  shows "(\<exists>job \<in> set (open_jobs p). overruns eng b (job_request job))
    \<or> (\<exists>p' h'. worker_run synth clock (worker_rank p) (stop_accepting p, h) = (p', h')
        \<and> map fst (answers h') = accepted_jobs h \<and> shutdown_returns p'
        \<and> (let s' = server_shutdown (joined_worker synth clock h) s in
             srv_pool s' = Some p' \<and> resp_status (handle_ready lib (make_deps ready s')) = 503
             \<and> server_shutdown joined s' = s' \<and> server_destroy joined s' = s'))"
proof (cases "\<exists>job \<in> set (open_jobs p). overruns eng b (job_request job)")
  case False
  then have fine: "\<forall>job \<in> set (open_jobs (stop_accepting p)). \<not> overruns eng b (job_request job)" by simp
  have ok: "voxtral_is b b" using assms(7) by (simp add: voxtral_is_def)
  have r: "reachable synth p0 (stop_accepting p, h)"
    using reachable.Step [OF assms(4) pool_step.Shutdown] .
  have rank: "worker_rank (stop_accepting p) = worker_rank p" by (simp add: worker_rank_def stop_accepting_def)
  obtain p' h' where run: "worker_run synth clock (worker_rank p) (stop_accepting p, h) = (p', h')"
    and all: "answered h' = accepted_jobs h" and gone: "shutdown_returns p'"
    using voxtral_pool.all_answered [OF r [unfolded synth_def] assms(5) ok assms(6) fine, of clock] rank
    unfolding synth_def by (auto simp: stop_accepting_def)
  let ?s = "server_shutdown (joined_worker synth clock h) s"
  have s': "?s = s\<lparr>srv_pool := Some p', srv_initialized := False\<rparr>"
    using assms(2,3) run rank by (simp add: server_shutdown_def joined_worker_def)
  have "resp_status (handle_ready lib (make_deps ready ?s)) = 503"
    using gone by (simp add: s' handle_ready_def make_deps_def is_accepting_def shutdown_returns_def
        json_response_fields Let_def)
  moreover have "server_shutdown joined (s\<lparr>srv_pool := Some p', srv_initialized := False\<rparr>)
      = s\<lparr>srv_pool := Some p', srv_initialized := False\<rparr>"
    "server_destroy joined (s\<lparr>srv_pool := Some p', srv_initialized := False\<rparr>)
      = s\<lparr>srv_pool := Some p', srv_initialized := False\<rparr>"
    by (simp_all add: server_shutdown_def server_destroy_def)
  ultimately show ?thesis using run all gone
    unfolding s' Let_def answered_def by (intro disjI2 exI [of _ p'] exI [of _ h']) simp
qed (rule disjI1)

definition example_running :: "nat VoxtralBackend TtsServer" where
  "example_running = (new_TtsServer default_config None None 0)\<lparr>srv_initialized := True,
     srv_pool := Some ((demo_pool example_backend)\<lparr>queue := [demo_stamped]\<rparr>)\<rparr>"

theorem graceful_shutdown_witness:
  "\<exists>p' (h' :: history). map fst (answers h') = [demo_stamped] \<and> shutdown_returns p'
     \<and> srv_pool (server_shutdown (joined_worker example_synth (\<lambda>_. 7) demo_history) example_running) = Some p'"
proof -
  have run: "srv_initialized example_running"
    "srv_pool example_running = Some ((demo_pool example_backend)\<lparr>queue := [demo_stamped]\<rparr>)"
    by (simp_all add: example_running_def)
  have depth: "2 \<le> INT_MAX" by (simp add: INT_MAX_def)
  have one: "accepted_jobs demo_history = [demo_stamped]" by (simp add: demo_history_def)
  note stop = graceful_shutdown [OF run demo_queued demo_new depth example_backend_ok(1), of "Some example_engine"
        "\<lambda>x. x" 0 1 "\<lambda>_. 7" "example_library None" voxtral_is_ready "\<lambda>p. p", unfolded Let_def one]
  have none: "\<not> (\<exists>job \<in> set (open_jobs ((demo_pool example_backend)\<lparr>queue := [demo_stamped]\<rparr>)).
      overruns (Some example_engine) example_backend (job_request job))"
    using example_backend_ok(2) by blast
  from stop none show ?thesis by (elim disjE) (blast, elim exE conjE, intro exI conjI)
qed

end
